(* ===== verification/Framing.thy ===== *)
theory Framing
  imports Bridge_Prelude "HOL-Library.Sublist"
begin

text \<open>
  The framing layer (\<open>src/framing.rs\<close>): one GoldSrc datagram becomes a sequence of
  chunks, a header byte followed by at most \<open>MAX_CHUNK\<close> payload bytes, and the
  reassembler rebuilds the datagram on the far side.  The theory states the interface
  the relays rely on as the locale \<open>datagram_codec\<close> and interprets it on the code.
\<close>

unbundle bit_operations_syntax

subsection \<open>The code\<close>

definition MAX_CHUNK :: nat where
  "MAX_CHUNK = 1900"

definition FLAG_FINAL :: u8 where
  "FLAG_FINAL = 0x01"

text \<open>The body of the \<open>while offset < datagram.len()\<close> loop of \<open>frame\<close>.\<close>

function frame_loop :: "bytes \<Rightarrow> nat \<Rightarrow> bytes list" where
  "frame_loop datagram offset =
     (if offset < length datagram then
        let upto = min (offset + MAX_CHUNK) (length datagram);
            is_final = (upto = length datagram);
            chunk = (if is_final then FLAG_FINAL else 0) # take (upto - offset) (drop offset datagram)
        in chunk # frame_loop datagram upto
      else [])"
  by pat_completeness auto
termination
  by (relation "measure (\<lambda>(d, off). length d - off)") (auto simp: MAX_CHUNK_def)

declare frame_loop.simps [simp del]

definition frame :: "bytes \<Rightarrow> bytes list" where
  "frame datagram = (if datagram = [] then [[FLAG_FINAL]] else frame_loop datagram 0)"

record reassembler =
  buf :: bytes

definition reassembler_default :: reassembler where
  "reassembler_default = \<lparr>buf = []\<rparr>"

definition push :: "reassembler \<Rightarrow> bytes \<Rightarrow> reassembler \<times> bytes option" where
  "push r chunk =
     (case chunk of
        [] \<Rightarrow> (r, None)
      | header # body \<Rightarrow>
          let r = r\<lparr>buf := buf r @ body\<rparr>
          in if header AND FLAG_FINAL \<noteq> 0 then
               let complete = buf r; r = r\<lparr>buf := []\<rparr>
               in if 65535 < length complete then (r\<lparr>buf := []\<rparr>, None) else (r, Some complete)
             else (r, None))"

definition reset :: "reassembler \<Rightarrow> reassembler" where
  "reset r = r\<lparr>buf := []\<rparr>"

text \<open>
  The receiving loops of the relays: every chunk is pushed, every completed datagram is
  handed on, in order.
\<close>

fun push_all :: "reassembler \<Rightarrow> bytes list \<Rightarrow> reassembler \<times> bytes list" where
  "push_all r [] = (r, [])"
| "push_all r (c # cs) =
     (case push r c of (r', out) \<Rightarrow>
        case push_all r' cs of (r'', outs) \<Rightarrow>
          (r'', (case out of None \<Rightarrow> outs | Some d \<Rightarrow> d # outs)))"

subsection \<open>One datagram\<close>

text \<open>
  \<open>frame_chunks\<close> is a second reading of the loop, over the bytes that are left instead
  of an offset into the datagram; the two agree.
\<close>

function chunks_of :: "nat \<Rightarrow> bytes \<Rightarrow> bytes list" where
  "chunks_of n xs =
     (if n = 0 \<or> length xs \<le> n then [xs] else take n xs # chunks_of n (drop n xs))"
  by pat_completeness auto
termination
  by (relation "measure (\<lambda>(n, xs). length xs)") auto

declare chunks_of.simps [simp del]

lemma chunks_of_short: "length xs \<le> n \<Longrightarrow> chunks_of n xs = [xs]"
  by (simp add: chunks_of.simps)

lemma chunks_of_long:
  "0 < n \<Longrightarrow> n < length xs \<Longrightarrow> chunks_of n xs = take n xs # chunks_of n (drop n xs)"
  by (simp add: chunks_of.simps [of n xs])

fun mark_final :: "bytes list \<Rightarrow> bytes list" where
  "mark_final [] = []"
| "mark_final [c] = [FLAG_FINAL # c]"
| "mark_final (c # d # cs) = (0 # c) # mark_final (d # cs)"

lemma chunks_of_nonempty [simp]: "chunks_of n xs \<noteq> []"
  by (simp add: chunks_of.simps [of n xs])

lemma mark_final_Cons:
  "cs \<noteq> [] \<Longrightarrow> mark_final (c # cs) = (0 # c) # mark_final cs"
  by (cases cs) simp_all

lemma frame_loop_chunks:
  "offset < length d \<Longrightarrow> frame_loop d offset = mark_final (chunks_of MAX_CHUNK (drop offset d))"
proof (induction d offset rule: frame_loop.induct)
  case (1 d offset)
  have pos: "0 < MAX_CHUNK" by (simp add: MAX_CHUNK_def)
  show ?case
  proof (cases "length d - offset \<le> MAX_CHUNK")
    case True
    then have upto: "min (offset + MAX_CHUNK) (length d) = length d" by simp
    have stop: "frame_loop d (length d) = []"
      by (simp add: frame_loop.simps)
    have "frame_loop d offset = [FLAG_FINAL # drop offset d]"
      using "1.prems" by (simp add: frame_loop.simps [of d offset] Let_def upto stop)
    then show ?thesis using True by (simp add: chunks_of_short)
  next
    case False
    then have upto: "min (offset + MAX_CHUNK) (length d) = offset + MAX_CHUNK"
      and less: "offset + MAX_CHUNK \<noteq> length d" by simp_all
    have rest: "frame_loop d (offset + MAX_CHUNK)
        = mark_final (chunks_of MAX_CHUNK (drop (offset + MAX_CHUNK) d))"
      using "1.IH" [OF "1.prems" refl refl refl] False upto by simp
    have "frame_loop d offset
        = (0 # take MAX_CHUNK (drop offset d)) # frame_loop d (offset + MAX_CHUNK)"
      using "1.prems" False less
      by (simp add: frame_loop.simps [of d offset] Let_def upto)
    also have "\<dots> = mark_final (chunks_of MAX_CHUNK (drop offset d))"
    proof -
      have "drop MAX_CHUNK (drop offset d) = drop (offset + MAX_CHUNK) d"
        by (simp add: add.commute)
      then show ?thesis
        using False pos by (simp only: rest) (simp add: chunks_of_long mark_final_Cons)
    qed
    finally show ?thesis .
  qed
qed

lemma frame_chunks: "frame d = mark_final (chunks_of MAX_CHUNK d)"
  by (cases "d = []") (simp_all add: frame_def frame_loop_chunks chunks_of_short)

lemma concat_chunks_of [simp]: "concat (chunks_of n xs) = xs"
proof (induction n xs rule: chunks_of.induct)
  case (1 n xs)
  then show ?case by (simp add: chunks_of.simps [of n xs])
qed

lemma length_chunks_of: "0 < n \<Longrightarrow> c \<in> set (chunks_of n xs) \<Longrightarrow> length c \<le> n"
proof (induction n xs rule: chunks_of.induct)
  case (1 n xs)
  then show ?case by (cases "length xs \<le> n") (auto simp: chunks_of_short chunks_of_long)
qed

lemma length_mark_final [simp]: "length (mark_final cs) = length cs"
  by (induction cs rule: mark_final.induct) simp_all

lemma mark_final_Nil_iff: "mark_final cs = [] \<longleftrightarrow> cs = []"
  by (cases cs rule: mark_final.cases) simp_all

lemma mark_final_tl: "map tl (mark_final cs) = cs"
  by (induction cs rule: mark_final.induct) simp_all

lemma mark_final_nonempty_chunk: "c \<in> set (mark_final cs) \<Longrightarrow> c \<noteq> []"
  by (induction cs rule: mark_final.induct) auto

lemma mark_final_headers:
  "map hd (mark_final cs) = replicate (length cs - 1) 0 @ (if cs = [] then [] else [FLAG_FINAL])"
  by (induction cs rule: mark_final.induct) simp_all

lemma frame_nonempty [simp]: "frame d \<noteq> []"
  by (metis chunks_of_nonempty frame_chunks length_0_conv length_mark_final)

lemma frame_chunk_bounds:
  assumes "c \<in> set (frame d)"
  shows "c \<noteq> [] \<and> length c \<le> MAX_CHUNK + 1"
proof -
  have ne: "c \<noteq> []"
    using assms mark_final_nonempty_chunk by (auto simp: frame_chunks)
  have "tl c \<in> set (map tl (mark_final (chunks_of MAX_CHUNK d)))"
    using assms by (auto simp: frame_chunks)
  then have "length (tl c) \<le> MAX_CHUNK"
    using length_chunks_of [of MAX_CHUNK "tl c" d] by (simp add: mark_final_tl MAX_CHUNK_def)
  with ne show ?thesis by (cases c) auto
qed

lemma frame_payload: "concat (map tl (frame d)) = d"
  by (simp add: frame_chunks mark_final_tl)

lemma div_round_up_step:
  "0 < n \<Longrightarrow> n < m \<Longrightarrow> (m + n - 1) div n = Suc ((m - n + n - 1) div n)" for m n :: nat
proof -
  assume "0 < n" "n < m"
  then have eq: "m + n - 1 = (m - 1) + n" and sub: "m - n + n - 1 = m - 1" by arith+
  show ?thesis unfolding eq sub using \<open>0 < n\<close> by (subst div_add_self2) simp_all
qed

lemma length_chunks_count:
  "0 < n \<Longrightarrow> length (chunks_of n xs) = max 1 ((length xs + n - 1) div n)"
proof (induction n xs rule: chunks_of.induct)
  case (1 n xs)
  show ?case
  proof (cases "length xs \<le> n")
    case True
    then have "length xs + n - 1 < 2 * n" using "1.prems" by linarith
    then have "(length xs + n - 1) div n < 2"
      using "1.prems" by (simp add: less_mult_imp_div_less)
    then show ?thesis using True by (simp add: chunks_of_short)
  next
    case False
    have "1 \<le> (length xs - n + n - 1) div n"
      using False "1.prems" by (simp add: div_greater_zero_iff Suc_le_eq)
    then show ?thesis
      using False 1 by (simp add: chunks_of_long div_round_up_step del: One_nat_def)
  qed
qed

subsection \<open>Reassembly\<close>

lemma flag_final_nonzero [simp]: "FLAG_FINAL \<noteq> 0"
  by (simp add: FLAG_FINAL_def)

lemma push_empty [simp]: "push r [] = (r, None)"
  by (simp add: push_def)

lemma push_more: "push r (0 # body) = (r\<lparr>buf := buf r @ body\<rparr>, None)"
  by (simp add: push_def Let_def)

lemma push_final:
  "push r (FLAG_FINAL # body) =
     (r\<lparr>buf := []\<rparr>, if 65535 < length (buf r @ body) then None else Some (buf r @ body))"
  by (simp add: push_def Let_def)

lemma push_all_append:
  "push_all r (cs @ ds) =
     (case push_all r cs of (r', xs) \<Rightarrow>
        case push_all r' ds of (r'', ys) \<Rightarrow> (r'', xs @ ys))"
  by (induction cs arbitrary: r) (auto split: prod.splits option.splits)

lemma push_all_nonempty: "push_all r (filter (\<lambda>c. c \<noteq> []) cs) = push_all r cs"
  by (induction cs arbitrary: r) (auto split: prod.splits option.splits)

lemma push_all_mark_final:
  "cs \<noteq> [] \<Longrightarrow> push_all r (mark_final cs) =
     (r\<lparr>buf := []\<rparr>,
      if 65535 < length (buf r @ concat cs) then [] else [buf r @ concat cs])"
proof (induction cs arbitrary: r rule: mark_final.induct)
  case 1
  then show ?case by simp
next
  case (2 c)
  then show ?case by (simp add: push_final)
next
  case (3 c d cs)
  then show ?case by (simp add: push_more)
qed

lemma chunks_of_pieces: "0 < length xs \<Longrightarrow> 0 < n \<Longrightarrow> c \<in> set (chunks_of n xs) \<Longrightarrow> c \<noteq> []"
proof (induction n xs rule: chunks_of.induct)
  case (1 n xs)
  show ?case
  proof (cases "length xs \<le> n")
    case True
    then show ?thesis using 1 by (simp add: chunks_of_short)
  next
    case False
    then have "c = take n xs \<or> c \<in> set (chunks_of n (drop n xs))"
      using 1(3,4) chunks_of_long [of n xs] by simp
    then show ?thesis using 1 False by auto
  qed
qed

text \<open>What one framed datagram does to a reassembler, whatever it already holds.\<close>

lemma push_all_frame:
  "push_all r (frame d) =
     (r\<lparr>buf := []\<rparr>, if 65535 < length (buf r @ d) then [] else [buf r @ d])"
  by (simp add: frame_chunks push_all_mark_final)

lemma push_all_default_frame:
  "length d \<le> 65535 \<Longrightarrow>
   push_all reassembler_default (frame d) = (reassembler_default, [d])"
  by (simp add: push_all_frame reassembler_default_def)

lemma push_Some:
  "push r c = (r', Some d) \<Longrightarrow> length d \<le> 65535 \<and> buf r' = [] \<and> (\<exists>h body. c = h # body \<and> d = buf r @ body)"
  by (auto simp: push_def Let_def split: list.splits if_splits)

subsection \<open>The interface of a datagram codec\<close>

text \<open>
  What the two relays rely on: encoding one admissible datagram and feeding the pieces to
  a decoder in its start state gives that datagram and the start state again.  The
  relays' end-to-end lemmas are proved from this contract alone.
\<close>

locale datagram_codec =
  fixes enc :: "'d \<Rightarrow> 'c list"
    and dec :: "'s \<Rightarrow> 'c \<Rightarrow> 's \<times> 'd option"
    and start :: 's
    and admissible :: "'d \<Rightarrow> bool"
    and run :: "'s \<Rightarrow> 'c list \<Rightarrow> 's \<times> 'd list"
  assumes run_Nil: "run s [] = (s, [])"
    and run_append: "run s (cs @ ds) =
          (case run s cs of (s', xs) \<Rightarrow> case run s' ds of (s'', ys) \<Rightarrow> (s'', xs @ ys))"
    and run_one: "run s [c] = (case dec s c of (s', out) \<Rightarrow>
          (s', case out of None \<Rightarrow> [] | Some d \<Rightarrow> [d]))"
    and run_enc: "admissible d \<Longrightarrow> run start (enc d) = (start, [d])"
begin

lemma run_stream:
  "\<forall>d\<in>set ds. admissible d \<Longrightarrow> run start (concat (map enc ds)) = (start, ds)"
proof (induction ds)
  case Nil
  show ?case by (simp add: run_Nil)
next
  case (Cons d ds)
  then show ?case by (simp add: run_append run_enc)
qed

text \<open>Cutting a stream at a datagram boundary loses nothing of what follows.\<close>

lemma run_resume:
  assumes "\<forall>d\<in>set ds. admissible d" and "run s cs = (start, xs)"
  shows "run s (cs @ concat (map enc ds)) = (start, xs @ ds)"
  using assms by (simp add: run_append run_stream)

lemma run_prefix: "prefix cs ds \<Longrightarrow> prefix (snd (run s cs)) (snd (run s ds))"
  by (auto simp: prefix_def run_append split: prod.splits)

text \<open>Whatever part of a stream has arrived, only datagrams that were sent have come out, in order.\<close>

lemma run_stream_prefix:
  assumes "\<forall>d\<in>set ds. admissible d" and "prefix cs (concat (map enc ds))"
  shows "prefix (snd (run start cs)) ds"
  using run_prefix [OF assms(2), of start] run_stream [OF assms(1)] by simp

lemma enc_injective:
  assumes "admissible d" "admissible d'" "enc d = enc d'"
  shows "d = d'"
proof -
  have "run start (enc d) = (start, [d])" using assms(1) by (rule run_enc)
  moreover have "run start (enc d) = (start, [d'])"
    unfolding assms(3) using assms(2) by (rule run_enc)
  ultimately show ?thesis by (metis list.inject prod.inject)
qed

end

interpretation framing: datagram_codec frame push reassembler_default
  "\<lambda>d. length d \<le> 65535" push_all
proof
  show "push_all s [] = (s, [])" for s by simp
  show "push_all s (cs @ ds) =
      (case push_all s cs of (s', xs) \<Rightarrow> case push_all s' ds of (s'', ys) \<Rightarrow> (s'', xs @ ys))"
    for s cs ds by (rule push_all_append)
  show "push_all s [c] = (case push s c of (s', out) \<Rightarrow>
      (s', case out of None \<Rightarrow> [] | Some d \<Rightarrow> [d]))" for s c
    by (simp split: prod.splits)
  show "push_all reassembler_default (frame d) = (reassembler_default, [d])"
    if "length d \<le> 65535" for d using that by (rule push_all_default_frame)
qed

subsection \<open>Properties of the framing layer\<close>

text \<open>
  C9: feeding the chunks of any sequence of datagrams (each within the
  UDP maximum) to a fresh reassembler, one after the other, gives back exactly these
  datagrams in order and leaves the reassembler empty.
\<close>

theorem framing_round_trip:
  assumes "\<forall>d\<in>set ds. length d \<le> 65535"
  shows "push_all reassembler_default (concat (map frame ds)) = (reassembler_default, ds)"
  by (rule framing.run_stream [OF assms])

theorem framing_round_trip_witness:
  "push_all reassembler_default (concat (map frame [[1, 2], [], [3]])) = (reassembler_default, [[1, 2], [], [3]])"
  by (rule framing_round_trip) simp

text \<open>
  C27: every chunk of a datagram is non-empty and at most one header byte
  longer than \<open>MAX_CHUNK\<close>, the final flag is set on the last chunk and no other, the
  bodies concatenate to the datagram, and there are as many chunks as the length demands (with
  1900 bytes of payload; the README speaks of 384, but 1000 bytes are one chunk).
\<close>

theorem frame_chunk_shape:
  "(\<forall>c\<in>set (frame d). c \<noteq> [] \<and> length c \<le> Suc MAX_CHUNK)
   \<and> map hd (frame d) = replicate (length (frame d) - 1) 0 @ [FLAG_FINAL]
   \<and> concat (map tl (frame d)) = d
   \<and> length (frame d) = max 1 ((length d + MAX_CHUNK - 1) div MAX_CHUNK)"
  using frame_chunk_bounds [of _ d] mark_final_headers [of "chunks_of MAX_CHUNK d"] frame_payload [of d]
    length_chunks_count [of MAX_CHUNK d]
  by (auto simp: frame_chunks MAX_CHUNK_def)

theorem frame_chunk_shape_witness:
  "map hd (frame (replicate 1901 7)) = [0, FLAG_FINAL] \<and> length (frame (replicate 1000 7)) = 1"
  using frame_chunk_shape [of "replicate 1901 7"] frame_chunk_shape [of "replicate 1000 7"]
  by (simp add: MAX_CHUNK_def numeral_2_eq_2 flip: numeral_eq_Suc)

text \<open>
  Fact: when the last chunk of a datagram is lost, the reassembler does
  not notice: what arrived of it is put in front of the next datagram, and the result is
  handed on as one datagram.
\<close>

theorem lost_final_chunk_merges:
  assumes "MAX_CHUNK < length d" and "length d + length e \<le> 65535"
  shows "\<exists>part. part \<noteq> [] \<and> strict_prefix part d
     \<and> push_all reassembler_default (butlast (frame d) @ frame e) = (reassembler_default, [part @ e])"
proof -
  obtain cs c where cs: "chunks_of MAX_CHUNK d = cs @ [c]"
    by (metis append_butlast_last_id chunks_of_nonempty)
  have "cs \<noteq> []"
  proof
    assume "cs = []"
    then have "c \<in> set (chunks_of MAX_CHUNK d)" "d = c"
      using cs concat_chunks_of [of MAX_CHUNK d] by simp_all
    then have "length d \<le> MAX_CHUNK"
      using length_chunks_of [of MAX_CHUNK c d] by (simp add: MAX_CHUNK_def)
    then show False using assms(1) by simp
  qed
  have d: "d = concat cs @ c" using concat_chunks_of [of MAX_CHUNK d] cs by simp
  have ne: "\<forall>x\<in>set (chunks_of MAX_CHUNK d). x \<noteq> []"
  proof
    fix x assume x: "x \<in> set (chunks_of MAX_CHUNK d)"
    show "x \<noteq> []" by (rule chunks_of_pieces [OF _ _ x]) (use assms(1) in \<open>auto simp: MAX_CHUNK_def\<close>)
  qed
  have but: "butlast (mark_final (xs @ [x])) = map (Cons 0) xs" for xs and x :: bytes
    by (induction xs) (simp_all add: mark_final_Cons mark_final_Nil_iff)
  have open_chunks: "push_all r (map (Cons 0) xs) = (r\<lparr>buf := buf r @ concat xs\<rparr>, [])" for r xs
    by (induction xs arbitrary: r) (auto simp: push_more)
  have "push_all reassembler_default (butlast (frame d) @ frame e)
      = (reassembler_default, [concat cs @ e])"
  proof -
    have "length (concat cs @ e) \<le> 65535" using assms(2) arg_cong [OF d, of length] by simp
    then show ?thesis
      by (simp add: frame_chunks cs but push_all_append open_chunks push_all_mark_final
          reassembler_default_def)
  qed
  moreover have "concat cs \<noteq> []" "c \<noteq> []" using ne cs \<open>cs \<noteq> []\<close> by (auto simp: neq_Nil_conv)
  ultimately show ?thesis using d by (intro exI [of _ "concat cs"]) (auto simp: strict_prefix_def)
qed

theorem lost_final_chunk_merges_witness:
  "\<exists>part. part \<noteq> [] \<and> strict_prefix part (replicate 1901 1)
     \<and> push_all reassembler_default (butlast (frame (replicate 1901 1)) @ frame [2])
       = (reassembler_default, [part @ [2]])"
  using lost_final_chunk_merges [of "replicate 1901 1" "[2]"] by (simp add: MAX_CHUNK_def)

text \<open>
  Fact: the 65535-byte guard only looks at final chunks.  A stream
  of chunks without the final flag is buffered whole, however long it is; the first final
  chunk after more than 65535 bytes discards everything and starts over.
\<close>

theorem reassembler_guard_needs_final:
  assumes "\<forall>c\<in>set cs. c \<noteq> [] \<and> hd c = 0"
  shows "push_all r cs = (r\<lparr>buf := buf r @ concat (map tl cs)\<rparr>, [])
     \<and> (65535 < length (buf r @ concat (map tl cs)) \<longrightarrow>
          push_all r (cs @ [FLAG_FINAL # body]) = (r\<lparr>buf := []\<rparr>, []))"
proof -
  have open_chunks: "push_all q cs = (q\<lparr>buf := buf q @ concat (map tl cs)\<rparr>, [])" for q
    using assms
  proof (induction cs arbitrary: q)
    case (Cons c cs)
    then obtain b where "c = 0 # b" by (cases c) auto
    then show ?case using Cons by (simp add: push_more)
  qed simp
  then show ?thesis by (simp add: push_all_append push_final)
qed

theorem reassembler_guard_needs_final_witness:
  "length (buf (fst (push_all reassembler_default (replicate 70000 [0, 7])))) = 70000"
  using reassembler_guard_needs_final [of "replicate 70000 [0, 7]" reassembler_default]
  by (simp add: reassembler_default_def map_replicate length_concat sum_list_replicate)

end
