(* ===== verification/Utf8.thy ===== *)
theory Utf8
  imports Bridge_Prelude "HOL-Library.Char_ord"
begin

text \<open>
  The part of the Rust standard library's UTF-8 handling the sources use.  A Rust
  \<open>String\<close> is its UTF-8 byte sequence, kept here as a \<open>string\<close> whose characters are
  the bytes; \<open>bytes_of\<close> and \<open>str_of\<close> move between the two views.  \<open>utf8_step\<close> is the
  decoder's step (the byte ranges of the standard's Table 3-7, as \<open>core::str\<close> checks
  them), \<open>utf8_valid\<close> is \<open>str::from_utf8(..).is_ok()\<close> and \<open>utf8_lossy\<close> is
  \<open>String::from_utf8_lossy\<close>.
\<close>

subsection \<open>Bytes and strings\<close>

definition str_of :: "bytes \<Rightarrow> string" where
  "str_of bs = map (\<lambda>b. char_of (unat b)) bs"

definition bytes_of :: "string \<Rightarrow> bytes" where
  "bytes_of s = map (\<lambda>c. word_of_nat (of_char c)) s"

lemma of_char_bound: "(of_char c :: nat) < 256"
  by (cases c) (simp add: of_char_def)

lemma unat_bound: "unat (b :: u8) < 256"
  using unsigned_less [of b] by simp

lemma char_of_unat_of_char [simp]: "char_of (unat (word_of_nat (of_char c) :: u8)) = c"
proof -
  have "unat (word_of_nat (of_char c) :: u8) = of_char c"
    using of_char_bound [of c] by (simp add: unat_of_nat take_bit_nat_eq_self)
  then show ?thesis by simp
qed

lemma of_char_char_of_unat [simp]: "word_of_nat (of_char (char_of (unat b))) = (b :: u8)"
proof -
  have "(of_char (char_of (unat b)) :: nat) = unat b"
    using unat_bound [of b] by (simp add: of_char_of)
  then show ?thesis by simp
qed

lemma str_of_bytes_of [simp]: "str_of (bytes_of s) = s"
  by (induction s) (simp_all add: str_of_def bytes_of_def del: of_char_of)

lemma bytes_of_str_of [simp]: "bytes_of (str_of bs) = bs"
  by (induction bs) (simp_all only: str_of_def bytes_of_def list.map of_char_char_of_unat)

lemma length_str_of [simp]: "length (str_of bs) = length bs"
  by (simp add: str_of_def)

lemma length_bytes_of [simp]: "length (bytes_of s) = length s"
  by (simp add: bytes_of_def)

lemma str_of_append [simp]: "str_of (as @ bs) = str_of as @ str_of bs"
  by (simp add: str_of_def)

lemma bytes_of_append [simp]: "bytes_of (s @ t) = bytes_of s @ bytes_of t"
  by (simp add: bytes_of_def)

lemma bytes_of_take [simp]: "bytes_of (take n s) = take n (bytes_of s)"
  by (simp add: bytes_of_def take_map)

lemma bytes_of_Nil_iff [simp]: "bytes_of s = [] \<longleftrightarrow> s = []"
  by (simp add: bytes_of_def)

lemma str_of_Nil_iff [simp]: "str_of bs = [] \<longleftrightarrow> bs = []"
  by (simp add: str_of_def)

lemma bytes_of_Nil [simp]: "bytes_of [] = []"
  by (simp add: bytes_of_def)

subsection \<open>The decoder step\<close>

definition is_cont :: "u8 \<Rightarrow> bool" where
  "is_cont b \<longleftrightarrow> 0x80 \<le> b \<and> b \<le> 0xBF"

text \<open>Reading past the end yields 0, which is no continuation byte (\<open>safe_get\<close>).\<close>

definition byte_at :: "bytes \<Rightarrow> nat \<Rightarrow> u8" where
  "byte_at bs i = (if i < length bs then bs ! i else 0)"

definition second_ok :: "u8 \<Rightarrow> u8 \<Rightarrow> bool" where
  "second_ok b0 b1 =
     (if b0 = 0xE0 then 0xA0 \<le> b1 \<and> b1 \<le> 0xBF
      else if b0 = 0xED then 0x80 \<le> b1 \<and> b1 \<le> 0x9F
      else if b0 = 0xF0 then 0x90 \<le> b1 \<and> b1 \<le> 0xBF
      else if b0 = 0xF4 then 0x80 \<le> b1 \<and> b1 \<le> 0x8F
      else is_cont b1)"

definition utf8_width :: "u8 \<Rightarrow> nat" where
  "utf8_width b =
     (if b < 0x80 then 1
      else if 0xC2 \<le> b \<and> b \<le> 0xDF then 2
      else if 0xE0 \<le> b \<and> b \<le> 0xEF then 3
      else if 0xF0 \<le> b \<and> b \<le> 0xF4 then 4
      else 0)"

text \<open>
  One character at the front of a non-empty input: how many bytes are consumed, and
  whether they are a well-formed character (else they are a maximal ill-formed prefix).
\<close>

definition utf8_step :: "bytes \<Rightarrow> nat \<times> bool" where
  "utf8_step bs =
     (let b0 = byte_at bs 0; b1 = byte_at bs 1; b2 = byte_at bs 2; b3 = byte_at bs 3;
          w = utf8_width b0
      in if w = 1 then (1, True)
         else if w = 0 then (1, False)
         else if \<not> second_ok b0 b1 then (1, False)
         else if w = 2 then (2, True)
         else if \<not> is_cont b2 then (2, False)
         else if w = 3 then (3, True)
         else if \<not> is_cont b3 then (3, False)
         else (4, True))"

lemma utf8_step_pos: "0 < fst (utf8_step bs)"
  by (simp add: utf8_step_def Let_def)

lemma drop_shorter: "xs \<noteq> [] \<Longrightarrow> 0 < n \<Longrightarrow> length xs - n < length xs"
  by (cases xs) simp_all

function utf8_valid :: "bytes \<Rightarrow> bool" where
  "utf8_valid bs =
     (if bs = [] then True
      else snd (utf8_step bs) \<and> utf8_valid (drop (fst (utf8_step bs)) bs))"
  by pat_completeness auto
termination
  by (relation "measure length") (simp_all add: utf8_step_pos drop_shorter)

declare utf8_valid.simps [simp del]

definition replacement :: bytes where
  "replacement = [0xEF, 0xBF, 0xBD]"

function utf8_lossy :: "bytes \<Rightarrow> bytes" where
  "utf8_lossy bs =
     (if bs = [] then []
      else (if snd (utf8_step bs) then take (fst (utf8_step bs)) bs else replacement)
           @ utf8_lossy (drop (fst (utf8_step bs)) bs))"
  by pat_completeness auto
termination
  by (relation "measure length") (simp_all add: utf8_step_pos drop_shorter)

declare utf8_lossy.simps [simp del]

text \<open>\<open>str::from_utf8\<close> and \<open>String::from_utf8_lossy\<close>.\<close>

definition from_utf8 :: "bytes \<Rightarrow> string option" where
  "from_utf8 bs = (if utf8_valid bs then Some (str_of bs) else None)"

definition from_utf8_lossy :: "bytes \<Rightarrow> string" where
  "from_utf8_lossy bs = str_of (utf8_lossy bs)"

subsection \<open>Well-formed characters\<close>

definition is_char :: "bytes \<Rightarrow> bool" where
  "is_char w \<longleftrightarrow> w \<noteq> [] \<and> utf8_step w = (length w, True)"

lemma byte_at_take: "i < n \<Longrightarrow> i < length bs \<Longrightarrow> byte_at (take n bs @ xs) i = byte_at bs i"
  by (auto simp: byte_at_def nth_append)

lemma byte_at_nonzero: "byte_at bs i \<noteq> 0 \<Longrightarrow> i < length bs"
  by (auto simp: byte_at_def split: if_splits)

lemma is_cont_nonzero: "is_cont b \<Longrightarrow> b \<noteq> 0"
  by (auto simp: is_cont_def)

lemma second_ok_cont: "second_ok b0 b1 \<Longrightarrow> is_cont b1"
  by (auto simp: second_ok_def is_cont_def word_le_nat_alt split: if_splits)

lemma utf8_width_cases: "utf8_width b \<in> {0, 1, 2, 3, 4}"
  by (simp add: utf8_width_def)

lemma utf8_width_cont: "is_cont b \<Longrightarrow> utf8_width b = 0"
  by (auto simp: is_cont_def utf8_width_def word_le_nat_alt word_less_nat_alt)

text \<open>What a successful step knows about the bytes it consumed.\<close>

lemma utf8_step_True:
  assumes "utf8_step bs = (n, True)" and "bs \<noteq> []"
  shows "n = utf8_width (byte_at bs 0) \<and> 0 < n \<and> n \<le> 4
       \<and> (1 < n \<longrightarrow> second_ok (byte_at bs 0) (byte_at bs 1))
       \<and> (2 < n \<longrightarrow> is_cont (byte_at bs 2)) \<and> (3 < n \<longrightarrow> is_cont (byte_at bs 3))"
  using assms utf8_width_cases [of "byte_at bs 0"]
  by (auto simp: utf8_step_def Let_def split: if_splits)

lemma utf8_step_TrueI:
  assumes "n = utf8_width (byte_at bs 0)" and "0 < n"
    and "1 < n \<Longrightarrow> second_ok (byte_at bs 0) (byte_at bs 1)"
    and "2 < n \<Longrightarrow> is_cont (byte_at bs 2)" and "3 < n \<Longrightarrow> is_cont (byte_at bs 3)"
  shows "utf8_step bs = (n, True)"
  using assms utf8_width_cases [of "byte_at bs 0"]
  by (auto simp: utf8_step_def Let_def)

lemma utf8_step_length:
  assumes "utf8_step bs = (n, True)" and "bs \<noteq> []"
  shows "n \<le> length bs"
proof -
  note st = utf8_step_True [OF assms]
  have "0 < length bs" using assms(2) by simp
  moreover have "1 < n \<Longrightarrow> 1 < length bs"
    using st second_ok_cont is_cont_nonzero byte_at_nonzero by blast
  moreover have "2 < n \<Longrightarrow> 2 < length bs" and "3 < n \<Longrightarrow> 3 < length bs"
    using st is_cont_nonzero byte_at_nonzero by blast+
  ultimately show ?thesis using st by linarith
qed

lemma utf8_step_take:
  assumes "utf8_step bs = (n, True)" and "bs \<noteq> []"
  shows "utf8_step (take n bs @ xs) = (n, True)"
proof -
  note st = utf8_step_True [OF assms] and len = utf8_step_length [OF assms]
  have at: "byte_at (take n bs @ xs) i = byte_at bs i" if "i < n" for i
    using that len by (simp add: byte_at_take)
  show ?thesis
  proof (rule utf8_step_TrueI)
    show "n = utf8_width (byte_at (take n bs @ xs) 0)" and "0 < n" using st at by auto
    show "second_ok (byte_at (take n bs @ xs) 0) (byte_at (take n bs @ xs) 1)" if "1 < n"
    proof -
      have "byte_at (take n bs @ xs) 0 = byte_at bs 0"
        and "byte_at (take n bs @ xs) 1 = byte_at bs 1" using that by (intro at; simp)+
      then show ?thesis using st that by simp
    qed
    show "is_cont (byte_at (take n bs @ xs) 2)" if "2 < n" using st at [OF that] that by auto
    show "is_cont (byte_at (take n bs @ xs) 3)" if "3 < n" using st at [OF that] that by auto
  qed
qed

lemma is_char_take:
  "utf8_step bs = (n, True) \<Longrightarrow> bs \<noteq> [] \<Longrightarrow> is_char (take n bs)"
  using utf8_step_take [of bs n "[]"] utf8_step_length [of bs n] utf8_step_True [of bs n]
  by (auto simp: is_char_def)

lemma is_char_step: "is_char w \<Longrightarrow> utf8_step (w @ xs) = (length w, True)"
  using utf8_step_take [of w "length w" xs] by (simp add: is_char_def)

lemma is_char_nonempty: "is_char w \<Longrightarrow> w \<noteq> []"
  by (simp add: is_char_def)

lemma is_char_head: "is_char (b # r) \<Longrightarrow> \<not> is_cont b"
  using utf8_step_True [of "b # r" "length (b # r)"] utf8_width_cont [of b]
  by (auto simp: is_char_def byte_at_def)

lemma is_char_tail:
  assumes "is_char (b # r)" and "x \<in> set r"
  shows "is_cont x"
proof -
  obtain i where i: "i < length r" "x = r ! i"
    using assms(2) by (auto simp: in_set_conv_nth)
  have st: "utf8_step (b # r) = (length (b # r), True)" using assms(1) by (simp add: is_char_def)
  note facts = utf8_step_True [OF st list.distinct(2)]
  have x: "x = byte_at (b # r) (Suc i)" using i by (simp add: byte_at_def)
  have "i = 0 \<or> i = 1 \<or> i = 2" using facts i(1) by auto
  then show ?thesis
    using facts i(1) second_ok_cont by (auto simp: x numeral_2_eq_2 numeral_3_eq_3)
qed

subsection \<open>Validity as a sequence of characters\<close>

lemma utf8_valid_Nil [simp]: "utf8_valid []"
  by (simp add: utf8_valid.simps)

lemma utf8_valid_char: "is_char w \<Longrightarrow> utf8_valid (w @ xs) = utf8_valid xs"
  by (subst utf8_valid.simps) (simp add: is_char_step is_char_nonempty)

lemma utf8_valid_concat:
  "\<forall>c\<in>set cs. is_char c \<Longrightarrow> utf8_valid (concat cs @ xs) = utf8_valid xs"
  by (induction cs) (simp_all add: utf8_valid_char)

lemma utf8_valid_chars: "utf8_valid bs \<Longrightarrow> \<exists>cs. bs = concat cs \<and> (\<forall>c\<in>set cs. is_char c)"
proof (induction bs rule: utf8_valid.induct)
  case (1 bs)
  show ?case
  proof (cases "bs = []")
    case True
    then have "bs = concat [] \<and> (\<forall>c\<in>set []. is_char c)" by simp
    then show ?thesis by blast
  next
    case False
    obtain n where n: "utf8_step bs = (n, True)"
      using "1.prems" False by (cases "utf8_step bs") (auto simp: utf8_valid.simps [of bs])
    then have "utf8_valid (drop n bs)"
      using "1.prems" False by (simp add: utf8_valid.simps [of bs])
    then obtain cs where cs: "drop n bs = concat cs" "\<forall>c\<in>set cs. is_char c"
      using "1.IH" [OF False] n by auto
    have "bs = concat (take n bs # cs)" using cs(1) by (metis append_take_drop_id concat.simps(2))
    moreover have "\<forall>c\<in>set (take n bs # cs). is_char c"
      using cs(2) is_char_take [OF n False] by simp
    ultimately show ?thesis by blast
  qed
qed

lemma utf8_valid_iff: "utf8_valid bs \<longleftrightarrow> (\<exists>cs. bs = concat cs \<and> (\<forall>c\<in>set cs. is_char c))"
  using utf8_valid_chars utf8_valid_concat [of _ "[]"] by auto

lemma utf8_valid_append: "utf8_valid xs \<Longrightarrow> utf8_valid (xs @ ys) = utf8_valid ys"
  using utf8_valid_chars [of xs] utf8_valid_concat [of _ ys] by auto

lemma longer_suffix:
  assumes "xs @ w = ys @ c" and "length w < length c"
  shows "\<exists>us. c = us @ w \<and> us \<noteq> []"
proof -
  have "length ys < length xs" using assms by (metis length_append nat_add_left_cancel_less
        add.commute linorder_neqE_nat add_less_mono less_irrefl)
  then have "xs = take (length ys) xs @ drop (length ys) xs" and "drop (length ys) xs \<noteq> []"
    by simp_all
  moreover from this assms(1) have "c = drop (length ys) xs @ w"
    by (simp add: append_eq_append_conv_if)
  ultimately show ?thesis by blast
qed

text \<open>Characters are self-synchronising: a character that is a suffix is the last one.\<close>

lemma is_char_suffix_unique:
  assumes "is_char w" "is_char c" "xs @ w = ys @ c"
  shows "w = c"
proof -
  obtain b r where w: "w = b # r" using is_char_nonempty [OF assms(1)] by (cases w) auto
  obtain b' r' where c: "c = b' # r'" using is_char_nonempty [OF assms(2)] by (cases c) auto
  consider (eq) "length w = length c" | (lt) "length w < length c" | (gt) "length c < length w"
    by linarith
  then show ?thesis
  proof cases
    case eq
    then show ?thesis using assms(3) by simp
  next
    case lt
    then obtain us where "c = us @ w" "us \<noteq> []"
      using longer_suffix [OF assms(3)] by blast
    then have "b \<in> set r'" using w c by (cases us) auto
    then show ?thesis using is_char_tail [of b' r'] is_char_head [of b r] assms w c by auto
  next
    case gt
    then obtain us where "w = us @ c" "us \<noteq> []"
      using longer_suffix [OF assms(3) [symmetric]] by blast
    then have "b' \<in> set r" using w c by (cases us) auto
    then show ?thesis using is_char_tail [of b r] is_char_head [of b' r'] assms w c by auto
  qed
qed

lemma utf8_valid_butlast_char:
  assumes "utf8_valid (xs @ w)" and "is_char w"
  shows "utf8_valid xs"
proof -
  obtain cs where cs: "xs @ w = concat cs" "\<forall>c\<in>set cs. is_char c"
    using utf8_valid_chars [OF assms(1)] by blast
  have "cs \<noteq> []" using cs(1) is_char_nonempty [OF assms(2)] by auto
  then obtain ds c where ds: "cs = ds @ [c]" by (metis append_butlast_last_id)
  have "w = c"
    using cs ds assms(2) is_char_suffix_unique [of w c xs "concat ds"] by simp
  then have "xs = concat ds" using cs(1) ds by simp
  then show ?thesis using cs(2) ds utf8_valid_concat [of ds "[]"] by simp
qed

subsection \<open>Lossy decoding\<close>

lemma is_char_replacement: "is_char replacement"
  by (simp add: is_char_def replacement_def utf8_step_def Let_def byte_at_def utf8_width_def
      second_ok_def is_cont_def)

lemma utf8_lossy_Nil [simp]: "utf8_lossy [] = []"
  by (simp add: utf8_lossy.simps)

lemma utf8_lossy_valid: "utf8_valid (utf8_lossy bs)"
proof (induction bs rule: utf8_lossy.induct)
  case (1 bs)
  show ?case
  proof (cases "bs = []")
    case False
    let ?n = "fst (utf8_step bs)"
    have "is_char (if snd (utf8_step bs) then take ?n bs else replacement)"
      using is_char_take [of bs ?n] False is_char_replacement by (cases "utf8_step bs") auto
    then show ?thesis
      using "1.IH" [OF False] False by (subst utf8_lossy.simps) (simp add: utf8_valid_char)
  qed simp
qed

lemma utf8_lossy_id: "utf8_valid bs \<Longrightarrow> utf8_lossy bs = bs"
proof (induction bs rule: utf8_lossy.induct)
  case (1 bs)
  show ?case
  proof (cases "bs = []")
    case False
    then have "snd (utf8_step bs)" "utf8_valid (drop (fst (utf8_step bs)) bs)"
      using "1.prems" by (simp_all add: utf8_valid.simps [of bs])
    then show ?thesis using "1.IH" [OF False] False by (subst utf8_lossy.simps) simp
  qed simp
qed

lemma char_start_invalid:
  assumes "is_char (w @ xs)" and "w \<noteq> []" and "xs \<noteq> []"
  shows "\<not> utf8_valid w"
proof
  assume "utf8_valid w"
  then obtain cs where cs: "w = concat cs" "\<forall>c\<in>set cs. is_char c" using utf8_valid_chars by blast
  then obtain c ds where c: "cs = c # ds" using assms(2) by (cases cs) auto
  then have "utf8_step (w @ xs) = (length c, True)"
    using cs is_char_step [of c "concat ds @ xs"] by simp
  moreover have "utf8_step (w @ xs) = (length (w @ xs), True)"
    using is_char_step [OF assms(1), of "[]"] by simp
  ultimately show False using cs(1) c assms(3) by simp
qed

lemma ascii_is_char: "b < 0x80 \<Longrightarrow> is_char [b]"
  by (simp add: is_char_def utf8_step_def Let_def byte_at_def utf8_width_def)

lemma utf8_valid_ascii: "\<forall>b\<in>set bs. b < 0x80 \<Longrightarrow> utf8_valid bs"
proof -
  assume "\<forall>b\<in>set bs. b < 0x80"
  then have "\<forall>c\<in>set (map (\<lambda>b. [b]) bs). is_char c" by (auto intro: ascii_is_char)
  moreover have "concat (map (\<lambda>b. [b]) bs) = bs" by (induction bs) simp_all
  ultimately show ?thesis using utf8_valid_iff by metis
qed

end
