(* ===== verification/Rust_Str.thy ===== *)
theory Rust_Str
  imports Utf8
begin

text \<open>
  The \<open>str\<close> operations of the Rust standard library that the sources call, on the UTF-8
  byte view of \<open>Utf8\<close>: searching, trimming (Unicode \<open>White_Space\<close>), splitting into
  lines, ASCII case folding, parsing of unsigned integers and the \<open>Display\<close> and
  \<open>LowerHex\<close> renderings of them.  Offsets and lengths count bytes, as in Rust.
\<close>

subsection \<open>Searching\<close>

definition starts_with :: "string \<Rightarrow> string \<Rightarrow> bool" where
  "starts_with s p \<longleftrightarrow> take (length p) s = p"

text \<open>\<open>str::find(&str)\<close>: the byte offset of the first occurrence.\<close>

fun str_find :: "string \<Rightarrow> string \<Rightarrow> nat option" where
  "str_find [] p = (if p = [] then Some 0 else None)"
| "str_find (c # s) p =
     (if starts_with (c # s) p then Some 0 else map_option Suc (str_find s p))"

definition str_contains :: "string \<Rightarrow> string \<Rightarrow> bool" where
  "str_contains s p \<longleftrightarrow> str_find s p \<noteq> None"

definition find_char :: "char \<Rightarrow> string \<Rightarrow> nat option" where
  "find_char c s = position (\<lambda>x. x = c) s"

text \<open>\<open>str::rfind(char)\<close>.\<close>

fun rfind_char :: "char \<Rightarrow> string \<Rightarrow> nat option" where
  "rfind_char c [] = None"
| "rfind_char c (x # s) =
     (case rfind_char c s of
        Some i \<Rightarrow> Some (Suc i)
      | None \<Rightarrow> if x = c then Some 0 else None)"

lemma starts_with_append [simp]: "starts_with (p @ s) p"
  by (simp add: starts_with_def)

lemma starts_with_iff: "starts_with s p \<longleftrightarrow> (\<exists>t. s = p @ t)"
  by (auto simp: starts_with_def) (metis append_take_drop_id)

lemma str_find_Some: "str_find s p = Some i \<Longrightarrow> i \<le> length s \<and> (\<exists>t. s = take i s @ p @ t)"
proof (induction s arbitrary: i)
  case Nil
  then show ?case by (simp split: if_splits)
next
  case (Cons c s)
  then show ?case by (auto simp: starts_with_iff split: if_splits)
qed

lemma str_find_append: "str_find (xs @ p @ ys) p \<noteq> None"
proof (induction xs)
  case Nil
  have "starts_with (p @ ys) p" by simp
  then show ?case by (cases "p @ ys") auto
next
  case (Cons x xs)
  then show ?case by auto
qed

lemma str_contains_iff: "str_contains s p \<longleftrightarrow> (\<exists>xs ys. s = xs @ p @ ys)"
  using str_find_Some str_find_append by (force simp: str_contains_def)

lemma rfind_char_None: "rfind_char c s = None \<longleftrightarrow> c \<notin> set s"
  by (induction s) (auto split: option.splits)

lemma rfind_char_Some:
  "rfind_char c s = Some i \<longleftrightarrow> i < length s \<and> s ! i = c \<and> c \<notin> set (drop (Suc i) s)"
proof (induction s arbitrary: i)
  case Nil
  then show ?case by simp
next
  case (Cons x s)
  show ?case
  proof (cases i)
    case 0
    then show ?thesis
      using rfind_char_None [of c s] by (cases "rfind_char c s") auto
  next
    case (Suc j)
    then show ?thesis using Cons.IH [of j] by (auto split: option.splits)
  qed
qed

lemma rfind_char_append:
  "c \<notin> set ys \<Longrightarrow> rfind_char c (xs @ c # ys) = Some (length xs)"
  by (simp add: rfind_char_Some nth_append)

lemma after_last_char:
  "c \<notin> set ys \<Longrightarrow> rfind_char c (xs @ c # ys) = Some i \<Longrightarrow>
   take i (xs @ c # ys) = xs \<and> drop (Suc i) (xs @ c # ys) = ys"
  using rfind_char_append [of c ys xs] by simp

text \<open>Cutting at the last occurrence is the only way to split off a rest without the character.\<close>

lemma rfind_char_split:
  assumes "rfind_char c s = Some i"
  shows "(\<exists>xs ys. s = xs @ [c] @ ys \<and> c \<notin> set ys \<and> Q xs ys) \<longleftrightarrow> Q (take i s) (drop (Suc i) s)"
proof
  assume "\<exists>xs ys. s = xs @ [c] @ ys \<and> c \<notin> set ys \<and> Q xs ys"
  then obtain xs ys where s: "s = xs @ c # ys" "c \<notin> set ys" "Q xs ys" by auto
  then have "i = length xs" using assms rfind_char_append [OF s(2), of xs] by simp
  then show "Q (take i s) (drop (Suc i) s)" using s by simp
next
  assume q: "Q (take i s) (drop (Suc i) s)"
  have i: "i < length s" "s ! i = c" "c \<notin> set (drop (Suc i) s)"
    using assms by (simp_all add: rfind_char_Some)
  then have "s = take i s @ [c] @ drop (Suc i) s" using id_take_nth_drop [OF i(1)] by simp
  then show "\<exists>xs ys. s = xs @ [c] @ ys \<and> c \<notin> set ys \<and> Q xs ys" using q i(3) by blast
qed

subsection \<open>Trimming\<close>

text \<open>
  The UTF-8 encodings of the code points with the \<open>White_Space\<close> property
  (\<open>char::is_whitespace\<close>): U+0009 to U+000D, U+0020, U+0085, U+00A0, U+1680,
  U+2000 to U+200A, U+2028, U+2029, U+202F, U+205F and U+3000.
\<close>

definition ws_strings :: "string list" where
  "ws_strings =
     [[CHR 0x09], [CHR 0x0A], [CHR 0x0B],
      [CHR 0x0C], [CHR 0x0D], [CHR 0x20],
      [CHR 0xC2, CHR 0x85], [CHR 0xC2, CHR 0xA0], [CHR 0xE1, CHR 0x9A, CHR 0x80],
      [CHR 0xE2, CHR 0x80, CHR 0x80], [CHR 0xE2, CHR 0x80, CHR 0x81], [CHR 0xE2, CHR 0x80, CHR 0x82],
      [CHR 0xE2, CHR 0x80, CHR 0x83], [CHR 0xE2, CHR 0x80, CHR 0x84], [CHR 0xE2, CHR 0x80, CHR 0x85],
      [CHR 0xE2, CHR 0x80, CHR 0x86], [CHR 0xE2, CHR 0x80, CHR 0x87], [CHR 0xE2, CHR 0x80, CHR 0x88],
      [CHR 0xE2, CHR 0x80, CHR 0x89], [CHR 0xE2, CHR 0x80, CHR 0x8A], [CHR 0xE2, CHR 0x80, CHR 0xA8],
      [CHR 0xE2, CHR 0x80, CHR 0xA9], [CHR 0xE2, CHR 0x80, CHR 0xAF], [CHR 0xE2, CHR 0x81, CHR 0x9F],
      [CHR 0xE3, CHR 0x80, CHR 0x80]]"

text \<open>The white space character a string starts or ends with.\<close>

definition ws_front :: "string \<Rightarrow> string option" where
  "ws_front s = find (\<lambda>w. take (length w) s = w) ws_strings"

definition ws_back :: "string \<Rightarrow> string option" where
  "ws_back s = find (\<lambda>w. length w \<le> length s \<and> drop (length s - length w) s = w) ws_strings"

lemma ws_strings_nonempty: "w \<in> set ws_strings \<Longrightarrow> 0 < length w"
  by (auto simp: ws_strings_def)

lemma find_in_set: "find P xs = Some x \<Longrightarrow> x \<in> set xs \<and> P x"
  by (auto simp: find_Some_iff)

lemma ws_front_Some: "ws_front s = Some w \<Longrightarrow> w \<in> set ws_strings \<and> (\<exists>t. s = w @ t)"
proof -
  assume "ws_front s = Some w"
  then have w: "w \<in> set ws_strings" "take (length w) s = w"
    using find_in_set by (fastforce simp: ws_front_def)+
  then show ?thesis by (metis append_take_drop_id)
qed

lemma ws_back_Some: "ws_back s = Some w \<Longrightarrow> w \<in> set ws_strings \<and> (\<exists>t. s = t @ w)"
proof -
  assume "ws_back s = Some w"
  then have w: "w \<in> set ws_strings" "drop (length s - length w) s = w"
    using find_in_set by (fastforce simp: ws_back_def)+
  then show ?thesis by (metis append_take_drop_id)
qed

function trim_start :: "string \<Rightarrow> string" where
  "trim_start s = (case ws_front s of None \<Rightarrow> s | Some w \<Rightarrow> trim_start (drop (length w) s))"
  by pat_completeness auto
termination
  by (relation "measure length") (auto dest!: ws_front_Some dest: ws_strings_nonempty)

function trim_end :: "string \<Rightarrow> string" where
  "trim_end s = (case ws_back s of None \<Rightarrow> s
                 | Some w \<Rightarrow> trim_end (take (length s - length w) s))"
  by pat_completeness auto
termination
  by (relation "measure length") (auto dest!: ws_back_Some dest: ws_strings_nonempty)

declare trim_start.simps [simp del] trim_end.simps [simp del]

definition trim :: "string \<Rightarrow> string" where
  "trim s = trim_end (trim_start s)"

lemma ws_front_None: "ws_front s = None \<longleftrightarrow> (\<forall>w\<in>set ws_strings. \<forall>t. s \<noteq> w @ t)"
proof
  assume none: "ws_front s = None"
  show "\<forall>w\<in>set ws_strings. \<forall>t. s \<noteq> w @ t"
    using none by (auto simp: ws_front_def find_None_iff)
next
  assume "\<forall>w\<in>set ws_strings. \<forall>t. s \<noteq> w @ t"
  then show "ws_front s = None" using ws_front_Some [of s] by (cases "ws_front s") auto
qed

lemma ws_back_None: "ws_back s = None \<longleftrightarrow> (\<forall>w\<in>set ws_strings. \<forall>t. s \<noteq> t @ w)"
proof
  assume none: "ws_back s = None"
  show "\<forall>w\<in>set ws_strings. \<forall>t. s \<noteq> t @ w"
  proof (intro ballI allI notI)
    fix w t
    assume "w \<in> set ws_strings" and s: "s = t @ w"
    then have "\<not> (length w \<le> length s \<and> drop (length s - length w) s = w)"
      using none unfolding ws_back_def find_None_iff by blast
    then show False using s by simp
  qed
next
  assume "\<forall>w\<in>set ws_strings. \<forall>t. s \<noteq> t @ w"
  then show "ws_back s = None" using ws_back_Some [of s] by (cases "ws_back s") auto
qed

lemma trim_start_None [simp]: "ws_front s = None \<Longrightarrow> trim_start s = s"
  by (simp add: trim_start.simps)

lemma trim_end_None [simp]: "ws_back s = None \<Longrightarrow> trim_end s = s"
  by (simp add: trim_end.simps)

lemma trim_start_step: "ws_front (w @ t) = Some w \<Longrightarrow> trim_start (w @ t) = trim_start t"
  by (subst trim_start.simps) simp

lemma trim_end_step: "ws_back (t @ w) = Some w \<Longrightarrow> trim_end (t @ w) = trim_end t"
  by (subst trim_end.simps) simp

lemma trim_start_clean: "ws_front (trim_start s) = None"
proof (induction s rule: trim_start.induct)
  case (1 s)
  then show ?case by (cases "ws_front s") (simp_all add: trim_start.simps [of s])
qed

lemma trim_end_clean: "ws_back (trim_end s) = None"
proof (induction s rule: trim_end.induct)
  case (1 s)
  then show ?case by (cases "ws_back s") (simp_all add: trim_end.simps [of s])
qed

lemma trim_end_prefix: "\<exists>t. s = trim_end s @ t"
proof (induction s rule: trim_end.induct)
  case (1 s)
  show ?case
  proof (cases "ws_back s")
    case (Some w)
    then obtain t where s: "s = t @ w" using ws_back_Some by blast
    then have "trim_end s = trim_end t" using Some by (simp add: trim_end_step)
    moreover obtain u where "t = trim_end t @ u" using "1.IH" [OF Some] s by auto
    ultimately have "s = trim_end s @ (u @ w)" using s by (metis append_assoc)
    then show ?thesis by blast
  qed simp
qed

lemma trim_end_front: "ws_front s = None \<Longrightarrow> ws_front (trim_end s) = None"
  using trim_end_prefix [of s] by (force simp: ws_front_None)

lemma trim_clean: "ws_front (trim s) = None" "ws_back (trim s) = None"
  by (simp_all add: trim_def trim_end_clean trim_end_front trim_start_clean)

lemma trim_id: "ws_front s = None \<Longrightarrow> ws_back s = None \<Longrightarrow> trim s = s"
  by (simp add: trim_def)

lemma trim_trim [simp]: "trim (trim s) = trim s"
  by (simp add: trim_id trim_clean)

lemma length_trim_start: "length (trim_start s) \<le> length s"
proof (induction s rule: trim_start.induct)
  case (1 s)
  show ?case
  proof (cases "ws_front s")
    case (Some w)
    then obtain t where s: "s = w @ t" using ws_front_Some by blast
    then show ?thesis using "1.IH" [OF Some] Some by (simp add: trim_start_step)
  qed simp
qed

lemma length_trim: "length (trim s) \<le> length s"
proof -
  obtain t where "trim_start s = trim_end (trim_start s) @ t" using trim_end_prefix by blast
  then have "length (trim_end (trim_start s)) \<le> length (trim_start s)"
    by (metis le_add1 length_append)
  then show ?thesis using length_trim_start [of s] by (simp add: trim_def)
qed

lemma trim_Nil [simp]: "trim [] = []"
proof (rule trim_id)
  show "ws_front [] = None" and "ws_back [] = None"
    using ws_strings_nonempty by (auto simp: ws_front_None ws_back_None)
qed

text \<open>Trimming a well-formed string gives a well-formed string.\<close>

lemma ws_strings_all_char: "list_all (\<lambda>w. is_char (bytes_of w)) ws_strings"
  by code_simp

lemma ws_strings_char: "w \<in> set ws_strings \<Longrightarrow> is_char (bytes_of w)"
  using ws_strings_all_char by (simp add: list_all_iff)

lemma trim_start_valid: "utf8_valid (bytes_of s) \<Longrightarrow> utf8_valid (bytes_of (trim_start s))"
proof (induction s rule: trim_start.induct)
  case (1 s)
  show ?case
  proof (cases "ws_front s")
    case None
    then show ?thesis using "1.prems" by simp
  next
    case (Some w)
    then obtain t where s: "s = w @ t" "w \<in> set ws_strings" using ws_front_Some by blast
    then have "utf8_valid (bytes_of t)"
      using "1.prems" ws_strings_char by (simp add: utf8_valid_char)
    then show ?thesis using "1.IH" [OF Some] s Some by (simp add: trim_start_step)
  qed
qed

lemma trim_end_valid: "utf8_valid (bytes_of s) \<Longrightarrow> utf8_valid (bytes_of (trim_end s))"
proof (induction s rule: trim_end.induct)
  case (1 s)
  show ?case
  proof (cases "ws_back s")
    case None
    then show ?thesis using "1.prems" by simp
  next
    case (Some w)
    then obtain t where s: "s = t @ w" "w \<in> set ws_strings" using ws_back_Some by blast
    then have "utf8_valid (bytes_of t)"
      using "1.prems" ws_strings_char utf8_valid_butlast_char by simp
    then show ?thesis using "1.IH" [OF Some] s Some by (simp add: trim_end_step)
  qed
qed

lemma trim_valid: "utf8_valid (bytes_of s) \<Longrightarrow> utf8_valid (bytes_of (trim s))"
  by (simp add: trim_def trim_end_valid trim_start_valid)

subsection \<open>Lines\<close>

text \<open>
  \<open>str::lines\<close>: pieces ended by a newline (the last one may lack it); a carriage
  return right before the newline is dropped with it.
\<close>

fun split_inclusive_lf :: "string \<Rightarrow> string list" where
  "split_inclusive_lf [] = []"
| "split_inclusive_lf (c # s) =
     (if c = CHR 0x0A then [c] # split_inclusive_lf s
      else (case split_inclusive_lf s of [] \<Rightarrow> [[c]] | l # ls \<Rightarrow> (c # l) # ls))"

definition strip_eol :: "string \<Rightarrow> string" where
  "strip_eol l =
     (if l \<noteq> [] \<and> last l = CHR 0x0A then
        let l' = butlast l in if l' \<noteq> [] \<and> last l' = CHR 0x0D then butlast l' else l'
      else l)"

definition str_lines :: "string \<Rightarrow> string list" where
  "str_lines s = map strip_eol (split_inclusive_lf s)"

definition join_lf :: "string list \<Rightarrow> string" where
  "join_lf ls = (case ls of [] \<Rightarrow> [] | l # ls' \<Rightarrow> l @ concat (map (\<lambda>x. CHR 0x0A # x) ls'))"

text \<open>A line is clean when it has no line feed and no trailing carriage return.\<close>

definition clean_line :: "string \<Rightarrow> bool" where
  "clean_line l \<longleftrightarrow> CHR 0x0A \<notin> set l \<and> (l = [] \<or> last l \<noteq> CHR 0x0D)"

lemma split_inclusive_line:
  "CHR 0x0A \<notin> set l \<Longrightarrow>
   split_inclusive_lf (l @ CHR 0x0A # rest) = (l @ [CHR 0x0A]) # split_inclusive_lf rest"
  by (induction l) auto

lemma strip_eol_clean: "clean_line l \<Longrightarrow> strip_eol (l @ [CHR 0x0A]) = l"
  by (auto simp: strip_eol_def clean_line_def Let_def)

lemma str_lines_Cons:
  "clean_line l \<Longrightarrow> str_lines (l @ CHR 0x0A # rest) = l # str_lines rest"
  by (simp add: str_lines_def split_inclusive_line strip_eol_clean clean_line_def)

lemma str_lines_terminated:
  "\<forall>l\<in>set ls. clean_line l \<Longrightarrow> str_lines (concat (map (\<lambda>l. l @ [CHR 0x0A]) ls)) = ls"
  by (induction ls) (simp_all add: str_lines_Cons, simp add: str_lines_def)

lemma join_lf_terminated:
  "ls \<noteq> [] \<Longrightarrow> join_lf ls @ [CHR 0x0A] = concat (map (\<lambda>l. l @ [CHR 0x0A]) ls)"
proof (induction ls)
  case (Cons l ls)
  then show ?case by (cases ls) (auto simp: join_lf_def)
qed simp

lemma split_inclusive_no_inner_lf:
  "l \<in> set (split_inclusive_lf s) \<Longrightarrow> CHR 0x0A \<notin> set (butlast l) \<and> l \<noteq> []"
proof (induction s arbitrary: l)
  case (Cons c s)
  then show ?case
    by (cases "split_inclusive_lf s") (fastforce split: if_splits)+
qed simp

lemma str_lines_no_lf: "l \<in> set (str_lines s) \<Longrightarrow> CHR 0x0A \<notin> set l"
proof -
  assume "l \<in> set (str_lines s)"
  then obtain k where k: "k \<in> set (split_inclusive_lf s)" "l = strip_eol k"
    by (auto simp: str_lines_def)
  have inner: "CHR 0x0A \<notin> set (butlast k)" "k \<noteq> []"
    using split_inclusive_no_inner_lf [OF k(1)] by auto
  show ?thesis
  proof (cases "last k = CHR 0x0A")
    case True
    then show ?thesis using k(2) inner
      by (auto simp: strip_eol_def Let_def dest: in_set_butlastD)
  next
    case False
    moreover have "set k = insert (last k) (set (butlast k))"
      using inner(2) by (metis append_butlast_last_id list.set(1) list.set(2) set_append
          Un_insert_right Un_empty_right)
    ultimately show ?thesis using k(2) inner by (auto simp: strip_eol_def)
  qed
qed

subsection \<open>ASCII case\<close>

definition ascii_lower :: "char \<Rightarrow> char" where
  "ascii_lower c =
     (if 65 \<le> (of_char c :: nat) \<and> (of_char c :: nat) \<le> 90 then char_of (of_char c + 32 :: nat) else c)"

definition to_ascii_lowercase :: "string \<Rightarrow> string" where
  "to_ascii_lowercase s = map ascii_lower s"

definition eq_ignore_ascii_case :: "string \<Rightarrow> string \<Rightarrow> bool" where
  "eq_ignore_ascii_case s t \<longleftrightarrow> to_ascii_lowercase s = to_ascii_lowercase t"

definition is_ascii_alphabetic :: "char \<Rightarrow> bool" where
  "is_ascii_alphabetic c \<longleftrightarrow>
     (let n = (of_char c :: nat) in (65 \<le> n \<and> n \<le> 90) \<or> (97 \<le> n \<and> n \<le> 122))"

definition is_ascii_digit :: "char \<Rightarrow> bool" where
  "is_ascii_digit c \<longleftrightarrow> 48 \<le> (of_char c :: nat) \<and> (of_char c :: nat) \<le> 57"

lemma ascii_lower_idem [simp]: "ascii_lower (ascii_lower c) = ascii_lower c"
proof -
  have "of_char (char_of (of_char c + 32 :: nat)) = (of_char c + 32 :: nat)"
    if "(of_char c :: nat) \<le> 90" using that by (simp add: of_char_of)
  then show ?thesis by (simp add: ascii_lower_def)
qed

lemma to_ascii_lowercase_idem [simp]: "to_ascii_lowercase (to_ascii_lowercase s) = to_ascii_lowercase s"
  by (simp add: to_ascii_lowercase_def)

subsection \<open>Integers\<close>

definition digit_val :: "char \<Rightarrow> nat option" where
  "digit_val c = (if is_ascii_digit c then Some (of_char c - 48) else None)"

text \<open>
  \<open>str::parse\<close> into an unsigned type with maximum \<open>hi\<close>: an optional plus sign, then at
  least one digit and only digits, without overflow (the accumulator is checked at every
  digit, which for a number read left to right is the same as checking the result).
\<close>

fun parse_digits :: "nat \<Rightarrow> nat \<Rightarrow> string \<Rightarrow> nat option" where
  "parse_digits hi acc [] = Some acc"
| "parse_digits hi acc (c # s) =
     (case digit_val c of
        None \<Rightarrow> None
      | Some d \<Rightarrow> if hi < acc * 10 + d then None else parse_digits hi (acc * 10 + d) s)"

definition parse_unsigned :: "nat \<Rightarrow> string \<Rightarrow> nat option" where
  "parse_unsigned hi s =
     (case s of
        [] \<Rightarrow> None
      | c # r \<Rightarrow> if c = CHR ''+'' then (if r = [] then None else parse_digits hi 0 r)
                else parse_digits hi 0 s)"

definition parse_u16 :: "string \<Rightarrow> u16 option" where
  "parse_u16 s = map_option word_of_nat (parse_unsigned (2 ^ 16 - 1) s)"

definition parse_u64 :: "string \<Rightarrow> u64 option" where
  "parse_u64 s = map_option word_of_nat (parse_unsigned (2 ^ 64 - 1) s)"

text \<open>\<open>Display\<close> of an unsigned integer.\<close>

definition digit_char :: "nat \<Rightarrow> char" where
  "digit_char d = char_of (48 + d)"

lemma digit_chars [simp]:
  "digit_char 0 = CHR ''0''" "digit_char 1 = CHR ''1''" "digit_char 2 = CHR ''2''"
  "digit_char 3 = CHR ''3''" "digit_char 4 = CHR ''4''" "digit_char 5 = CHR ''5''"
  "digit_char 6 = CHR ''6''" "digit_char 7 = CHR ''7''" "digit_char 8 = CHR ''8''"
  "digit_char 9 = CHR ''9''"
  by code_simp+

function show_nat :: "nat \<Rightarrow> string" where
  "show_nat n = (if n < 10 then [digit_char n] else show_nat (n div 10) @ [digit_char (n mod 10)])"
  by pat_completeness auto
termination by (relation "measure id") auto

declare show_nat.simps [simp del]

text \<open>\<open>LowerHex\<close> with the alternate flag, as \<open>{:#x}\<close> prints a byte.\<close>

definition hex_digit :: "nat \<Rightarrow> char" where
  "hex_digit d = (if d < 10 then char_of (48 + d) else char_of (87 + d))"

definition show_hex_byte :: "u8 \<Rightarrow> string" where
  "show_hex_byte b =
     ''0x'' @ (if unat b < 16 then [hex_digit (unat b)]
               else [hex_digit (unat b div 16), hex_digit (unat b mod 16)])"

lemma digit_val_char [simp]: "d < 10 \<Longrightarrow> digit_val (digit_char d) = Some d"
  by (simp add: digit_val_def digit_char_def is_ascii_digit_def of_char_of)

lemma parse_digits_append:
  "parse_digits hi acc (s @ t) = Option.bind (parse_digits hi acc s) (\<lambda>a. parse_digits hi a t)"
  by (induction s arbitrary: acc) (auto split: option.splits)

lemma parse_digits_show: "n \<le> hi \<Longrightarrow> parse_digits hi 0 (show_nat n) = Some n"
proof (induction n rule: show_nat.induct)
  case (1 n)
  show ?case
  proof (cases "n < 10")
    case True
    then show ?thesis using "1.prems" by (simp add: show_nat.simps [of n])
  next
    case False
    then have "parse_digits hi 0 (show_nat (n div 10)) = Some (n div 10)"
      using 1 by simp
    moreover have "n div 10 * 10 + n mod 10 = n" by simp
    ultimately show ?thesis
      using False "1.prems" by (simp add: show_nat.simps [of n] parse_digits_append)
  qed
qed

lemma show_nat_digits: "c \<in> set (show_nat n) \<Longrightarrow> is_ascii_digit c"
proof (induction n rule: show_nat.induct)
  case (1 n)
  have "is_ascii_digit (digit_char d)" if "d < 10" for d
    using that by (simp add: is_ascii_digit_def digit_char_def of_char_of)
  then show ?case
    using 1 by (cases "n < 10") (auto simp: show_nat.simps [of n])
qed

lemma show_nat_nonempty [simp]: "show_nat n \<noteq> []"
  by (simp add: show_nat.simps [of n])

lemma parse_unsigned_show: "n \<le> hi \<Longrightarrow> parse_unsigned hi (show_nat n) = Some n"
proof -
  assume n: "n \<le> hi"
  obtain c r where cr: "show_nat n = c # r" using show_nat_nonempty by (cases "show_nat n") auto
  then have "is_ascii_digit c" using show_nat_digits [of c n] by simp
  then have "c \<noteq> CHR ''+''" by (auto simp: is_ascii_digit_def)
  then show ?thesis using parse_digits_show [OF n] cr by (simp add: parse_unsigned_def)
qed

lemma parse_u16_show: "parse_u16 (show_nat (unat p)) = Some p"
proof -
  have "unat p < 2 ^ LENGTH(16)" by (rule unsigned_less)
  then have "unat p \<le> 2 ^ 16 - 1" by simp
  then show ?thesis by (simp add: parse_u16_def parse_unsigned_show)
qed

lemma parse_digits_bound: "parse_digits hi acc s = Some n \<Longrightarrow> acc \<le> hi \<Longrightarrow> n \<le> hi"
  by (induction s arbitrary: acc) (auto split: option.splits if_splits)

lemma parse_unsigned_bound: "parse_unsigned hi s = Some n \<Longrightarrow> n \<le> hi"
  using parse_digits_bound [of hi 0]
  by (auto simp del: parse_digits.simps simp: parse_unsigned_def split: list.splits if_splits)

subsection \<open>More on searching and trimming\<close>

lemma takeWhile_until: "c \<notin> set u \<Longrightarrow> takeWhile (\<lambda>y. y \<noteq> c) (u @ c # t) = u"
  by (induction u) auto

text \<open>The first occurrence of a pattern that ends with a character not seen before.\<close>

lemma str_find_first:
  assumes "c \<notin> set pre" and "c \<notin> set u"
  shows "str_find (pre @ u @ c # post) (u @ [c]) = Some (length pre)"
  using assms(1)
proof (induction pre)
  case Nil
  have "starts_with (u @ c # post) (u @ [c])" by (simp add: starts_with_iff)
  then show ?case by (cases "u @ c # post") auto
next
  case (Cons x pre)
  have "\<not> starts_with ((x # pre) @ u @ c # post) (u @ [c])"
  proof
    assume "starts_with ((x # pre) @ u @ c # post) (u @ [c])"
    then obtain t where t: "(x # pre) @ u @ c # post = u @ c # t" by (auto simp: starts_with_iff)
    then have "takeWhile (\<lambda>y. y \<noteq> c) (((x # pre) @ u) @ c # post) = takeWhile (\<lambda>y. y \<noteq> c) (u @ c # t)"
      by simp
    moreover have "c \<notin> set ((x # pre) @ u)" using assms(2) Cons.prems by simp
    moreover note takeWhile_until [OF assms(2), of t]
    ultimately have "(x # pre) @ u = u" using takeWhile_until by metis
    then show False by simp
  qed
  then show ?case using Cons by simp
qed

lemma find_char_first: "c \<notin> set pre \<Longrightarrow> find_char c (pre @ c # post) = Some (length pre)"
  by (induction pre) (auto simp: find_char_def)

lemma find_char_None: "find_char c s = None \<longleftrightarrow> c \<notin> set s"
  by (induction s) (auto simp: find_char_def)

lemma position_skip: "\<forall>x\<in>set xs. \<not> P x \<Longrightarrow> P y \<Longrightarrow> position P (xs @ y # ys) = Some (length xs)"
  by (induction xs) auto

text \<open>A visible ASCII character is no part of any white space character.\<close>

definition graphic :: "char \<Rightarrow> bool" where
  "graphic c \<longleftrightarrow> 33 \<le> (of_char c :: nat) \<and> (of_char c :: nat) \<le> 126"

lemma ws_strings_graphic: "w \<in> set ws_strings \<Longrightarrow> \<not> graphic (hd w) \<and> \<not> graphic (last w)"
  by (auto simp: ws_strings_def graphic_def)

lemma ws_front_graphic: "graphic c \<Longrightarrow> ws_front (c # s) = None"
proof -
  assume "graphic c"
  then have "c # s \<noteq> w @ t" if "w \<in> set ws_strings" for w t
    using ws_strings_graphic [OF that] ws_strings_nonempty [OF that] by (cases w) auto
  then show ?thesis by (simp add: ws_front_None)
qed

lemma ws_back_graphic: "graphic c \<Longrightarrow> ws_back (s @ [c]) = None"
proof -
  assume g: "graphic c"
  have "s @ [c] \<noteq> t @ w" if "w \<in> set ws_strings" for w t
  proof
    assume "s @ [c] = t @ w"
    then have "last w = c" using ws_strings_nonempty [OF that] by (metis last_appendR last_snoc length_greater_0_conv)
    then show False using ws_strings_graphic [OF that] g by simp
  qed
  then show ?thesis by (simp add: ws_back_None)
qed

lemma trim_graphic:
  assumes "s \<noteq> []" and "graphic (hd s)" and "graphic (last s)"
  shows "trim s = s"
proof (rule trim_id)
  show "ws_front s = None" using ws_front_graphic [OF assms(2), of "tl s"] assms(1) by simp
  show "ws_back s = None"
    using ws_back_graphic [OF assms(3), of "butlast s"] assms(1) by simp
qed

lemma ws_front_space: "ws_front (CHR '' '' # s) = Some '' ''"
  by (simp add: ws_front_def ws_strings_def)

lemma trim_start_space: "trim_start (CHR '' '' # s) = trim_start s"
  using trim_start_step [of "'' ''" s] ws_front_space [of s] by simp

lemma trim_start_graphic: "graphic c \<Longrightarrow> trim_start (c # s) = c # s"
  using ws_front_graphic by simp

lemma trim_start_hd: "s \<noteq> [] \<Longrightarrow> graphic (hd s) \<Longrightarrow> trim_start s = s"
  using trim_start_graphic [of "hd s" "tl s"] by simp

lemma ws_back_space: "ws_back (s @ '' '') = Some '' ''"
  by (simp add: ws_back_def ws_strings_def)

lemma trim_end_space: "trim_end (s @ '' '') = trim_end s"
  using trim_end_step [OF ws_back_space] .

lemma trim_space_right: "s \<noteq> [] \<Longrightarrow> trim_start s = s \<Longrightarrow> graphic (hd s) \<Longrightarrow> trim (s @ '' '') = trim s"
  using trim_start_graphic [of "hd s" "tl s @ '' ''"]
  by (cases s) (simp_all add: trim_def trim_end_space [of "_ # _", simplified])

lemma digit_graphic: "is_ascii_digit c \<Longrightarrow> graphic c"
  by (simp add: is_ascii_digit_def graphic_def)

lemma show_nat_trim [simp]: "trim (show_nat n) = show_nat n"
proof (rule trim_graphic)
  show "graphic (hd (show_nat n))" "graphic (last (show_nat n))"
    using show_nat_digits [of _ n] digit_graphic hd_in_set [of "show_nat n"] last_in_set [of "show_nat n"]
    by auto
qed simp

lemma show_nat_no: "\<not> is_ascii_digit c \<Longrightarrow> c \<notin> set (show_nat n)"
  using show_nat_digits by blast

lemma parse_u64_show: "parse_u64 (show_nat (unat p)) = Some p"
proof -
  have "unat p < 2 ^ 64" using unsigned_less [of p] by simp
  then have "unat p \<le> 2 ^ 64 - 1" by simp
  then show ?thesis by (simp add: parse_u64_def parse_unsigned_show)
qed

lemma trim_start_subset: "set (trim_start s) \<subseteq> set s"
proof (induction s rule: trim_start.induct)
  case (1 s)
  then show ?case
    by (subst trim_start.simps) (auto split: option.splits dest: in_set_dropD)
qed

end
