(* ===== verification/Wire_Limits.thy ===== *)
theory Wire_Limits
  imports Rust_Str
begin

text \<open>
  The size limits of the vendored Prns engine the bridge depends on
  (\<open>vendor/prns-core\<close>: \<open>wire/limits.rs\<close>, \<open>wire/address.rs\<close>, \<open>crypto/token.rs\<close>,
  \<open>routing/links/data.rs\<close>, \<open>routing/announce\<close>, \<open>engine/commands/link.rs\<close>), and the
  condition under which an interface access code is derived
  (\<open>interfaces/packet/ifac.rs\<close>).  Everything else of the engine is outside the model.
\<close>

definition TRUNCATED_HASH_BYTE_LEN :: nat where "TRUNCATED_HASH_BYTE_LEN = 16"
definition ANNOUNCE_PUBLIC_KEY_BYTE_LEN :: nat where "ANNOUNCE_PUBLIC_KEY_BYTE_LEN = 64"
definition DOTTED_NAME_HASH_BYTE_LEN :: nat where "DOTTED_NAME_HASH_BYTE_LEN = 10"
definition SIGNATURE_BYTE_LEN :: nat where "SIGNATURE_BYTE_LEN = 64"
definition ANNOUNCE_ID_WIRE_LEN :: nat where "ANNOUNCE_ID_WIRE_LEN = 10"
definition BROADCAST_MTU :: nat where "BROADCAST_MTU = 500"
definition HEADER_MIN_LEN :: nat where "HEADER_MIN_LEN = 2 + TRUNCATED_HASH_BYTE_LEN + 1"
definition HEADER_MAX_LEN :: nat where "HEADER_MAX_LEN = 2 + TRUNCATED_HASH_BYTE_LEN * 2 + 1"
definition IFAC_MIN_LEN :: nat where "IFAC_MIN_LEN = 1"
definition BROADCAST_MDU :: nat where "BROADCAST_MDU = BROADCAST_MTU - HEADER_MAX_LEN - IFAC_MIN_LEN"
definition TOKEN_OVERHEAD :: nat where "TOKEN_OVERHEAD = 16 + 32"

definition ANNOUNCE_FIXED_FIELDS_LEN :: nat where
  "ANNOUNCE_FIXED_FIELDS_LEN = ANNOUNCE_PUBLIC_KEY_BYTE_LEN + DOTTED_NAME_HASH_BYTE_LEN
     + ANNOUNCE_ID_WIRE_LEN + SIGNATURE_BYTE_LEN"

definition MAX_ANNOUNCE_APP_DATA_LEN :: nat where
  "MAX_ANNOUNCE_APP_DATA_LEN = BROADCAST_MDU - ANNOUNCE_FIXED_FIELDS_LEN"

text \<open>
  A \<open>usize\<close> subtraction that underflows aborts; \<open>None\<close> is that abort (both uses are
  constant-evaluated, where it would be a compile error).
\<close>

definition link_mdu :: "nat \<Rightarrow> nat option" where
  "link_mdu mtu =
     (let over = IFAC_MIN_LEN + HEADER_MIN_LEN + TOKEN_OVERHEAD
      in if mtu < over then None
         else if (mtu - over) div 16 = 0 then None
         else Some ((mtu - over) div 16 * 16 - 1))"

definition sealed_frame_len :: "nat \<Rightarrow> nat" where
  "sealed_frame_len plaintext_len =
     HEADER_MIN_LEN + IFAC_MIN_LEN + TOKEN_OVERHEAD + (plaintext_len div 16 + 1) * 16"

definition MAX_SEND_TO_LINK_PLAINTEXT_LEN :: nat where
  "MAX_SEND_TO_LINK_PLAINTEXT_LEN = the (link_mdu 2048)"

lemmas wire_limit_defs =
  TRUNCATED_HASH_BYTE_LEN_def ANNOUNCE_PUBLIC_KEY_BYTE_LEN_def DOTTED_NAME_HASH_BYTE_LEN_def
  SIGNATURE_BYTE_LEN_def ANNOUNCE_ID_WIRE_LEN_def BROADCAST_MTU_def HEADER_MIN_LEN_def
  HEADER_MAX_LEN_def IFAC_MIN_LEN_def BROADCAST_MDU_def TOKEN_OVERHEAD_def
  ANNOUNCE_FIXED_FIELDS_LEN_def MAX_ANNOUNCE_APP_DATA_LEN_def link_mdu_def
  MAX_SEND_TO_LINK_PLAINTEXT_LEN_def

lemma link_mdu_2048: "link_mdu 2048 = Some 1967"
  by (simp add: wire_limit_defs)

lemma max_send_to_link: "MAX_SEND_TO_LINK_PLAINTEXT_LEN = 1967"
  by (simp add: wire_limit_defs)

lemma max_announce_app_data: "MAX_ANNOUNCE_APP_DATA_LEN = 316"
  by (simp add: wire_limit_defs)

text \<open>A plaintext within the MDU seals into a frame within the MTU.\<close>

lemma link_mdu_fits:
  assumes "link_mdu mtu = Some m" and "n \<le> m"
  shows "sealed_frame_len n \<le> mtu"
proof -
  let ?over = "IFAC_MIN_LEN + HEADER_MIN_LEN + TOKEN_OVERHEAD"
  let ?q = "(mtu - ?over) div 16"
  have m: "?over \<le> mtu" "0 < ?q" "m = ?q * 16 - 1"
    using assms(1) by (auto simp: link_mdu_def Let_def split: if_splits)
  then have "n < ?q * 16" using assms(2) by linarith
  then have "n div 16 < ?q" by (rule less_mult_imp_div_less)
  then have "(n div 16 + 1) * 16 \<le> ?q * 16" by (intro mult_le_mono1) simp
  also have "\<dots> \<le> mtu - ?over" by (rule div_times_less_eq_dividend)
  finally show ?thesis using m(1) by (simp add: sealed_frame_len_def)
qed

subsection \<open>Bounded vectors and hashes\<close>

text \<open>\<open>heapless::Vec<u8, N>::from_slice\<close>: fails when the slice exceeds the capacity.\<close>

definition heapless_from_slice :: "nat \<Rightarrow> 'a list \<Rightarrow> 'a list option" where
  "heapless_from_slice cap xs = (if length xs \<le> cap then Some xs else None)"

type_synonym destination_hash = bytes
type_synonym link_id = bytes
type_synonym identity_hash = bytes
type_synonym interface_id = bytes

definition DestinationHash_from_slice :: "bytes \<Rightarrow> destination_hash option" where
  "DestinationHash_from_slice bs = (if length bs = TRUNCATED_HASH_BYTE_LEN then Some bs else None)"

text \<open>
  Whether \<open>IfacContext::derive\<close> yields a context: empty strings count as absent, and one
  of name and passphrase is enough.
\<close>

definition nonempty_opt :: "string option \<Rightarrow> string option" where
  "nonempty_opt s = (case s of None \<Rightarrow> None | Some v \<Rightarrow> if v = [] then None else Some v)"

definition ifac_derives :: "string option \<Rightarrow> string option \<Rightarrow> bool" where
  "ifac_derives netname netkey \<longleftrightarrow> nonempty_opt netname \<noteq> None \<or> nonempty_opt netkey \<noteq> None"

text \<open>The context itself is made of the two texts that count.\<close>

definition derive_ifac :: "string option \<Rightarrow> string option \<Rightarrow> (string option \<times> string option) option" where
  "derive_ifac netname netkey =
     (if ifac_derives netname netkey then Some (nonempty_opt netname, nonempty_opt netkey) else None)"

end
