(* ===== verification/Keyed_List.thy ===== *)
theory Keyed_List
  imports Bridge_Prelude
begin

text \<open>
  Vectors used as small tables.  Both the server browser (\<open>remember_server\<close>) and the
  saved interfaces (\<open>record_interface\<close>, \<open>dedup_interfaces\<close>) look for an entry with
  \<open>iter_mut().find(..)\<close>, overwrite it, or else \<open>push\<close>.  \<open>find_mut\<close> is that search;
  the locale \<open>keyed_store\<close> states what such a table promises and derives the facts the
  components use: distinct keys, order of first insertion, last write wins.
\<close>

text \<open>\<open>iter_mut().find(P)\<close> followed by an assignment through the reference it yields.\<close>

fun find_mut :: "('a \<Rightarrow> bool) \<Rightarrow> ('a \<Rightarrow> 'a) \<Rightarrow> 'a list \<Rightarrow> 'a list option" where
  "find_mut P f [] = None"
| "find_mut P f (x # xs) = (if P x then Some (f x # xs) else map_option ((#) x) (find_mut P f xs))"

definition by_key :: "('a \<Rightarrow> 'k) \<Rightarrow> 'a list \<Rightarrow> ('k \<rightharpoonup> 'a)" where
  "by_key key xs = map_of (map (\<lambda>x. (key x, x)) xs)"

lemma by_key_Nil [simp]: "by_key key [] = Map.empty"
  by (simp add: by_key_def)

lemma by_key_Cons [simp]: "by_key key (x # xs) = (by_key key xs)(key x \<mapsto> x)"
  by (simp add: by_key_def)

lemma by_key_append [simp]: "by_key key (xs @ ys) = by_key key ys ++ by_key key xs"
  by (simp add: by_key_def)

lemma by_key_None: "by_key key xs k = None \<longleftrightarrow> k \<notin> key ` set xs"
  by (induction xs) auto

lemma by_key_Some: "by_key key xs k = Some x \<Longrightarrow> x \<in> set xs \<and> key x = k"
  by (induction xs) (auto split: if_splits)

lemma by_key_distinct: "distinct (map key xs) \<Longrightarrow> x \<in> set xs \<Longrightarrow> by_key key xs (key x) = Some x"
  by (induction xs) (auto simp: image_iff)

lemma find_mut_None: "find_mut P f xs = None \<longleftrightarrow> (\<forall>x\<in>set xs. \<not> P x)"
  by (induction xs) auto

lemma find_mut_keys:
  "find_mut (\<lambda>y. key y = k) (\<lambda>y. x) xs = Some ys \<Longrightarrow> key x = k \<Longrightarrow> map key ys = map key xs"
  by (induction xs arbitrary: ys) (auto split: if_splits)

lemma find_mut_by_key:
  "find_mut (\<lambda>y. key y = k) (\<lambda>y. x) xs = Some ys \<Longrightarrow> key x = k \<Longrightarrow>
   by_key key ys = (by_key key xs)(k \<mapsto> x)"
  by (induction xs arbitrary: ys) (auto split: if_splits)

lemma find_mut_subset: "find_mut P (\<lambda>_. x) xs = Some ys \<Longrightarrow> set ys \<subseteq> insert x (set xs)"
  by (induction xs arbitrary: ys) (auto split: if_splits)

lemma find_mut_cong:
  "(\<And>x. x \<in> set xs \<Longrightarrow> P x \<Longrightarrow> f x = g x) \<Longrightarrow> find_mut P f xs = find_mut P g xs"
  by (induction xs) auto

text \<open>The table operation both components share: overwrite the entry of that key, or push.\<close>

definition update_or_push :: "('a \<Rightarrow> 'k) \<Rightarrow> 'a \<Rightarrow> 'a list \<Rightarrow> 'a list" where
  "update_or_push key x xs =
     (case find_mut (\<lambda>y. key y = key x) (\<lambda>_. x) xs of Some ys \<Rightarrow> ys | None \<Rightarrow> xs @ [x])"

lemma update_or_push_new: "key x \<notin> key ` set xs \<Longrightarrow> update_or_push key x xs = xs @ [x]"
proof -
  assume "key x \<notin> key ` set xs"
  then have "find_mut (\<lambda>y. key y = key x) (\<lambda>_. x) xs = None"
    unfolding find_mut_None by (metis imageI)
  then show ?thesis by (simp add: update_or_push_def)
qed

lemma update_or_push_old:
  assumes "key x \<in> key ` set xs"
  obtains ys where "find_mut (\<lambda>y. key y = key x) (\<lambda>_. x) xs = Some ys"
    and "update_or_push key x xs = ys"
proof -
  have "find_mut (\<lambda>y. key y = key x) (\<lambda>_. x) xs \<noteq> None"
    using assms by (auto simp: find_mut_None)
  then show ?thesis using that by (auto simp: update_or_push_def)
qed

lemma list_eq_by_key:
  assumes "map key xs = map key ys" and "distinct (map key xs)" and "by_key key xs = by_key key ys"
  shows "xs = ys"
proof (rule nth_equalityI)
  show len: "length xs = length ys" using assms(1) by (metis length_map)
  fix i assume i: "i < length xs"
  have "by_key key xs (key (xs ! i)) = Some (xs ! i)"
    using assms(2) i by (simp add: by_key_distinct)
  moreover have "by_key key ys (key (ys ! i)) = Some (ys ! i)"
    using assms(1,2) i len by (simp add: by_key_distinct)
  moreover have "key (xs ! i) = key (ys ! i)" using assms(1) i len by (metis nth_map)
  ultimately show "xs ! i = ys ! i" using assms(3) by (metis option.inject)
qed

locale keyed_store =
  fixes key :: "'a \<Rightarrow> 'k"
    and put :: "'a \<Rightarrow> 'a list \<Rightarrow> 'a list"
  assumes put_new: "key x \<notin> key ` set xs \<Longrightarrow> put x xs = xs @ [x]"
    and put_keys: "key x \<in> key ` set xs \<Longrightarrow> map key (put x xs) = map key xs"
    and put_lookup: "key x \<in> key ` set xs \<Longrightarrow> by_key key (put x xs) = (by_key key xs)(key x \<mapsto> x)"
begin

lemma keys_put:
  "map key (put x xs) = (if key x \<in> key ` set xs then map key xs else map key xs @ [key x])"
  by (simp add: put_new put_keys)

lemma lookup_put: "by_key key (put x xs) = (by_key key xs)(key x \<mapsto> x)"
proof (cases "key x \<in> key ` set xs")
  case True
  then show ?thesis by (rule put_lookup)
next
  case False
  then have "by_key key xs (key x) = None" by (simp add: by_key_None)
  then show ?thesis using False by (auto simp: put_new map_add_def split: option.splits)
qed

lemma keyset_put: "key ` set (put x xs) = insert (key x) (key ` set xs)"
  by (metis (no_types, lifting) image_set insert_absorb keys_put list.set(1) list.set(2)
      set_append Un_insert_right Un_empty_right)

lemma distinct_put: "distinct (map key xs) \<Longrightarrow> distinct (map key (put x xs))"
  by (auto simp: keys_put)

lemma length_put: "length (put x xs) = (if key x \<in> key ` set xs then length xs else Suc (length xs))"
  by (metis keys_put length_append_singleton length_map)

lemma put_elem:
  assumes "distinct (map key xs)" and "y \<in> set (put x xs)"
  shows "y = x \<or> y \<in> set xs \<and> key y \<noteq> key x"
proof -
  have "by_key key (put x xs) (key y) = Some y"
    using assms(2) distinct_put [OF assms(1)] by (rule by_key_distinct [rotated])
  then have y: "((by_key key xs)(key x \<mapsto> x)) (key y) = Some y" by (simp add: lookup_put)
  show ?thesis
  proof (cases "key y = key x")
    case True
    then show ?thesis using y by simp
  next
    case False
    then show ?thesis using y by_key_Some [of key xs "key y" y] by simp
  qed
qed

text \<open>Apart from the entry put, the table is as it was.\<close>

lemma filter_put:
  assumes "distinct (map key xs)"
  shows "filter (\<lambda>y. key y \<noteq> key x) (put x xs) = filter (\<lambda>y. key y \<noteq> key x) xs"
proof (rule list_eq_by_key)
  have keys: "map key (filter (\<lambda>y. key y \<noteq> k) l) = filter (\<lambda>j. j \<noteq> k) (map key l)" for k l
    by (induction l) auto
  show "map key (filter (\<lambda>y. key y \<noteq> key x) (put x xs)) = map key (filter (\<lambda>y. key y \<noteq> key x) xs)"
    unfolding keys keys_put by simp
  show "distinct (map key (filter (\<lambda>y. key y \<noteq> key x) (put x xs)))"
    unfolding keys using distinct_put [OF assms] by simp
  have look: "by_key key (filter (\<lambda>y. key y \<noteq> k) l) = (by_key key l)(k := None)" for k l
    by (induction l) auto
  show "by_key key (filter (\<lambda>y. key y \<noteq> key x) (put x xs)) = by_key key (filter (\<lambda>y. key y \<noteq> key x) xs)"
    by (simp add: look lookup_put)
qed

text \<open>Putting back an entry that is already there changes nothing.\<close>

lemma put_known:
  assumes "distinct (map key xs)" and "by_key key xs (key x) = Some x"
  shows "put x xs = xs"
proof (rule list_eq_by_key)
  have "key x \<in> key ` set xs" using assms(2) by (metis by_key_None option.distinct(1))
  then show "map key (put x xs) = map key xs" by (rule put_keys)
  then show "distinct (map key (put x xs))" using assms(1) by simp
  show "by_key key (put x xs) = by_key key xs" using assms(2) by (auto simp: lookup_put)
qed

definition put_all :: "'a list \<Rightarrow> 'a list \<Rightarrow> 'a list" where
  "put_all ds xs = fold put ds xs"

lemma put_all_simps [simp]:
  "put_all [] xs = xs" "put_all (d # ds) xs = put_all ds (put d xs)"
  by (simp_all add: put_all_def)

lemma distinct_put_all: "distinct (map key xs) \<Longrightarrow> distinct (map key (put_all ds xs))"
  by (induction ds arbitrary: xs) (simp_all add: distinct_put)

lemma keyset_put_all: "key ` set (put_all ds xs) = key ` set ds \<union> key ` set xs"
  by (induction ds arbitrary: xs) (auto simp: keyset_put)

text \<open>Last write wins.\<close>

lemma lookup_put_all: "by_key key (put_all ds xs) = by_key key xs ++ by_key key (rev ds)"
proof (induction ds arbitrary: xs)
  case (Cons d ds)
  then show ?case
    by (auto simp: lookup_put map_add_def fun_eq_iff split: option.splits)
qed simp

text \<open>Collapsing a table that has no duplicates is the identity.\<close>

lemma put_all_distinct:
  "distinct (map key (xs @ ds)) \<Longrightarrow> put_all ds xs = xs @ ds"
  by (induction ds arbitrary: xs) (simp_all add: put_new)

lemma length_put_all: "length (put_all ds xs) \<le> length xs + length ds"
proof (induction ds arbitrary: xs)
  case (Cons d ds)
  then show ?case using Cons.IH [of "put d xs"] by (simp add: length_put split: if_splits)
qed simp

lemma put_all_set: "by_key key (put_all ds []) k = by_key key (rev ds) k"
  by (simp add: lookup_put_all)

text \<open>The table shrinks exactly when the input had two entries with the same key.\<close>

lemma length_put_all_eq:
  "length (put_all ds []) = length ds \<longleftrightarrow> distinct (map key ds)"
proof -
  have "length (put_all ds []) = card (key ` set (put_all ds []))"
    using distinct_put_all [of "[]" ds] by (metis distinct_card distinct.simps(1) image_set length_map list.map(1))
  also have "\<dots> = card (set (map key ds))" by (simp add: keyset_put_all)
  finally show ?thesis by (metis card_distinct distinct_card length_map)
qed

end

text \<open>The shared operation is such a table, for every key.\<close>

lemma keyed_store_update_or_push: "keyed_store key (update_or_push key)"
proof
  fix x xs
  show "key x \<notin> key ` set xs \<Longrightarrow> update_or_push key x xs = xs @ [x]"
    by (rule update_or_push_new)
  assume old: "key x \<in> key ` set xs"
  show "map key (update_or_push key x xs) = map key xs"
    using old by (rule update_or_push_old) (metis find_mut_keys)
  show "by_key key (update_or_push key x xs) = (by_key key xs)(key x \<mapsto> x)"
    using old by (rule update_or_push_old) (metis find_mut_by_key)
qed

end
