(* ===== verification/Announce.thy ===== *)
theory Announce
  imports Wire_Limits Keyed_List
begin

text \<open>
  Announces and the server browser: the part of \<open>src/relay.rs\<close> that turns engine events
  into bridge events (\<open>funnel_event\<close>), keeps the discovered-server list
  (\<open>remember_server\<close>), encodes and decodes display names in announce app data, attaches
  the interfaces of the command line (\<open>attach_interfaces\<close>) and parses \<open>--server-hash\<close>;
  and the browser row of \<open>controller/src/server_entry.rs\<close>.

  An \<open>Instant\<close> is a number of nanoseconds on the monotonic clock, read where the code
  calls \<open>Instant::now()\<close> and passed in.  The \<open>hex\<close> crate is not part of the
  repository: its \<open>encode\<close> and \<open>decode\<close> are arguments.
\<close>

subsection \<open>Events\<close>

datatype bridge_event =
  AnnounceHeard destination_hash "string option"
| LinkEstablished link_id
| PeerIdentified link_id identity_hash
| LinkClosed link_id
| LinkData link_id bytes

text \<open>The engine events the bridge looks at; every other event is \<open>EvOther\<close>.\<close>

datatype prns_event =
  EvAnnounceHeard destination_hash bytes
| EvLinkEstablished link_id
| EvPeerIdentified link_id identity_hash
| EvLinkClosed link_id
| EvDeliveredLink link_id bytes
| EvOther

definition announce_app_data_to_name :: "bytes \<Rightarrow> string option" where
  "announce_app_data_to_name app_data =
     (if app_data = [] then None
      else case map_option trim (from_utf8 app_data) of
             None \<Rightarrow> None
           | Some s \<Rightarrow> if s = [] then None else Some s)"

definition funnel_event :: "prns_event \<Rightarrow> bridge_event option" where
  "funnel_event event =
     (case event of
        EvAnnounceHeard destination app_data \<Rightarrow>
          Some (AnnounceHeard destination (announce_app_data_to_name app_data))
      | EvLinkEstablished link_id \<Rightarrow> Some (LinkEstablished link_id)
      | EvPeerIdentified link_id identity \<Rightarrow> Some (PeerIdentified link_id identity)
      | EvLinkClosed link_id \<Rightarrow> Some (LinkClosed link_id)
      | EvDeliveredLink link_id plaintext \<Rightarrow> Some (LinkData link_id plaintext)
      | EvOther \<Rightarrow> None)"

subsection \<open>Display names\<close>

definition DEFAULT_SERVER_ANNOUNCE_NAME :: bytes where
  "DEFAULT_SERVER_ANNOUNCE_NAME = bytes_of ''sc-rns-bridge''"

definition server_announce_name_bytes :: "string option \<Rightarrow> bytes" where
  "server_announce_name_bytes name =
     (let trimmed = (case map_option trim name of
                       None \<Rightarrow> None | Some s \<Rightarrow> if s = [] then None else Some s);
          bytes = (case trimmed of None \<Rightarrow> DEFAULT_SERVER_ANNOUNCE_NAME | Some s \<Rightarrow> bytes_of s)
      in take (min (length bytes) MAX_ANNOUNCE_APP_DATA_LEN) bytes)"

text \<open>\<open>AnnounceAppData::Data\<close> of the bytes; an oversized slice would become empty.\<close>

definition server_announce_app_data :: "string option \<Rightarrow> bytes" where
  "server_announce_app_data name =
     (let bytes = server_announce_name_bytes name
      in case heapless_from_slice MAX_ANNOUNCE_APP_DATA_LEN bytes of None \<Rightarrow> [] | Some v \<Rightarrow> v)"

subsection \<open>The discovered-server list\<close>

record discovered_server =
  ds_hash :: destination_hash
  ds_last_seen :: nat
  ds_name :: "string option"

definition remember_server ::
  "nat \<Rightarrow> destination_hash \<Rightarrow> string option \<Rightarrow> discovered_server list \<Rightarrow> discovered_server list" where
  "remember_server now destination name l =
     (case find_mut (\<lambda>s. ds_hash s = destination)
             (\<lambda>s. s\<lparr>ds_last_seen := now, ds_name := name\<rparr>) l of
        Some l' \<Rightarrow> l'
      | None \<Rightarrow> l @ [\<lparr>ds_hash = destination, ds_last_seen = now, ds_name = name\<rparr>])"

text \<open>A browser row: the age is \<open>Instant::elapsed\<close> in whole seconds (0 if the clock lags).\<close>

record server_entry =
  se_destination_hash :: string
  se_last_seen_ago_secs :: nat
  se_name :: "string option"

definition from_discovered :: "(bytes \<Rightarrow> string) \<Rightarrow> nat \<Rightarrow> discovered_server \<Rightarrow> server_entry" where
  "from_discovered hex_encode now d =
     \<lparr>se_destination_hash = hex_encode (ds_hash d),
      se_last_seen_ago_secs = (now - ds_last_seen d) div 1000000000,
      se_name = ds_name d\<rparr>"

subsection \<open>Command-line interfaces and hashes\<close>

text \<open>What \<open>attach_interfaces\<close> asks of the node, and the warnings it logs.\<close>

datatype attachment =
  BindTcpServer string
| AttachTcpClient string
| AttachAutoWifi

datatype attach_warning = IgnoringTcpWithoutPort | NoInterfacesAttached

definition attach_interfaces ::
  "string option \<Rightarrow> bool \<Rightarrow> attachment list \<times> attach_warning list" where
  "attach_interfaces tcp auto =
     (let (tcp_att, tcp_warn) =
            (case tcp of
               None \<Rightarrow> ([], [])
             | Some addr \<Rightarrow>
                 (case rfind_char (CHR '':'') addr of
                    Some colon \<Rightarrow>
                      (let host = take colon addr;
                           port = (case parse_u16 (drop (colon + 1) addr) of None \<Rightarrow> 0 | Some p \<Rightarrow> p)
                       in if host = ''0.0.0.0'' \<or> host = [] then ([BindTcpServer addr], [])
                          else if 0 < port then ([AttachTcpClient addr], [])
                          else ([], []))
                  | None \<Rightarrow> ([], [IgnoringTcpWithoutPort])));
          auto_att = (if auto then [AttachAutoWifi] else []);
          none_warn = (if tcp = None \<and> \<not> auto then [NoInterfacesAttached] else [])
      in (tcp_att @ auto_att, tcp_warn @ none_warn))"

definition parse_destination_hash ::
  "(string \<Rightarrow> string + bytes) \<Rightarrow> string \<Rightarrow> destination_hash result" where
  "parse_destination_hash hex_decode hex =
     rbind (map_err (\<lambda>e. ''invalid hex in --server-hash: '' @ e) (hex_decode (trim hex))) (\<lambda>bytes.
       ok_or ''--server-hash must be 16 bytes (32 hex chars)'' (DestinationHash_from_slice bytes))"

subsection \<open>The browser is a keyed table\<close>

lemma remember_server_put:
  "remember_server now h name l =
   update_or_push ds_hash \<lparr>ds_hash = h, ds_last_seen = now, ds_name = name\<rparr> l"
proof -
  have "find_mut (\<lambda>s. ds_hash s = h) (\<lambda>s. s\<lparr>ds_last_seen := now, ds_name := name\<rparr>) l
      = find_mut (\<lambda>s. ds_hash s = h) (\<lambda>_. \<lparr>ds_hash = h, ds_last_seen = now, ds_name = name\<rparr>) l"
    by (rule find_mut_cong) simp
  then show ?thesis
    by (simp add: remember_server_def update_or_push_def split: option.splits)
qed

interpretation browser: keyed_store ds_hash
  "\<lambda>d. remember_server (ds_last_seen d) (ds_hash d) (ds_name d)"
proof -
  have "(\<lambda>d. remember_server (ds_last_seen d) (ds_hash d) (ds_name d)) = update_or_push ds_hash"
  proof (intro ext)
    fix d :: discovered_server and l
    show "remember_server (ds_last_seen d) (ds_hash d) (ds_name d) l = update_or_push ds_hash d l"
      by (cases d) (simp add: remember_server_put)
  qed
  then show "keyed_store ds_hash (\<lambda>d. remember_server (ds_last_seen d) (ds_hash d) (ds_name d))"
    using keyed_store_update_or_push by simp
qed

lemma remember_server_distinct:
  "distinct (map ds_hash l) \<Longrightarrow> distinct (map ds_hash (remember_server now h name l))"
  using browser.distinct_put [of l "\<lparr>ds_hash = h, ds_last_seen = now, ds_name = name\<rparr>"] by simp

lemma remember_server_lookup:
  "by_key ds_hash (remember_server now h name l) =
   (by_key ds_hash l)(h \<mapsto> \<lparr>ds_hash = h, ds_last_seen = now, ds_name = name\<rparr>)"
  using browser.lookup_put [of "\<lparr>ds_hash = h, ds_last_seen = now, ds_name = name\<rparr>" l] by simp

subsection \<open>Names on the wire\<close>

lemma name_bytes_length: "length (server_announce_name_bytes name) \<le> MAX_ANNOUNCE_APP_DATA_LEN"
  by (simp add: server_announce_name_bytes_def Let_def)

lemma app_data_is_name_bytes: "server_announce_app_data name = server_announce_name_bytes name"
  using name_bytes_length by (simp add: server_announce_app_data_def heapless_from_slice_def)

lemma name_bytes_nonempty: "server_announce_name_bytes name \<noteq> []"
  by (auto simp: server_announce_name_bytes_def Let_def max_announce_app_data
      DEFAULT_SERVER_ANNOUNCE_NAME_def split: option.splits)

lemma name_bytes_short:
  assumes "trim s \<noteq> []" and "length (trim s) \<le> MAX_ANNOUNCE_APP_DATA_LEN"
  shows "server_announce_name_bytes (Some s) = bytes_of (trim s)"
  using assms by (simp add: server_announce_name_bytes_def)

lemma announce_name_decode:
  "utf8_valid (bytes_of s) \<Longrightarrow> s \<noteq> [] \<Longrightarrow> trim s = s \<Longrightarrow>
   announce_app_data_to_name (bytes_of s) = Some s"
  by (simp add: announce_app_data_to_name_def from_utf8_def)

lemma announce_name_decode_props:
  assumes "announce_app_data_to_name bs = Some n"
  shows "n \<noteq> [] \<and> trim n = n \<and> utf8_valid (bytes_of n) \<and> length n \<le> length bs"
proof -
  have bs: "utf8_valid bs" "n = trim (str_of bs)" "n \<noteq> []"
    using assms by (auto simp: announce_app_data_to_name_def from_utf8_def split: if_splits)
  have "length (trim (str_of bs)) \<le> length (str_of bs)" by (rule length_trim)
  then show ?thesis using bs trim_valid [of "str_of bs"] by simp
qed

subsection \<open>Properties of announces and interfaces\<close>

text \<open>
  C25: a configured server name that fits the wire budget arrives:
  what the client decodes from the announced app data is the trimmed name.
\<close>

theorem announce_name_round_trip:
  assumes "utf8_valid (bytes_of name)" and "trim name \<noteq> []"
    and "length (trim name) \<le> MAX_ANNOUNCE_APP_DATA_LEN"
  shows "announce_app_data_to_name (server_announce_app_data (Some name)) = Some (trim name)"
  using assms announce_name_decode [of "trim name"] trim_valid [of name] trim_trim [of name]
  by (simp add: app_data_is_name_bytes name_bytes_short)

theorem announce_name_round_trip_witness:
  "announce_app_data_to_name (server_announce_app_data (Some '' My Server '')) = Some ''My Server''"
proof -
  have t: "trim '' My Server '' = ''My Server''" by code_simp
  have "utf8_valid (bytes_of '' My Server '')" by code_simp
  then show ?thesis
    using announce_name_round_trip [of "'' My Server ''"] t by (simp add: max_announce_app_data)
qed

text \<open>
  Fact: after any sequence of announces the server browser has one
  row per destination hash that was heard, and the row of a hash is its last announce.
\<close>

theorem browser_shows_last_announce:
  "let l = fold (\<lambda>d. remember_server (ds_last_seen d) (ds_hash d) (ds_name d)) heard []
   in distinct (map ds_hash l) \<and> set (map ds_hash l) = set (map ds_hash heard)
      \<and> (\<forall>h. by_key ds_hash l h = by_key ds_hash (rev heard) h)"
  using browser.distinct_put_all [of "[]" heard] browser.keyset_put_all [of heard "[]"]
    browser.put_all_set [of heard]
  by (simp add: browser.put_all_def Let_def)

lemma attach_at_colon:
  assumes "rfind_char (CHR '':'') addr = Some i"
  shows "attach_interfaces (Some addr) auto = ([], []) \<longleftrightarrow>
     \<not> auto \<and> take i addr \<noteq> [] \<and> take i addr \<noteq> ''0.0.0.0''
     \<and> (parse_u16 (drop (Suc i) addr) = None \<or> parse_u16 (drop (Suc i) addr) = Some 0)"
  using assms by (simp add: attach_interfaces_def Let_def word_gt_0 split: option.split)

text \<open>
  Fact: \<open>attach_interfaces\<close> leaves the node without any interface and
  without a warning exactly when auto discovery is off and the TCP option names a host (not
  \<open>0.0.0.0\<close>) with a port that is zero or does not parse.
\<close>

theorem attach_silent_cases:
  "attach_interfaces tcp auto = ([], []) \<longleftrightarrow>
     \<not> auto \<and> (\<exists>host port. tcp = Some (host @ '':'' @ port) \<and> CHR '':'' \<notin> set port
        \<and> host \<noteq> [] \<and> host \<noteq> ''0.0.0.0'' \<and> (parse_u16 port = None \<or> parse_u16 port = Some 0))"
proof (cases tcp)
  case None
  then show ?thesis by (auto simp: attach_interfaces_def)
next
  case (Some addr)
  show ?thesis
  proof (cases "rfind_char (CHR '':'') addr")
    case None
    then have "CHR '':'' \<notin> set addr" by (simp add: rfind_char_None)
    then show ?thesis using Some None by (auto simp: attach_interfaces_def)
  next
    case (Some i)
    have "(\<exists>host port. addr = host @ '':'' @ port \<and> CHR '':'' \<notin> set port
        \<and> host \<noteq> [] \<and> host \<noteq> ''0.0.0.0'' \<and> (parse_u16 port = None \<or> parse_u16 port = Some 0))
      \<longleftrightarrow> take i addr \<noteq> [] \<and> take i addr \<noteq> ''0.0.0.0''
          \<and> (parse_u16 (drop (Suc i) addr) = None \<or> parse_u16 (drop (Suc i) addr) = Some 0)"
      by (rule rfind_char_split [OF Some])
    from arg_cong [OF this [symmetric], of "(\<and>) (\<not> auto)"] show ?thesis
      unfolding \<open>tcp = Some addr\<close> attach_at_colon [OF Some] option.inject .
  qed
qed

theorem attach_silent_cases_witness:
  "attach_interfaces (Some (''relay'' @ '':'' @ ''0'')) False = ([], [])"
proof (rule iffD2 [OF attach_silent_cases], rule conjI)
  have "parse_u16 ''0'' = Some 0"
    by (simp add: parse_u16_def parse_unsigned_def digit_val_def is_ascii_digit_def)
  then have "CHR '':'' \<notin> set ''0'' \<and> ''relay'' \<noteq> [] \<and> ''relay'' \<noteq> ''0.0.0.0''
      \<and> (parse_u16 ''0'' = None \<or> parse_u16 ''0'' = Some 0)"
    by simp
  then show "\<exists>host port. Some (''relay'' @ '':'' @ ''0'') = Some (host @ '':'' @ port)
      \<and> CHR '':'' \<notin> set port \<and> host \<noteq> [] \<and> host \<noteq> ''0.0.0.0''
      \<and> (parse_u16 port = None \<or> parse_u16 port = Some 0)"
    by blast
qed simp

text \<open>
  Fact: the cut to the wire budget counts bytes, not characters.  A name
  whose last character starts on the last byte that fits is announced with half of that
  character, and the client shows no name at all.
\<close>

theorem truncated_name_is_lost:
  assumes "length ascii = MAX_ANNOUNCE_APP_DATA_LEN - 1" and "\<forall>b\<in>set (bytes_of ascii). b < 0x80"
    and "trim (ascii @ wide) = ascii @ wide" and "bytes_of wide = [b1, b2]" and "is_char [b1, b2]"
  shows "utf8_valid (bytes_of (ascii @ wide))
     \<and> announce_app_data_to_name (server_announce_app_data (Some (ascii @ wide))) = None"
proof -
  have split: "bytes_of (ascii @ wide) = bytes_of ascii @ [b1, b2]"
    using assms(4) by (simp add: bytes_of_def)
  have valid: "utf8_valid (bytes_of ascii)" using utf8_valid_ascii [OF assms(2)] .
  have "server_announce_name_bytes (Some (ascii @ wide)) = bytes_of ascii @ [b1]"
    using assms(1,3,4) split
    by (auto simp: server_announce_name_bytes_def Let_def max_announce_app_data bytes_of_def)
  moreover have "\<not> utf8_valid (bytes_of ascii @ [b1])"
    using utf8_valid_append [OF valid] char_start_invalid [of "[b1]" "[b2]"] assms(5) by simp
  ultimately show ?thesis
    using utf8_valid_append [OF valid, of "[b1, b2]"] utf8_valid_char [OF assms(5), of "[]"] split
    by (simp add: app_data_is_name_bytes announce_app_data_to_name_def from_utf8_def)
qed

theorem truncated_name_is_lost_witness:
  "announce_app_data_to_name (server_announce_app_data
     (Some (replicate 315 (CHR ''a'') @ str_of [0xC3, 0xA9]))) = None"
proof -
  let ?a = "replicate 315 (CHR ''a'')" and ?w = "str_of [0xC3, 0xA9]"
  have w: "?w = [CHR 0xC3, CHR 0xA9]" by code_simp
  have front: "ws_front (?a @ ?w) = None"
  proof -
    have "?a @ ?w = CHR ''a'' # replicate 314 (CHR ''a'') @ ?w"
      using replicate_Suc [of 314 "CHR ''a''"] by simp
    then show ?thesis by (simp add: ws_front_def ws_strings_def)
  qed
  have no_back: "ws_back (?a @ ?w) = None"
  proof (rule ccontr)
    assume "ws_back (?a @ ?w) \<noteq> None"
    then obtain v t where v: "v \<in> set ws_strings" "?a @ ?w = t @ v" using ws_back_Some by fastforce
    have "last v = last (?a @ ?w)" unfolding v(2) using ws_strings_nonempty [OF v(1)] by simp
    then have "last v = CHR 0xA9" by (simp add: w)
    then have "v = [CHR 0xE2, CHR 0x80, CHR 0xA9]" using v(1) by (auto simp: ws_strings_def)
    then have "(?a @ [CHR 0xC3]) @ [CHR 0xA9] = (t @ [CHR 0xE2, CHR 0x80]) @ [CHR 0xA9]"
      using v(2) w by simp
    then have "?a @ [CHR 0xC3] = (t @ [CHR 0xE2]) @ [CHR 0x80]" by simp
    then show False by simp
  qed
  have "is_char [0xC3, 0xA9]"
    by (simp add: is_char_def utf8_step_def utf8_width_def second_ok_def is_cont_def byte_at_def Let_def)
  moreover have "\<forall>b\<in>set (bytes_of ?a). b < 0x80" by (simp add: bytes_of_def)
  ultimately show ?thesis
    using truncated_name_is_lost [of ?a ?w "0xC3" "0xA9"] trim_id [OF front no_back]
    by (simp add: max_announce_app_data)
qed

end
