(* ===== verification/Bridge_Config.thy ===== *)
theory Bridge_Config
  imports Rust_Str
begin

text \<open>
  The command-line configuration (\<open>src/config.rs\<close>) and the constants of \<open>src/lib.rs\<close>.
  Paths are byte strings; \<open>path_join\<close> is \<open>Path::join\<close> on Unix.
\<close>

type_synonym path = string

definition path_join :: "path \<Rightarrow> path \<Rightarrow> path" where
  "path_join a b =
     (if starts_with b ''/'' then b
      else if a = [] \<or> last a = CHR ''/'' then a @ b
      else a @ ''/'' @ b)"

definition SC_APP_NAME :: string where "SC_APP_NAME = ''sven-coop''"
definition SC_ASPECT_SERVER :: string where "SC_ASPECT_SERVER = ''server''"
definition SC_ASPECT_CLIENT :: string where "SC_ASPECT_CLIENT = ''client''"
definition DEFAULT_LISTEN_PORT :: u16 where "DEFAULT_LISTEN_PORT = 27015"

record server_args =
  sc_port :: u16
  sc_host :: string
  sa_identity :: path
  sa_tcp :: "string option"
  sa_auto :: bool
  announce_interval :: u64
  sa_name :: "string option"

record client_args =
  listen_port :: u16
  server_hash :: "string option"
  ca_identity :: path
  ca_tcp :: "string option"
  ca_auto :: bool

text \<open>The \<open>default_value\<close>s of the two argument structs.\<close>

definition server_args_default :: server_args where
  "server_args_default =
     \<lparr>sc_port = 27015, sc_host = ''127.0.0.1'', sa_identity = ''./sc-rns-server.identity'',
      sa_tcp = None, sa_auto = False, announce_interval = 15, sa_name = None\<rparr>"

definition client_args_default :: client_args where
  "client_args_default =
     \<lparr>listen_port = 27015, server_hash = None, ca_identity = ''./sc-rns-client.identity'',
      ca_tcp = None, ca_auto = False\<rparr>"

datatype cli_role = CliServer server_args | CliClient client_args

datatype bridge_config = ConfigServer server_args | ConfigClient client_args

datatype bridge_role = Server | Client

definition role :: "bridge_config \<Rightarrow> bridge_role" where
  "role cfg = (case cfg of ConfigServer _ \<Rightarrow> Server | ConfigClient _ \<Rightarrow> Client)"

text \<open>The dispatch of \<open>main\<close>.\<close>

definition config_of_cli :: "cli_role \<Rightarrow> bridge_config" where
  "config_of_cli r = (case r of CliServer a \<Rightarrow> ConfigServer a | CliClient a \<Rightarrow> ConfigClient a)"

text \<open>The destination address the server relays to and the address the client binds.\<close>

definition sc_addr_text :: "server_args \<Rightarrow> string" where
  "sc_addr_text a = sc_host a @ '':'' @ show_nat (unat (sc_port a))"

definition listen_addr_text :: "client_args \<Rightarrow> string" where
  "listen_addr_text a = ''127.0.0.1:'' @ show_nat (unat (listen_port a))"

lemma role_config_of_cli [simp]:
  "role (config_of_cli (CliServer a)) = Server" "role (config_of_cli (CliClient b)) = Client"
  by (simp_all add: role_def config_of_cli_def)

lemma sc_addr_port: "rfind_char (CHR '':'') (sc_addr_text a) = Some (length (sc_host a))"
proof -
  have "CHR '':'' \<notin> set (show_nat (unat (sc_port a)))"
    using show_nat_digits [of "CHR '':''" "unat (sc_port a)"] by (auto simp: is_ascii_digit_def)
  then show ?thesis by (simp add: sc_addr_text_def rfind_char_append)
qed

end
