(* ===== verification/Relay_Common.thy ===== *)
theory Relay_Common
  imports Framing Announce Bridge_Config
begin

text \<open>
  What the server and the client relay of \<open>src/relay.rs\<close> share: the commands issued to
  the engine, the loop that frames a datagram and issues its chunks, and the invariant of
  a pump (a bounded channel of chunks, a reassembler and the datagrams it has put out).
\<close>

definition UDP_READ_BUF :: nat where "UDP_READ_BUF = 8192"
definition RELAY_QUEUE :: nat where "RELAY_QUEUE = 256"

datatype engine_command =
  SendToLink link_id bytes
| CloseLink link_id
| AnnounceNow destination_hash bytes

subsection \<open>Sending one framed datagram\<close>

text \<open>
  The loop over \<open>frame(datagram)\<close> with \<open>SendToLinkPayload::from_slice(..).expect(..)\<close>
  and \<open>handle.issue(..)\<close>.  The engine accepts \<open>k\<close> more commands; after that \<open>issue\<close>
  returns \<open>None\<close> and the loop returns.
\<close>

datatype send_outcome = AllSent | NodeStopped | PayloadPanic

fun issue_frames :: "nat \<Rightarrow> link_id \<Rightarrow> bytes list \<Rightarrow> engine_command list \<times> send_outcome" where
  "issue_frames k l [] = ([], AllSent)"
| "issue_frames k l (c # cs) =
     (case heapless_from_slice MAX_SEND_TO_LINK_PLAINTEXT_LEN c of
        None \<Rightarrow> ([], PayloadPanic)
      | Some payload \<Rightarrow>
          (case k of
             0 \<Rightarrow> ([], NodeStopped)
           | Suc k' \<Rightarrow>
               (case issue_frames k' l cs of (cmds, out) \<Rightarrow> (SendToLink l payload # cmds, out))))"

lemma issue_frames_all:
  assumes "\<forall>c\<in>set cs. length c \<le> MAX_SEND_TO_LINK_PLAINTEXT_LEN" and "length cs \<le> k"
  shows "issue_frames k l cs = (map (SendToLink l) cs, AllSent)"
  using assms
proof (induction cs arbitrary: k)
  case (Cons c cs)
  then obtain k' where "k = Suc k'" by (cases k) auto
  then show ?case using Cons by (simp add: heapless_from_slice_def)
qed simp

lemma issue_frames_some:
  assumes "\<forall>c\<in>set cs. length c \<le> MAX_SEND_TO_LINK_PLAINTEXT_LEN"
  shows "issue_frames k l cs =
     (map (SendToLink l) (take k cs), if length cs \<le> k then AllSent else NodeStopped)"
  using assms
proof (induction cs arbitrary: k)
  case (Cons c cs)
  then show ?case by (cases k) (auto simp: heapless_from_slice_def)
qed simp

lemma frame_fits_link:
  "c \<in> set (frame d) \<Longrightarrow> length c \<le> MAX_SEND_TO_LINK_PLAINTEXT_LEN"
  using frame_chunk_bounds [of c d] by (simp add: max_send_to_link MAX_CHUNK_def)

lemma issue_frame:
  "issue_frames k l (frame d) =
     (map (SendToLink l) (take k (frame d)), if length (frame d) \<le> k then AllSent else NodeStopped)"
  using issue_frames_some frame_fits_link by blast

lemma frame_short: "d \<noteq> [] \<Longrightarrow> length d \<le> MAX_CHUNK \<Longrightarrow> frame d = [FLAG_FINAL # d]"
  by (simp add: frame_chunks chunks_of_short)

subsection \<open>Logs\<close>

text \<open>The part of a log that belongs to one key: a task, a peer or a link.\<close>

definition of_id :: "'k \<Rightarrow> ('k \<times> 'a) list \<Rightarrow> 'a list" where
  "of_id i xs = map snd (filter (\<lambda>p. fst p = i) xs)"

lemma of_id_simps [simp]:
  "of_id i [] = []"
  "of_id i (xs @ ys) = of_id i xs @ of_id i ys"
  "of_id i ((j, x) # xs) = (if i = j then x # of_id i xs else of_id i xs)"
  by (simp_all add: of_id_def)

text \<open>Chunks that carry data; the empty chunk is the shutdown sentinel.\<close>

definition nonempty :: "bytes list \<Rightarrow> bytes list" where
  "nonempty cs = filter (\<lambda>c. c \<noteq> []) cs"

lemma nonempty_append [simp]: "nonempty (xs @ ys) = nonempty xs @ nonempty ys"
  by (simp add: nonempty_def)

lemma nonempty_Nil [simp]: "nonempty [] = []"
  by (simp add: nonempty_def)

lemma nonempty_one: "subseq (nonempty [c]) [c]"
  by (simp add: nonempty_def)

subsection \<open>Pumps\<close>

text \<open>
  Of the chunks accepted into a pump's channel a part is consumed; what was put out is
  what a fresh reassembler makes of that part (an initial part of it once the pump has
  stopped), and while the pump runs the rest is exactly what is queued.
\<close>

definition pump_ok ::
  "bytes list \<Rightarrow> bytes list \<Rightarrow> bytes list \<Rightarrow> reassembler \<Rightarrow> bool \<Rightarrow> bool" where
  "pump_ok acc sent queue reasm running \<longleftrightarrow>
     length queue \<le> RELAY_QUEUE \<and>
     (\<exists>consumed rest. acc = consumed @ rest
        \<and> prefix sent (snd (push_all reassembler_default consumed))
        \<and> (running \<longrightarrow> rest = queue \<and> push_all reassembler_default consumed = (reasm, sent)))"

lemma pump_ok_start: "pump_ok [] [] [] reassembler_default True"
  by (simp add: pump_ok_def)

lemma pump_ok_end: "pump_ok acc sent queue reasm running \<Longrightarrow> pump_ok acc sent [] reasm' False"
  by (auto simp: pump_ok_def)

lemma pump_ok_enqueue:
  "pump_ok acc sent queue reasm True \<Longrightarrow> length queue < RELAY_QUEUE \<Longrightarrow>
   pump_ok (acc @ [c]) sent (queue @ [c]) reasm True"
  by (auto simp: pump_ok_def)

text \<open>Taking the first chunk off the queue, with what the reassembler makes of it.\<close>

lemma pump_ok_dequeue:
  assumes "pump_ok acc sent (c # rest) reasm0 True" and "push reasm0 c = (reasm, out)"
  shows "pump_ok acc (sent @ (case out of None \<Rightarrow> [] | Some d \<Rightarrow> [d])) rest reasm True"
proof -
  obtain consumed where c: "acc = consumed @ c # rest"
    "push_all reassembler_default consumed = (reasm0, sent)"
    using assms by (auto simp: pump_ok_def)
  have "push_all reassembler_default (consumed @ [c]) =
      (reasm, sent @ (case out of None \<Rightarrow> [] | Some d \<Rightarrow> [d]))"
    using c(2) assms(2) by (simp add: push_all_append)
  moreover have "acc = (consumed @ [c]) @ rest" using c(1) by simp
  moreover have "length rest \<le> RELAY_QUEUE" using assms by (simp add: pump_ok_def)
  ultimately show ?thesis unfolding pump_ok_def
    by (intro conjI exI [of _ "consumed @ [c]"] exI [of _ rest]) simp_all
qed

lemma pump_ok_sent:
  "pump_ok acc sent queue reasm running \<Longrightarrow> prefix sent (snd (push_all reassembler_default acc))"
  unfolding pump_ok_def using framing.run_prefix by (metis prefixI prefix_order.trans)

text \<open>What a pump puts out when its chunks are the framing of datagrams.\<close>

lemma pump_stream:
  assumes "prefix sent (snd (push_all reassembler_default acc))"
    and "prefix (nonempty acc) (concat (map frame ds))" and "\<forall>d\<in>set ds. length d \<le> 65535"
  shows "prefix sent ds"
proof -
  have "prefix (snd (push_all reassembler_default (nonempty acc))) ds"
    using framing.run_stream_prefix [of ds] assms(2,3) by blast
  then show ?thesis
    using assms(1) by (metis nonempty_def prefix_order.trans push_all_nonempty)
qed

subsection \<open>Uplinks\<close>

text \<open>The payloads a sequence of commands carries, and the link a command is for.\<close>

fun payloads :: "engine_command list \<Rightarrow> bytes list" where
  "payloads [] = []"
| "payloads (SendToLink l c # cmds) = c # payloads cmds"
| "payloads (_ # cmds) = payloads cmds"

lemma payloads_append [simp]: "payloads (xs @ ys) = payloads xs @ payloads ys"
  by (induction xs rule: payloads.induct) simp_all

lemma payloads_sends [simp]: "payloads (map (SendToLink l) cs) = cs"
  by (induction cs) simp_all

fun targets_link :: "link_id \<Rightarrow> engine_command \<Rightarrow> bool" where
  "targets_link l (SendToLink m _) = (m = l)"
| "targets_link l (CloseLink m) = (m = l)"
| "targets_link l (AnnounceNow _ _) = False"

text \<open>
  A first packet and the packets consumed from a channel are framed one after the other;
  while the task runs the rest is exactly what is queued.
\<close>

definition uplink_ok ::
  "bytes \<Rightarrow> bytes list \<Rightarrow> bytes list \<Rightarrow> bytes list \<Rightarrow> bool \<Rightarrow> bool" where
  "uplink_ok pkt taken sent queue running \<longleftrightarrow>
     length queue \<le> RELAY_QUEUE \<and>
     (\<exists>consumed rest. taken = consumed @ rest
        \<and> prefix sent (concat (map frame (pkt # consumed)))
        \<and> (running \<longrightarrow> rest = queue \<and> sent = concat (map frame (pkt # consumed))))"

lemma uplink_ok_start: "uplink_ok pkt [] (frame pkt) [] True"
  by (simp add: uplink_ok_def)

lemma uplink_ok_partial: "prefix sent (frame pkt) \<Longrightarrow> uplink_ok pkt [] sent [] False"
  by (simp add: uplink_ok_def)

lemma uplink_ok_end: "uplink_ok pkt taken sent queue running \<Longrightarrow> uplink_ok pkt taken sent [] False"
  by (auto simp: uplink_ok_def)

lemma uplink_ok_enqueue:
  "uplink_ok pkt taken sent queue running \<Longrightarrow> length queue < RELAY_QUEUE \<Longrightarrow>
   uplink_ok pkt (taken @ [p]) sent (queue @ [p]) running"
  unfolding uplink_ok_def by (metis Suc_leI append.assoc length_append_singleton)

text \<open>One packet is taken off the queue and the first \<open>k\<close> of its chunks are issued.\<close>

lemma uplink_ok_send:
  assumes "uplink_ok pkt taken sent (p # queue) True"
  shows "uplink_ok pkt taken (sent @ take k (frame p)) [] False"
    and "length (frame p) \<le> k \<Longrightarrow> uplink_ok pkt taken (sent @ take k (frame p)) queue True"
proof -
  obtain consumed where c: "taken = (consumed @ [p]) @ queue"
    "sent = concat (map frame (pkt # consumed))" "length (p # queue) \<le> RELAY_QUEUE"
    using assms by (auto simp: uplink_ok_def)
  have "prefix (sent @ take k (frame p)) (concat (map frame (pkt # consumed @ [p])))"
    by (simp add: c(2) take_is_prefix)
  then show "uplink_ok pkt taken (sent @ take k (frame p)) [] False"
    unfolding uplink_ok_def using c(1)
    by (intro conjI exI [of _ "consumed @ [p]"] exI [of _ queue]) auto
  assume "length (frame p) \<le> k"
  then have "sent @ take k (frame p) = concat (map frame (pkt # consumed @ [p]))"
    by (simp add: c(2))
  then show "uplink_ok pkt taken (sent @ take k (frame p)) queue True"
    unfolding uplink_ok_def using c(1,3) by (intro conjI exI [of _ "consumed @ [p]"] exI [of _ queue]) auto
qed

lemma uplink_ok_sent:
  "uplink_ok pkt taken sent queue running \<Longrightarrow> prefix sent (concat (map frame (pkt # taken)))"
  unfolding uplink_ok_def by (auto intro: prefix_order.trans)

end
