(* ===== verification/Link_Channel.thy ===== *)
theory Link_Channel
  imports Relay_Common "HOL-Library.Multiset"
begin

text \<open>
  One direction of a link between two nodes: what has been handed to the engine on it, what is
  under way and what the other end has taken.  The engine may lose and reorder what is under
  way, and the other end may refuse a chunk (a full queue); it does not alter or invent chunks.
\<close>

record channel =
  put :: "bytes list"
  flight :: "bytes list"
  got :: "bytes list"
  intact :: bool

definition channel_new :: channel where
  "channel_new = \<lparr>put = [], flight = [], got = [], intact = True\<rparr>"

definition channel_put :: "bytes list \<Rightarrow> channel \<Rightarrow> channel" where
  "channel_put cs k = k\<lparr>put := put k @ cs, flight := flight k @ cs\<rparr>"

definition channel_take :: "bool \<Rightarrow> channel \<Rightarrow> channel" where
  "channel_take taken k =
     (case flight k of [] \<Rightarrow> k
      | c # cs \<Rightarrow> k\<lparr>flight := cs, got := (if taken then got k @ [c] else got k), intact := (intact k \<and> taken)\<rparr>)"

definition channel_disturb :: "bytes list \<Rightarrow> channel \<Rightarrow> channel option" where
  "channel_disturb cs k = (if mset cs \<subseteq># mset (flight k) then Some (k\<lparr>flight := cs, intact := False\<rparr>) else None)"

text \<open>What a channel promises: nothing is made up, and as long as it is intact nothing is missing.\<close>

definition channel_ok :: "channel \<Rightarrow> bool" where
  "channel_ok k \<longleftrightarrow> mset (got k) + mset (flight k) \<subseteq># mset (put k) \<and> (intact k \<longrightarrow> got k @ flight k = put k)
     \<and> [] \<notin> set (put k)"

lemma channel_ok_new: "channel_ok channel_new"
  by (simp add: channel_ok_def channel_new_def)

lemma channel_ok_put: "channel_ok k \<Longrightarrow> [] \<notin> set cs \<Longrightarrow> channel_ok (channel_put cs k)"
  by (auto simp: channel_ok_def channel_put_def add.assoc [symmetric] subset_mset.add_right_mono)

lemma channel_ok_take: "channel_ok k \<Longrightarrow> channel_ok (channel_take taken k)"
  by (auto simp: channel_ok_def channel_take_def split: list.split intro: subset_mset.order_trans [rotated])

lemma channel_ok_disturb: "channel_disturb cs k = Some k' \<Longrightarrow> channel_ok k \<Longrightarrow> channel_ok k'"
  unfolding channel_ok_def channel_disturb_def
  by (auto split: if_splits intro: subset_mset.order_trans [OF subset_mset.add_left_mono])

lemma channel_put_sel [simp]:
  "put (channel_put cs k) = put k @ cs" "flight (channel_put cs k) = flight k @ cs"
  "got (channel_put cs k) = got k" "intact (channel_put cs k) = intact k"
  by (simp_all add: channel_put_def)

lemma channel_put_Nil [simp]: "channel_put [] k = k"
  by (simp add: channel_put_def)

lemma channel_take_sel [simp]:
  "put (channel_take taken k) = put k"
  "flight k = c # cs \<Longrightarrow> flight (channel_take taken k) = cs"
  "flight k = c # cs \<Longrightarrow> got (channel_take taken k) = (if taken then got k @ [c] else got k)"
  by (simp_all add: channel_take_def split: list.split)

lemma channel_disturb_sel:
  "channel_disturb cs k = Some k' \<Longrightarrow> put k' = put k \<and> got k' = got k"
  by (auto simp: channel_disturb_def split: if_splits)

lemma channel_got_prefix: "channel_ok k \<Longrightarrow> intact k \<Longrightarrow> prefix (got k) (put k)"
  by (auto simp: channel_ok_def prefix_def dest: sym)

lemma channel_got_mset: "channel_ok k \<Longrightarrow> mset (got k) \<subseteq># mset (put k)"
  by (auto simp: channel_ok_def intro: subset_mset.order_trans [rotated])

lemma channel_got_data: "channel_ok k \<Longrightarrow> [] \<notin> set (got k)"
  using set_mset_mono [OF channel_got_mset [of k]] by (auto simp: channel_ok_def)

lemma channel_next_data: "channel_ok k \<Longrightarrow> flight k = c # cs \<Longrightarrow> c \<noteq> []"
  by (auto simp: channel_ok_def dest!: set_mset_mono)

subsection \<open>Datagrams of one chunk\<close>

lemma frame_one: "length d \<le> MAX_CHUNK \<Longrightarrow> frame d = [FLAG_FINAL # d]"
  by (simp add: frame_chunks chunks_of_short)

lemma frames_one: "\<forall>d\<in>set ds. length d \<le> MAX_CHUNK \<Longrightarrow> concat (map frame ds) = map (Cons FLAG_FINAL) ds"
  by (induction ds) (simp_all add: frame_one)

lemma push_all_one:
  "\<forall>d\<in>set ds. length d \<le> MAX_CHUNK \<Longrightarrow> push_all reassembler_default (map (Cons FLAG_FINAL) ds) = (reassembler_default, ds)"
  using framing.run_stream [of ds] by (fastforce simp: frames_one MAX_CHUNK_def)

text \<open>
  Whatever part of the chunks arrives, and in whatever order, a pump puts out only whole datagrams,
  each at most as often as it was framed.
\<close>

lemma pump_lossy:
  assumes "prefix out (snd (push_all reassembler_default acc))"
    and "mset (nonempty acc) \<subseteq># mset (concat (map frame ds))" and "\<forall>d\<in>set ds. length d \<le> MAX_CHUNK"
  shows "mset out \<subseteq># mset ds"
proof -
  let ?es = "map tl (nonempty acc)"
  have sub: "mset (nonempty acc) \<subseteq># image_mset (Cons FLAG_FINAL) (mset ds)"
    using assms(2) frames_one [OF assms(3)] by simp
  have each: "\<exists>d\<in>set ds. c = FLAG_FINAL # d" if "c \<in> set (nonempty acc)" for c
    using set_mset_mono [OF sub] that by auto
  have acc: "nonempty acc = map (Cons FLAG_FINAL) ?es"
    unfolding map_map by (rule map_idI [symmetric]) (use each in fastforce)
  have "\<forall>d\<in>set ?es. length d \<le> MAX_CHUNK" using each assms(3) by fastforce
  then have "snd (push_all reassembler_default acc) = ?es"
    using push_all_one [of ?es] acc push_all_nonempty [of reassembler_default acc] by (simp add: nonempty_def)
  then obtain rest where "?es = out @ rest" using assms(1) by (auto simp: prefix_def)
  then have "mset out \<subseteq># mset ?es" by (simp only: mset_append mset_subset_eq_add_left)
  also have "mset ?es \<subseteq># mset ds"
    using image_mset_subseteq_mono [OF sub, of tl] by (simp add: multiset.map_comp comp_def)
  finally show ?thesis .
qed

end
