(* ===== verification/Server_Relay.thy ===== *)
theory Server_Relay
  imports Relay_Common
begin

text \<open>
  The server side of the bridge (\<open>BridgeSession::start_server\<close> in \<open>src/relay.rs\<close>): the
  event router and, per accepted link, a relay of two pump tasks between the link and a
  UDP socket to the Sven Co-op server.

  All tasks run on one current-thread runtime, so the code between two \<open>.await\<close> points
  is one atomic action of the model; an \<open>server_action\<close> names the task that runs and
  what its environment answers (the event received, the outcome of a socket call, how
  many commands the engine accepts before its channel is closed).  \<open>server_step\<close> is
  \<open>None\<close> when the task cannot run.  The state keeps the shared tables of the code plus
  two logs: the commands issued to the engine and the datagrams handed to the socket.
\<close>

subsection \<open>State\<close>

datatype relay_phase = Binding | Connecting | Aborting | Joined | Ended

fun phase_rank :: "relay_phase \<Rightarrow> nat" where
  "phase_rank Binding = 0"
| "phase_rank Connecting = 1"
| "phase_rank Aborting = 2"
| "phase_rank Joined = 3"
| "phase_rank Ended = 4"

lemma phase_rank_inj: "phase_rank a = phase_rank b \<Longrightarrow> a = b"
  by (cases a; cases b) simp_all

text \<open>The order in which a relay goes through its phases (it is aborted or joined, never both).\<close>

instantiation relay_phase :: linorder
begin

definition less_eq_relay_phase :: "relay_phase \<Rightarrow> relay_phase \<Rightarrow> bool" where
  "less_eq_relay_phase a b \<longleftrightarrow> phase_rank a \<le> phase_rank b"

definition less_relay_phase :: "relay_phase \<Rightarrow> relay_phase \<Rightarrow> bool" where
  "less_relay_phase a b \<longleftrightarrow> phase_rank a < phase_rank b"

instance
  by standard (auto simp: less_eq_relay_phase_def less_relay_phase_def dest: phase_rank_inj)

end

record relay =
  r_link :: link_id
  r_phase :: relay_phase
  r_queue :: "bytes list"
  r_reasm :: reassembler
  r_to_sc :: bool
  r_from_sc :: bool

datatype router_state = RouterIdle | RouterClosing link_id nat

record server_state =
  relays :: "nat \<rightharpoonup> relay"
  next_relay :: nat
  senders :: "link_id \<rightharpoonup> nat"
  connected_clients :: "link_id \<rightharpoonup> identity_hash"
  discovered :: "discovered_server list"
  router :: router_state
  commands :: "engine_command list"
  sc_sent :: "(nat \<times> bytes) list"
  accepted :: "(nat \<times> bytes) list"

text \<open>
  \<open>commands\<close> and \<open>sc_sent\<close> are the effects in the order they happen; \<open>accepted\<close> is a
  history variable of the proof, the chunks put into each relay's queue.
\<close>

definition server_init :: server_state where
  "server_init =
     \<lparr>relays = Map.empty, next_relay = 0, senders = Map.empty, connected_clients = Map.empty,
      discovered = [], router = RouterIdle, commands = [], sc_sent = [], accepted = []\<rparr>"

subsection \<open>The event router\<close>

text \<open>Putting a chunk into a relay's queue; only done when it has room.\<close>

definition enqueue :: "nat \<Rightarrow> bytes \<Rightarrow> relay \<Rightarrow> server_state \<Rightarrow> server_state" where
  "enqueue rid chunk r s =
     s\<lparr>relays := (relays s)(rid \<mapsto> r\<lparr>r_queue := r_queue r @ [chunk]\<rparr>),
       accepted := accepted s @ [(rid, chunk)]\<rparr>"

definition new_relay :: "link_id \<Rightarrow> relay" where
  "new_relay l =
     \<lparr>r_link = l, r_phase = Binding, r_queue = [], r_reasm = reassembler_default,
      r_to_sc = True, r_from_sc = True\<rparr>"

text \<open>
  One iteration of the router loop.  \<open>LinkClosed\<close> takes the sender out of the table and
  then awaits room in its queue for the empty sentinel, with the table's write guard
  still held; the rest of that arm is \<open>route_sentinel\<close>.
\<close>

definition route :: "nat \<Rightarrow> bridge_event \<Rightarrow> server_state \<Rightarrow> server_state" where
  "route now ev s =
     (case ev of
        AnnounceHeard destination name \<Rightarrow>
          s\<lparr>discovered := remember_server now destination name (discovered s)\<rparr>
      | PeerIdentified l identity \<Rightarrow>
          s\<lparr>connected_clients := (connected_clients s)(l \<mapsto> identity)\<rparr>
      | LinkEstablished l \<Rightarrow>
          (if senders s l \<noteq> None then s
           else s\<lparr>senders := (senders s)(l \<mapsto> next_relay s),
                  relays := (relays s)(next_relay s \<mapsto> new_relay l),
                  next_relay := Suc (next_relay s)\<rparr>)
      | LinkClosed l \<Rightarrow>
          (case senders s l of
             Some rid \<Rightarrow> s\<lparr>senders := (senders s)(l := None), router := RouterClosing l rid\<rparr>
           | None \<Rightarrow> s\<lparr>connected_clients := (connected_clients s)(l := None)\<rparr>)
      | LinkData l bytes \<Rightarrow>
          (case senders s l of
             None \<Rightarrow> s
           | Some rid \<Rightarrow>
               (case relays s rid of
                  None \<Rightarrow> s
                | Some r \<Rightarrow> if r_to_sc r \<and> length (r_queue r) < RELAY_QUEUE
                            then enqueue rid bytes r s else s)))"

definition route_sentinel :: "link_id \<Rightarrow> nat \<Rightarrow> server_state \<Rightarrow> server_state option" where
  "route_sentinel l rid s =
     (let finish = (\<lambda>s. s\<lparr>connected_clients := (connected_clients s)(l := None), router := RouterIdle\<rparr>)
      in case relays s rid of
           None \<Rightarrow> Some (finish s)
         | Some r \<Rightarrow>
             (if \<not> r_to_sc r then Some (finish s)
              else if length (r_queue r) < RELAY_QUEUE then Some (finish (enqueue rid [] r s))
              else None))"

subsection \<open>The relay tasks\<close>

definition set_relay :: "nat \<Rightarrow> relay \<Rightarrow> server_state \<Rightarrow> server_state" where
  "set_relay rid r s = s\<lparr>relays := (relays s)(rid \<mapsto> r)\<rparr>"

text \<open>\<open>UdpSocket::bind\<close>, then \<open>connect\<close>; a failure leads to the early return.\<close>

definition relay_bind :: "nat \<Rightarrow> bool \<Rightarrow> relay \<Rightarrow> server_state \<Rightarrow> server_state option" where
  "relay_bind rid ok r s =
     (if r_phase r = Binding
      then Some (set_relay rid (r\<lparr>r_phase := if ok then Connecting else Aborting\<rparr>) s) else None)"

definition relay_connect :: "nat \<Rightarrow> bool \<Rightarrow> relay \<Rightarrow> server_state \<Rightarrow> server_state option" where
  "relay_connect rid ok r s =
     (if r_phase r = Connecting
      then Some (set_relay rid (r\<lparr>r_phase := if ok then Joined else Aborting\<rparr>) s) else None)"

text \<open>
  One chunk through the \<open>to_sc\<close> task.  An empty chunk, a failed send or a closed and
  drained queue ends the loop, which drops the receiver with what is still queued.
\<close>

definition end_to_sc :: "relay \<Rightarrow> relay" where
  "end_to_sc r = r\<lparr>r_to_sc := False, r_queue := []\<rparr>"

definition to_sc :: "nat \<Rightarrow> bool \<Rightarrow> relay \<Rightarrow> server_state \<Rightarrow> server_state option" where
  "to_sc rid send_ok r s =
     (if r_phase r \<noteq> Joined \<or> \<not> r_to_sc r then None
      else case r_queue r of
        [] \<Rightarrow> (if senders s (r_link r) = Some rid \<or> router s = RouterClosing (r_link r) rid then None
               else Some (set_relay rid (end_to_sc r) s))
      | chunk # rest \<Rightarrow>
          (if chunk = [] then Some (set_relay rid (end_to_sc r) s)
           else case push (r_reasm r) chunk of
             (reasm, None) \<Rightarrow> Some (set_relay rid (r\<lparr>r_queue := rest, r_reasm := reasm\<rparr>) s)
           | (reasm, Some datagram) \<Rightarrow>
               (if send_ok
                then Some ((set_relay rid (r\<lparr>r_queue := rest, r_reasm := reasm\<rparr>) s)
                             \<lparr>sc_sent := sc_sent s @ [(rid, datagram)]\<rparr>)
                else Some (set_relay rid (end_to_sc (r\<lparr>r_reasm := reasm\<rparr>)) s))))"

text \<open>
  One \<open>recv\<close> of the \<open>from_sc\<close> task: a datagram (cut to the read buffer by the socket)
  is framed and issued, an empty one is skipped, an error ends the loop.
\<close>

datatype udp_result = UdpOk bytes | UdpErr

definition from_sc :: "nat \<Rightarrow> udp_result \<Rightarrow> nat \<Rightarrow> relay \<Rightarrow> server_state \<Rightarrow> server_state option" where
  "from_sc rid res k r s =
     (if r_phase r \<noteq> Joined \<or> \<not> r_from_sc r then None
      else case res of
        UdpErr \<Rightarrow> Some (set_relay rid (r\<lparr>r_from_sc := False\<rparr>) s)
      | UdpOk wire \<Rightarrow>
          (let datagram = take UDP_READ_BUF wire
           in if datagram = [] then Some s
              else case issue_frames k (r_link r) (frame datagram) of
                (cmds, AllSent) \<Rightarrow> Some (s\<lparr>commands := commands s @ cmds\<rparr>)
              | (cmds, _) \<Rightarrow>
                  Some ((set_relay rid (r\<lparr>r_from_sc := False\<rparr>) s)
                          \<lparr>commands := commands s @ cmds\<rparr>)))"

text \<open>
  The end of the relay task, after \<open>join!\<close> or on the early return: it waits for the
  sender table (the router may hold it), removes the link's entry and closes the link.
\<close>

definition relay_end :: "nat \<Rightarrow> relay \<Rightarrow> server_state \<Rightarrow> server_state option" where
  "relay_end rid r s =
     (if router s = RouterIdle \<and>
         (r_phase r = Aborting \<or> (r_phase r = Joined \<and> \<not> r_to_sc r \<and> \<not> r_from_sc r))
      then Some ((set_relay rid ((end_to_sc r)\<lparr>r_phase := Ended, r_from_sc := False\<rparr>) s)
                   \<lparr>senders := (senders s)(r_link r := None),
                    commands := commands s @ [CloseLink (r_link r)]\<rparr>)
      else None)"

datatype server_action =
  Route nat bridge_event
| RouteSentinel
| RelayBind nat bool
| RelayConnect nat bool
| ToSc nat bool
| FromSc nat udp_result nat
| RelayEnd nat

definition with_relay ::
  "nat \<Rightarrow> server_state \<Rightarrow> (relay \<Rightarrow> server_state \<Rightarrow> server_state option) \<Rightarrow> server_state option" where
  "with_relay rid s f = (case relays s rid of None \<Rightarrow> None | Some r \<Rightarrow> f r s)"

fun server_step :: "server_state \<Rightarrow> server_action \<Rightarrow> server_state option" where
  "server_step s (Route now ev) = (if router s = RouterIdle then Some (route now ev s) else None)"
| "server_step s RouteSentinel =
     (case router s of RouterIdle \<Rightarrow> None | RouterClosing l rid \<Rightarrow> route_sentinel l rid s)"
| "server_step s (RelayBind rid ok) = with_relay rid s (relay_bind rid ok)"
| "server_step s (RelayConnect rid ok) = with_relay rid s (relay_connect rid ok)"
| "server_step s (ToSc rid send_ok) = with_relay rid s (to_sc rid send_ok)"
| "server_step s (FromSc rid res k) = with_relay rid s (from_sc rid res k)"
| "server_step s (RelayEnd rid) = with_relay rid s (relay_end rid)"

inductive server_run :: "server_state \<Rightarrow> server_action list \<Rightarrow> server_state \<Rightarrow> bool" where
  run_Nil: "server_run s [] s"
| run_Cons: "server_step s a = Some t \<Longrightarrow> server_run t as u \<Longrightarrow> server_run s (a # as) u"

text \<open>The same runs as a function, for evaluating concrete ones.\<close>

fun server_exec :: "server_state \<Rightarrow> server_action list \<Rightarrow> server_state option" where
  "server_exec s [] = Some s"
| "server_exec s (a # as) =
     (case server_step s a of None \<Rightarrow> None | Some t \<Rightarrow> server_exec t as)"

subsection \<open>The announcer task\<close>

definition announcer_period :: "server_args \<Rightarrow> u64" where
  "announcer_period args = max (announce_interval args) 1"

text \<open>
  After the first tick, one announce per tick until \<open>issue\<close> reports that the node is
  gone; the list says what \<open>issue\<close> answers at each tick.
\<close>

fun announcer_loop :: "destination_hash \<Rightarrow> bytes \<Rightarrow> bool list \<Rightarrow> engine_command list" where
  "announcer_loop h d [] = []"
| "announcer_loop h d (up # ticks) =
     (if up then AnnounceNow h d # announcer_loop h d ticks else [])"

subsection \<open>Delivery invariant\<close>

text \<open>
  A relay has consumed some of the chunks accepted for it; what reached the socket is the
  output of a fresh reassembler on those chunks (a prefix of it once the pump stopped).
\<close>

definition relay_ok :: "bytes list \<Rightarrow> bytes list \<Rightarrow> relay \<Rightarrow> bool" where
  "relay_ok acc sent r \<longleftrightarrow> pump_ok acc sent (r_queue r) (r_reasm r) (r_to_sc r)"

definition server_inv :: "server_state \<Rightarrow> bool" where
  "server_inv s \<longleftrightarrow>
     (\<forall>rid r. relays s rid = Some r \<longrightarrow>
        rid < next_relay s \<and> relay_ok (of_id rid (accepted s)) (of_id rid (sc_sent s)) r)
     \<and> (\<forall>rid. relays s rid = None \<longrightarrow> of_id rid (accepted s) = [] \<and> of_id rid (sc_sent s) = [])
     \<and> (\<forall>l rid. senders s l = Some rid \<longrightarrow> (\<exists>r. relays s rid = Some r \<and> r_link r = l))
     \<and> (\<forall>l rid. router s = RouterClosing l rid \<longrightarrow> (\<exists>r. relays s rid = Some r \<and> r_link r = l))"

lemma server_inv_init: "server_inv server_init"
  by (simp add: server_inv_def server_init_def)

text \<open>A step that touches one existing relay keeps the invariant if it keeps that relay's part.\<close>

lemma server_inv_relay:
  assumes "server_inv s" and "relays s rid = Some r"
    and "relays t = (relays s)(rid \<mapsto> r')" and "r_link r' = r_link r"
    and "next_relay t = next_relay s"
    and "\<And>j. j \<noteq> rid \<Longrightarrow> of_id j (accepted t) = of_id j (accepted s)"
    and "\<And>j. j \<noteq> rid \<Longrightarrow> of_id j (sc_sent t) = of_id j (sc_sent s)"
    and "relay_ok (of_id rid (accepted t)) (of_id rid (sc_sent t)) r'"
    and "\<And>l i. senders t l = Some i \<Longrightarrow> senders s l = Some i"
    and "\<And>l i. router t = RouterClosing l i \<Longrightarrow> router s = RouterClosing l i"
  shows "server_inv t"
  using assms unfolding server_inv_def
  by (auto split: if_splits) (metis option.inject)+

lemma relay_ok_end: "relay_ok acc sent r \<Longrightarrow> relay_ok acc sent (end_to_sc r)"
  by (simp add: relay_ok_def end_to_sc_def pump_ok_end)

lemma relay_ok_phase [simp]:
  "relay_ok acc sent (r\<lparr>r_phase := p\<rparr>) = relay_ok acc sent r"
  "relay_ok acc sent (r\<lparr>r_from_sc := b\<rparr>) = relay_ok acc sent r"
  by (simp_all add: relay_ok_def)

lemma relay_ok_enqueue:
  "relay_ok acc sent r \<Longrightarrow> r_to_sc r \<Longrightarrow> length (r_queue r) < RELAY_QUEUE \<Longrightarrow>
   relay_ok (acc @ [c]) sent (r\<lparr>r_queue := r_queue r @ [c]\<rparr>)"
  by (simp add: relay_ok_def pump_ok_enqueue)

lemma relay_ok_dequeue:
  "relay_ok acc sent r \<Longrightarrow> r_to_sc r \<Longrightarrow> r_queue r = c # rest \<Longrightarrow> push (r_reasm r) c = (reasm, out) \<Longrightarrow>
   relay_ok acc (sent @ (case out of None \<Rightarrow> [] | Some d \<Rightarrow> [d])) (r\<lparr>r_queue := rest, r_reasm := reasm\<rparr>)"
  by (simp add: relay_ok_def pump_ok_dequeue)

lemma relay_ok_send_failed:
  "relay_ok acc sent r \<Longrightarrow> relay_ok acc sent (end_to_sc (r\<lparr>r_reasm := reasm\<rparr>))"
  by (simp add: relay_ok_def end_to_sc_def pump_ok_end)

lemma server_inv_frame:
  assumes "server_inv s" and "relays t = relays s" and "next_relay t = next_relay s"
    and "accepted t = accepted s" and "sc_sent t = sc_sent s"
    and "\<And>l i. senders t l = Some i \<Longrightarrow> senders s l = Some i"
    and "\<And>l i. router t = RouterClosing l i \<Longrightarrow>
           router s = RouterClosing l i \<or> senders s l = Some i"
  shows "server_inv t"
  using assms unfolding server_inv_def by metis

lemma server_inv_relay_ok:
  "server_inv s \<Longrightarrow> relays s rid = Some r \<Longrightarrow>
   relay_ok (of_id rid (accepted s)) (of_id rid (sc_sent s)) r"
  by (simp add: server_inv_def)

lemma enqueue_inv:
  assumes "server_inv s" and "relays s rid = Some r" and "r_to_sc r"
    and "length (r_queue r) < RELAY_QUEUE"
  shows "server_inv (enqueue rid c r s)"
  using assms(1,2)
proof (rule server_inv_relay)
  show "relays (enqueue rid c r s) = (relays s)(rid \<mapsto> r\<lparr>r_queue := r_queue r @ [c]\<rparr>)"
    by (simp add: enqueue_def)
  show "relay_ok (of_id rid (accepted (enqueue rid c r s))) (of_id rid (sc_sent (enqueue rid c r s)))
      (r\<lparr>r_queue := r_queue r @ [c]\<rparr>)"
    using relay_ok_enqueue [OF server_inv_relay_ok [OF assms(1,2)] assms(3,4)]
    by (simp add: enqueue_def)
qed (auto simp: enqueue_def)

lemma route_inv:
  assumes "server_inv s" and "router s = RouterIdle"
  shows "server_inv (route now ev s)"
proof (cases ev)
  case (LinkEstablished l)
  show ?thesis
  proof (cases "senders s l")
    case None
    have fresh: "relays s (next_relay s) = None"
      using assms(1) unfolding server_inv_def by (metis less_irrefl not_None_eq)
    have ok: "relay_ok [] [] (new_relay l)"
      by (simp add: relay_ok_def new_relay_def pump_ok_start)
    have logs: "of_id (next_relay s) (accepted s) = []" "of_id (next_relay s) (sc_sent s) = []"
      using assms(1) fresh by (auto simp: server_inv_def)
    have unused: "senders s m \<noteq> Some (next_relay s)" for m
      using assms(1) fresh unfolding server_inv_def by (metis option.distinct(1))
    show ?thesis
      using assms fresh ok logs None LinkEstablished unused
      unfolding server_inv_def route_def
      by (auto simp: new_relay_def less_Suc_eq split: if_splits)
  next
    case (Some rid)
    then show ?thesis using assms(1) LinkEstablished by (simp add: route_def)
  qed
next
  case (LinkData l bytes)
  then show ?thesis
    using assms(1) by (auto simp: route_def intro: enqueue_inv split: option.splits)
next
  case (LinkClosed l)
  show ?thesis
    by (rule server_inv_frame [OF assms(1)])
      (auto simp: route_def LinkClosed assms(2) split: option.splits if_splits)
next
  case AnnounceHeard
  show ?thesis
    by (rule server_inv_frame [OF assms(1)]) (simp_all add: route_def AnnounceHeard)
next
  case PeerIdentified
  show ?thesis
    by (rule server_inv_frame [OF assms(1)]) (simp_all add: route_def PeerIdentified)
qed

lemma route_sentinel_inv:
  assumes "server_inv s" and "route_sentinel l rid s = Some t"
  shows "server_inv t"
proof -
  let ?finish = "\<lambda>s. s\<lparr>connected_clients := (connected_clients s)(l := None), router := RouterIdle\<rparr>"
  have fin: "server_inv u \<Longrightarrow> server_inv (?finish u)" for u
    by (erule server_inv_frame) auto
  show ?thesis
    using assms(2) assms(1) fin enqueue_inv [OF assms(1)]
    by (auto simp: route_sentinel_def Let_def split: option.splits if_splits)
qed

lemma set_relay_inv:
  assumes "server_inv s" and "relays s rid = Some r" and "r_link r' = r_link r"
    and "relay_ok (of_id rid (accepted s)) (of_id rid (sc_sent s)) r'"
  shows "server_inv (set_relay rid r' s)"
  by (rule server_inv_relay [OF assms(1,2), where r' = r'])
    (use assms(3,4) in \<open>auto simp: set_relay_def\<close>)

lemma relay_bind_inv:
  "server_inv s \<Longrightarrow> relays s rid = Some r \<Longrightarrow> relay_bind rid ok r s = Some t \<Longrightarrow> server_inv t"
  using set_relay_inv server_inv_relay_ok
  by (auto simp: relay_bind_def split: if_splits)

lemma relay_connect_inv:
  "server_inv s \<Longrightarrow> relays s rid = Some r \<Longrightarrow> relay_connect rid ok r s = Some t \<Longrightarrow> server_inv t"
  using set_relay_inv server_inv_relay_ok
  by (auto simp: relay_connect_def split: if_splits)

lemma to_sc_inv:
  assumes "server_inv s" and "relays s rid = Some r" and "to_sc rid ok r s = Some t"
  shows "server_inv t"
proof -
  note rok = server_inv_relay_ok [OF assms(1,2)]
  have ended: "server_inv (set_relay rid (end_to_sc r) s)"
    using set_relay_inv [OF assms(1,2) _ relay_ok_end [OF rok]] by (simp add: end_to_sc_def)
  have live: "r_to_sc r" using assms(3) by (auto simp: to_sc_def split: if_splits)
  show ?thesis
  proof (cases "r_queue r")
    case Nil
    then show ?thesis using assms(3) ended by (auto simp: to_sc_def split: if_splits)
  next
    case (Cons c rest)
    obtain reasm out where p: "push (r_reasm r) c = (reasm, out)" by fastforce
    note deq = relay_ok_dequeue [OF rok live Cons p]
    show ?thesis
    proof (cases out)
      case None
      have "server_inv (set_relay rid (r\<lparr>r_queue := rest, r_reasm := reasm\<rparr>) s)"
        using set_relay_inv [OF assms(1,2) _ ] deq None by simp
      then show ?thesis
        using assms(3) ended Cons p None by (auto simp: to_sc_def split: if_splits)
    next
      case (Some d)
      have sent: "server_inv ((set_relay rid (r\<lparr>r_queue := rest, r_reasm := reasm\<rparr>) s)
          \<lparr>sc_sent := sc_sent s @ [(rid, d)]\<rparr>)"
        by (rule server_inv_relay [OF assms(1,2), where r' = "r\<lparr>r_queue := rest, r_reasm := reasm\<rparr>"])
          (use deq Some in \<open>auto simp: set_relay_def\<close>)
      have failed: "server_inv (set_relay rid (end_to_sc (r\<lparr>r_reasm := reasm\<rparr>)) s)"
        using set_relay_inv [OF assms(1,2) _ relay_ok_send_failed [OF rok]] p Some
        by (simp add: end_to_sc_def)
      show ?thesis
        using assms(3) ended sent failed Cons p Some by (auto simp: to_sc_def split: if_splits)
    qed
  qed
qed

lemma from_sc_inv:
  assumes "server_inv s" and "relays s rid = Some r" and "from_sc rid res k r s = Some t"
  shows "server_inv t"
proof -
  note rok = server_inv_relay_ok [OF assms(1,2)]
  have stopped: "server_inv (set_relay rid (r\<lparr>r_from_sc := False\<rparr>) s)"
    using set_relay_inv [OF assms(1,2)] rok by simp
  have cmds: "server_inv u \<Longrightarrow> server_inv (u\<lparr>commands := cs\<rparr>)" for u cs
    by (erule server_inv_frame) auto
  show ?thesis
    using assms(3) assms(1) stopped cmds
    by (auto simp: from_sc_def Let_def split: if_splits udp_result.splits prod.splits send_outcome.splits)
qed

lemma relay_end_inv:
  assumes "server_inv s" and "relays s rid = Some r" and "relay_end rid r s = Some t"
  shows "server_inv t"
proof -
  note rok = server_inv_relay_ok [OF assms(1,2)]
  have ended: "server_inv (set_relay rid ((end_to_sc r)\<lparr>r_phase := Ended, r_from_sc := False\<rparr>) s)"
    using set_relay_inv [OF assms(1,2)] relay_ok_end [OF rok] by (simp add: end_to_sc_def)
  show ?thesis
    using assms(3) by (auto simp: relay_end_def split: if_splits intro!: server_inv_frame [OF ended])
      (simp_all add: set_relay_def)
qed

lemmas relay_inv =
  relay_bind_inv relay_connect_inv to_sc_inv from_sc_inv relay_end_inv

lemma server_step_inv: "server_step s a = Some t \<Longrightarrow> server_inv s \<Longrightarrow> server_inv t"
  by (cases a)
    (auto simp: with_relay_def intro: route_inv route_sentinel_inv relay_inv
       split: option.splits if_splits router_state.splits)

lemma server_run_inv: "server_run s as t \<Longrightarrow> server_inv s \<Longrightarrow> server_inv t"
  by (induction rule: server_run.induct) (auto dest: server_step_inv)

lemma server_exec_run: "server_exec s as = Some t \<Longrightarrow> server_run s as t"
  by (induction as arbitrary: s) (auto intro: server_run.intros split: option.splits)

lemma server_run_exec: "server_run s as t \<Longrightarrow> server_exec s as = Some t"
  by (induction rule: server_run.induct) simp_all

subsection \<open>Where the accepted chunks come from\<close>

text \<open>The payloads the engine delivered on a link, in the order the router saw them.\<close>

fun link_data :: "link_id \<Rightarrow> server_action list \<Rightarrow> bytes list" where
  "link_data l [] = []"
| "link_data l (Route now (LinkData m bytes) # as) =
     (if m = l then bytes # link_data l as else link_data l as)"
| "link_data l (a # as) = link_data l as"

lemma link_data_Cons:
  "link_data l (a # as) = link_data l [a] @ link_data l as"
  by (cases "(l, a # as)" rule: link_data.cases) auto

lemma with_relay_eq: "with_relay rid s f = Some t \<longleftrightarrow> (\<exists>r. relays s rid = Some r \<and> f r s = Some t)"
  by (auto simp: with_relay_def split: option.splits)

text \<open>A relay never goes back to an earlier phase.\<close>

definition forward :: "server_state \<Rightarrow> server_state \<Rightarrow> bool" where
  "forward s t \<longleftrightarrow> (\<forall>rid r. relays s rid = Some r \<longrightarrow> (\<exists>r'. relays t rid = Some r' \<and> r_phase r \<le> r_phase r'))"

lemma forward_same: "relays t = relays s \<Longrightarrow> forward s t"
  by (auto simp: forward_def)

lemma server_step_forward:
  assumes "server_step s a = Some t" and "server_inv s"
  shows "forward s t"
proof (cases a)
  case (Route now ev)
  have "relays s (next_relay s) = None" using assms(2) unfolding server_inv_def by (metis less_irrefl not_None_eq)
  then show ?thesis using assms(1) Route
    by (auto simp: forward_def route_def enqueue_def split: bridge_event.splits option.splits if_splits)
next
  case RouteSentinel
  then show ?thesis using assms(1)
    by (auto simp: forward_def route_sentinel_def enqueue_def Let_def split: option.splits if_splits router_state.splits)
qed (use assms in \<open>auto simp: with_relay_eq relay_bind_def relay_connect_def to_sc_def from_sc_def relay_end_def
    set_relay_def end_to_sc_def Let_def less_eq_relay_phase_def forward_def
    split: if_splits list.splits prod.splits udp_result.splits send_outcome.splits option.splits\<close>)

lemma server_run_forward: "server_run s as t \<Longrightarrow> server_inv s \<Longrightarrow> forward s t"
proof (induction rule: server_run.induct)
  case (run_Cons s a t as u)
  have "forward s t" using server_step_forward run_Cons.hyps(1) run_Cons.prems .
  moreover have "forward t u" using run_Cons.IH server_step_inv [OF run_Cons.hyps(1) run_Cons.prems] .
  ultimately show ?case unfolding forward_def by (meson order.trans)
qed (simp add: forward_same)

text \<open>Every task but the router leaves the accepted chunks and the links of relays alone.\<close>

lemma relay_steps_accepted:
  "relay_bind rid ok r s = Some t \<Longrightarrow> accepted t = accepted s"
  "relay_connect rid ok r s = Some t \<Longrightarrow> accepted t = accepted s"
  "to_sc rid ok r s = Some t \<Longrightarrow> accepted t = accepted s"
  "from_sc rid res k r s = Some t \<Longrightarrow> accepted t = accepted s"
  "relay_end rid r s = Some t \<Longrightarrow> accepted t = accepted s"
  by (auto simp: relay_bind_def relay_connect_def to_sc_def from_sc_def relay_end_def set_relay_def
      Let_def split: if_splits list.splits prod.splits option.splits udp_result.splits
      send_outcome.splits)

definition same_links :: "server_state \<Rightarrow> server_state \<Rightarrow> bool" where
  "same_links s t \<longleftrightarrow> (\<forall>rid r. relays s rid = Some r \<longrightarrow>
     (\<exists>r'. relays t rid = Some r' \<and> r_link r' = r_link r))"

lemma same_links_refl [simp]: "same_links s s"
  by (simp add: same_links_def)

lemma same_links_set: "relays s rid = Some r \<Longrightarrow> r_link r' = r_link r \<Longrightarrow>
   relays t = (relays s)(rid \<mapsto> r') \<Longrightarrow> same_links s t"
  by (auto simp: same_links_def)

lemma relay_steps_links:
  assumes "relays s rid = Some r"
  shows "relay_bind rid ok r s = Some t \<Longrightarrow> same_links s t"
    and "relay_connect rid ok r s = Some t \<Longrightarrow> same_links s t"
    and "to_sc rid ok r s = Some t \<Longrightarrow> same_links s t"
    and "from_sc rid res k r s = Some t \<Longrightarrow> same_links s t"
    and "relay_end rid r s = Some t \<Longrightarrow> same_links s t"
  using assms
  by (auto simp: relay_bind_def relay_connect_def to_sc_def from_sc_def relay_end_def set_relay_def
      same_links_def Let_def end_to_sc_def
      split: if_splits list.splits prod.splits option.splits udp_result.splits send_outcome.splits)

lemma route_links: "server_inv s \<Longrightarrow> same_links s (route now ev s)"
proof -
  assume "server_inv s"
  then have "relays s (next_relay s) = None"
    unfolding server_inv_def by (metis less_irrefl not_None_eq)
  then show ?thesis
    by (auto simp: route_def same_links_def enqueue_def split: bridge_event.splits option.splits)
qed

lemma route_sentinel_links: "route_sentinel l rid s = Some t \<Longrightarrow> same_links s t"
  by (auto simp: route_sentinel_def same_links_def enqueue_def Let_def split: option.splits if_splits)

lemma server_step_links: "server_step s a = Some t \<Longrightarrow> server_inv s \<Longrightarrow> same_links s t"
  by (cases a) (auto simp: with_relay_eq intro: relay_steps_links route_links route_sentinel_links
      split: if_splits router_state.splits)

lemma server_step_accepted:
  assumes "server_step s a = Some t" and "server_inv s"
  shows "\<exists>new. accepted t = accepted s @ new \<and>
    (\<forall>rid r. relays t rid = Some r \<longrightarrow> subseq (nonempty (of_id rid new)) (link_data (r_link r) [a]))"
proof (cases a)
  case (Route now ev)
  show ?thesis
  proof (cases ev)
    case (LinkData l bytes)
    have t: "t = route now (LinkData l bytes) s" using assms(1) Route LinkData by (simp split: if_splits)
    show ?thesis
    proof (cases "accepted t = accepted s")
      case True
      then show ?thesis by simp
    next
      case False
      then obtain rid r where r: "senders s l = Some rid" "relays s rid = Some r"
        "t = enqueue rid bytes r s"
        by (auto simp: t route_def split: option.splits if_splits)
      have "r_link r = l"
        using assms(2) r(1,2) unfolding server_inv_def by (metis option.inject)
      then show ?thesis
        using r Route LinkData nonempty_one by (auto simp: enqueue_def nonempty_def)
    qed
  next
    case (LinkEstablished l)
    then show ?thesis using assms(1) Route by (auto simp: route_def split: if_splits)
  qed (use assms(1) Route in \<open>auto simp: route_def split: if_splits option.splits\<close>)
next
  case RouteSentinel
  then obtain l rid where "route_sentinel l rid s = Some t"
    using assms(1) by (auto split: router_state.splits)
  then show ?thesis
    by (auto simp: route_sentinel_def Let_def enqueue_def nonempty_def split: option.splits if_splits)
next
  case RelayBind
  then show ?thesis using assms(1) relay_steps_accepted by (force simp: with_relay_eq)
next
  case RelayConnect
  then show ?thesis using assms(1) relay_steps_accepted by (force simp: with_relay_eq)
next
  case ToSc
  then show ?thesis using assms(1) relay_steps_accepted by (force simp: with_relay_eq)
next
  case FromSc
  then show ?thesis using assms(1) relay_steps_accepted by (force simp: with_relay_eq)
next
  case RelayEnd
  then show ?thesis using assms(1) relay_steps_accepted by (force simp: with_relay_eq)
qed

lemma server_run_links: "server_run s as t \<Longrightarrow> server_inv s \<Longrightarrow> same_links s t"
proof (induction rule: server_run.induct)
  case (run_Cons s a t as u)
  have "same_links s t" "same_links t u"
    using run_Cons server_step_links server_step_inv by blast+
  then show ?case unfolding same_links_def by metis
qed simp

lemma server_run_accepted:
  assumes "server_run s as t" and "server_inv s" and "relays t rid = Some r"
  shows "\<exists>new. accepted t = accepted s @ new \<and>
     subseq (nonempty (of_id rid new)) (link_data (r_link r) as)"
  using assms
proof (induction arbitrary: r rule: server_run.induct)
  case (run_Nil s)
  then show ?case by simp
next
  case (run_Cons s a t as u)
  note inv_t = server_step_inv [OF run_Cons.hyps(1) run_Cons.prems(1)]
  obtain n1 where n1: "accepted t = accepted s @ n1"
    "\<And>i q. relays t i = Some q \<Longrightarrow> subseq (nonempty (of_id i n1)) (link_data (r_link q) [a])"
    using server_step_accepted [OF run_Cons.hyps(1) run_Cons.prems(1)] by blast
  obtain n2 where n2: "accepted u = accepted t @ n2"
    "subseq (nonempty (of_id rid n2)) (link_data (r_link r) as)"
    using run_Cons.IH [OF inv_t run_Cons.prems(2)] by blast
  have "subseq (nonempty (of_id rid n1)) (link_data (r_link r) [a])"
  proof (cases "relays t rid")
    case None
    have "of_id rid (accepted t) = []" using inv_t None by (simp add: server_inv_def)
    then show ?thesis using n1(1) by simp
  next
    case (Some q)
    have "r_link q = r_link r"
      using server_run_links [OF run_Cons.hyps(2) inv_t] Some run_Cons.prems(2)
      unfolding same_links_def by (metis option.inject)
    then show ?thesis using n1(2) [OF Some] by simp
  qed
  then show ?case
    using n1(1) n2 link_data_Cons [of "r_link r" a as]
    by (auto intro!: exI [of _ "n1 @ n2"] list_emb_append_mono)
qed

subsection \<open>Pumps that outlive their link\<close>

text \<open>
  Whether an action ends the \<open>from_sc\<close> loop of a relay: a socket error, or an engine that
  no longer takes all the commands of a datagram.
\<close>

fun ends_from_sc :: "nat \<Rightarrow> server_action \<Rightarrow> bool" where
  "ends_from_sc rid (FromSc i res k) =
     (i = rid \<and> (case res of
        UdpErr \<Rightarrow> True
      | UdpOk wire \<Rightarrow> k < length (frame (take UDP_READ_BUF wire))))"
| "ends_from_sc rid _ = False"

definition pumping :: "nat \<Rightarrow> link_id \<Rightarrow> server_state \<Rightarrow> bool" where
  "pumping rid l s \<longleftrightarrow>
     (\<exists>r. relays s rid = Some r \<and> r_link r = l \<and> r_phase r = Joined \<and> r_from_sc r)"

lemma pumping_relays: "relays t rid = relays s rid \<Longrightarrow> pumping rid l s \<Longrightarrow> pumping rid l t"
  by (simp add: pumping_def)

lemma pumping_relay_update:
  assumes "pumping rid l s" and "relays s i = Some r" and "relays t = (relays s)(i \<mapsto> r')"
    and "r_link r' = r_link r" and "r_phase r' = r_phase r \<or> r_phase r \<noteq> Joined"
    and "i = rid \<Longrightarrow> r_from_sc r \<Longrightarrow> r_from_sc r'"
  shows "pumping rid l t"
  using assms by (auto simp: pumping_def)

lemma route_pumping:
  assumes "server_inv s" and "pumping rid l s"
  shows "pumping rid l (route now ev s)"
proof -
  have "relays s (next_relay s) = None"
    using assms(1) unfolding server_inv_def by (metis less_irrefl not_None_eq)
  then show ?thesis
    using assms(2)
    by (auto simp: pumping_def route_def enqueue_def split: bridge_event.splits option.splits)
qed

lemma route_sentinel_pumping:
  "pumping rid l s \<Longrightarrow> route_sentinel m i s = Some t \<Longrightarrow> pumping rid l t"
  by (auto simp: pumping_def route_sentinel_def enqueue_def Let_def split: option.splits if_splits)

lemma from_sc_pumping:
  assumes "relays s i = Some r" and "from_sc i res k r s = Some t"
    and "\<not> ends_from_sc rid (FromSc i res k)" and "pumping rid l s"
  shows "pumping rid l t"
proof (cases "i = rid")
  case False
  then show ?thesis using assms
    by (auto simp: pumping_def from_sc_def set_relay_def Let_def
        split: if_splits udp_result.splits prod.splits send_outcome.splits)
next
  case True
  then obtain wire where w: "res = UdpOk wire" "length (frame (take UDP_READ_BUF wire)) \<le> k"
    using assms(3) by (auto split: udp_result.splits)
  then show ?thesis using assms True
    by (auto simp: pumping_def from_sc_def Let_def issue_frame split: if_splits)
qed

lemma relay_tasks_pumping:
  assumes "relays s i = Some r" and "pumping rid l s"
  shows "relay_bind i ok r s = Some t \<Longrightarrow> pumping rid l t"
    and "relay_connect i ok r s = Some t \<Longrightarrow> pumping rid l t"
    and "to_sc i ok r s = Some t \<Longrightarrow> pumping rid l t"
    and "relay_end i r s = Some t \<Longrightarrow> pumping rid l t"
  using assms
  by (auto simp: pumping_def relay_bind_def relay_connect_def to_sc_def relay_end_def set_relay_def
      end_to_sc_def Let_def split: if_splits list.splits prod.splits option.splits)

lemma server_step_pumping:
  "server_step s a = Some t \<Longrightarrow> server_inv s \<Longrightarrow> pumping rid l s \<Longrightarrow> \<not> ends_from_sc rid a \<Longrightarrow>
   pumping rid l t"
  by (cases a)
    (auto simp: with_relay_eq
       intro: route_pumping route_sentinel_pumping from_sc_pumping relay_tasks_pumping
       split: if_splits router_state.splits)

lemma server_run_pumping:
  "server_run s as t \<Longrightarrow> server_inv s \<Longrightarrow> pumping rid l s \<Longrightarrow> \<forall>a\<in>set as. \<not> ends_from_sc rid a \<Longrightarrow>
   pumping rid l t"
  by (induction rule: server_run.induct) (auto dest: server_step_pumping server_step_inv)

text \<open>A relay whose entry left the sender table never receives another chunk.\<close>

definition detached :: "nat \<Rightarrow> server_state \<Rightarrow> bool" where
  "detached rid s \<longleftrightarrow> rid < next_relay s \<and> (\<forall>l. senders s l \<noteq> Some rid) \<and>
     (\<forall>l. router s \<noteq> RouterClosing l rid)"

lemma detached_step:
  assumes "server_step s a = Some t" and "detached rid s"
  shows "detached rid t \<and> of_id rid (accepted t) = of_id rid (accepted s)"
proof (cases a)
  case (Route now ev)
  then show ?thesis using assms
    by (auto simp: detached_def route_def enqueue_def split: bridge_event.splits option.splits if_splits)
next
  case RouteSentinel
  then show ?thesis using assms
    by (auto simp: detached_def route_sentinel_def enqueue_def Let_def
        split: option.splits if_splits router_state.splits)
qed (use assms in \<open>auto simp: with_relay_eq detached_def relay_bind_def relay_connect_def to_sc_def
      from_sc_def relay_end_def set_relay_def Let_def
      split: if_splits list.splits prod.splits option.splits udp_result.splits send_outcome.splits\<close>)

lemma detached_run:
  "server_run s as t \<Longrightarrow> detached rid s \<Longrightarrow>
   detached rid t \<and> of_id rid (accepted t) = of_id rid (accepted s)"
  by (induction rule: server_run.induct) (auto dest: detached_step)

subsection \<open>Properties of the server side\<close>

lemma server_run_relay_ok:
  "server_run server_init as s \<Longrightarrow> relays s rid = Some r \<Longrightarrow>
   relay_ok (of_id rid (accepted s)) (of_id rid (sc_sent s)) r"
  using server_run_inv server_inv_init server_inv_relay_ok by blast

lemma relay_ok_sent:
  "relay_ok acc sent r \<Longrightarrow> prefix sent (snd (push_all reassembler_default acc))"
  by (simp add: relay_ok_def pump_ok_sent)

lemma sent_of_accepted:
  assumes "server_run server_init as s"
  shows "prefix (of_id rid (sc_sent s)) (snd (push_all reassembler_default (of_id rid (accepted s))))"
proof (cases "relays s rid")
  case None
  then show ?thesis
    using server_run_inv [OF assms server_inv_init] by (simp add: server_inv_def)
next
  case (Some r)
  then show ?thesis using relay_ok_sent server_run_relay_ok [OF assms] by blast
qed

text \<open>A concrete session: a link comes up, one datagram arrives, the link closes.\<close>

definition demo_link :: link_id where
  "demo_link = replicate 16 7"

definition demo_run :: "server_action list" where
  "demo_run =
     [Route 0 (LinkEstablished demo_link), RelayBind 0 True, RelayConnect 0 True,
      Route 1 (LinkData demo_link [1, 65, 66]), ToSc 0 True,
      Route 2 (LinkClosed demo_link), RouteSentinel, ToSc 0 True]"

lemmas server_defs =
  server_init_def route_def route_sentinel_def enqueue_def new_relay_def set_relay_def
  relay_bind_def relay_connect_def to_sc_def from_sc_def relay_end_def end_to_sc_def with_relay_def
  RELAY_QUEUE_def UDP_READ_BUF_def

lemma demo_run_result:
  "\<exists>s. server_run server_init demo_run s
     \<and> accepted s = [(0, [1, 65, 66]), (0, [])] \<and> sc_sent s = [(0, [65, 66])]
     \<and> commands s = [] \<and> pumping 0 demo_link s \<and> detached 0 s"
proof -
  have "\<exists>s. server_exec server_init demo_run = Some s
     \<and> accepted s = [(0, [1, 65, 66]), (0, [])] \<and> sc_sent s = [(0, [65, 66])]
     \<and> commands s = [] \<and> pumping 0 demo_link s \<and> detached 0 s"
    by (simp add: demo_run_def server_defs Let_def push_def FLAG_FINAL_def reassembler_default_def
        pumping_def detached_def)
  then show ?thesis using server_exec_run by blast
qed

text \<open>
  C7: in every reachable state of the server, if the data chunks
  accepted for a relay are (so far) part of the framing of a sequence of datagrams, then
  the datagrams handed to the Sven Co-op server are an initial part of exactly that
  sequence: nothing is merged, split, reordered, duplicated or invented.
\<close>

theorem server_delivers_in_order:
  assumes "server_run server_init as s"
    and "prefix (nonempty (of_id rid (accepted s))) (concat (map frame ds))"
    and "\<forall>d\<in>set ds. length d \<le> 65535"
  shows "prefix (of_id rid (sc_sent s)) ds"
  using pump_stream [OF sent_of_accepted [OF assms(1)] assms(2,3)] .

theorem server_delivers_in_order_witness:
  "\<exists>s. server_run server_init demo_run s \<and> of_id 0 (sc_sent s) = [[65, 66]]
     \<and> prefix (of_id 0 (sc_sent s)) [[65, 66], [67]]"
proof -
  obtain s where s: "server_run server_init demo_run s"
    "accepted s = [(0, [1, 65, 66]), (0, [])]" "sc_sent s = [(0, [65, 66])]"
    using demo_run_result by blast
  have "prefix (nonempty (of_id 0 (accepted s))) (concat (map frame [[65, 66], [67]]))"
    by (simp add: s(2) nonempty_def frame_short MAX_CHUNK_def FLAG_FINAL_def)
  then have "prefix (of_id 0 (sc_sent s)) [[65, 66], [67]]"
    using server_delivers_in_order [OF s(1), of 0 "[[65, 66], [67]]"] by simp
  then show ?thesis using s(1,3) by auto
qed

text \<open>
  C28: a relay is only ever fed chunks the engine delivered on
  its own link, in the order they were delivered (some may be dropped when its queue is
  full): traffic of different players never mixes.
\<close>

theorem server_chunks_from_own_link:
  assumes "server_run server_init as s" and "relays s rid = Some r"
  shows "subseq (nonempty (of_id rid (accepted s))) (link_data (r_link r) as)
     \<and> length (r_queue r) \<le> RELAY_QUEUE"
  using server_run_accepted [OF assms(1) server_inv_init assms(2)]
    server_run_relay_ok [OF assms]
  by (auto simp: server_init_def relay_ok_def pump_ok_def)

theorem server_chunks_from_own_link_witness:
  "\<exists>s r. server_run server_init demo_run s \<and> relays s 0 = Some r
     \<and> subseq [[1, 65, 66]] (link_data (r_link r) demo_run)"
proof -
  obtain s where s: "server_run server_init demo_run s"
    "accepted s = [(0, [1, 65, 66]), (0, [])]" "pumping 0 demo_link s"
    using demo_run_result by blast
  obtain r where r: "relays s 0 = Some r" using s(3) by (auto simp: pumping_def)
  show ?thesis
    using server_chunks_from_own_link [OF s(1) r] s(1) r
    by (auto simp: s(2) nonempty_def)
qed

text \<open>
  Fact: a reply of the Sven Co-op server that the socket returns is
  framed and issued in full as commands for the relay's own link, the payload bound is
  never exceeded (the \<open>expect\<close> cannot fire), and reassembling the payloads gives the
  reply back.
\<close>

theorem server_forwards_reply:
  assumes "relays s rid = Some r" and "r_phase r = Joined" and "r_from_sc r"
    and "reply \<noteq> []" and "length reply \<le> UDP_READ_BUF" and "length (frame reply) \<le> k"
  shows "\<exists>t. server_step s (FromSc rid (UdpOk reply) k) = Some t
     \<and> commands t = commands s @ map (SendToLink (r_link r)) (frame reply)
     \<and> (\<forall>c\<in>set (frame reply). length c \<le> MAX_SEND_TO_LINK_PLAINTEXT_LEN)
     \<and> push_all reassembler_default (frame reply) = (reassembler_default, [reply])
     \<and> relays t = relays s"
proof -
  have "take UDP_READ_BUF reply = reply" using assms(5) by simp
  moreover have "length reply \<le> 65535" using assms(5) by (simp add: UDP_READ_BUF_def)
  ultimately show ?thesis
    using assms by (simp add: with_relay_def from_sc_def Let_def issue_frame
        push_all_default_frame frame_fits_link)
qed

theorem server_forwards_reply_witness:
  "\<exists>s t. server_run server_init demo_run s
     \<and> server_step s (FromSc 0 (UdpOk [1, 2, 3]) 1) = Some t
     \<and> commands t = [SendToLink demo_link [1, 1, 2, 3]]"
proof -
  obtain s where s: "server_run server_init demo_run s" "commands s = []" "pumping 0 demo_link s"
    using demo_run_result by blast
  obtain r where r: "relays s 0 = Some r" "r_link r = demo_link" "r_phase r = Joined" "r_from_sc r"
    using s(3) by (auto simp: pumping_def)
  have f: "frame [1, 2, 3] = [[1, 1, 2, 3]]"
    by (simp add: frame_short MAX_CHUNK_def FLAG_FINAL_def)
  show ?thesis
    using server_forwards_reply [OF r(1,3,4), of "[1, 2, 3]" 1] s(1,2) r(2)
    by (auto simp: f UDP_READ_BUF_def)
qed

text \<open>
  Fact: closing a link does not end its relay.  Once a relay's
  socket pump runs, it keeps running whatever the router, the other tasks and the peer do
  (the closing of its link included) until the socket fails or the engine refuses a
  command; so its task never ends, its socket is never dropped, and it goes on issuing
  commands for the closed link.
\<close>

theorem server_relay_outlives_link:
  assumes "server_run server_init as s" and "pumping rid l s"
    and "server_run s bs t" and "\<forall>a\<in>set bs. \<not> ends_from_sc rid a"
  shows "pumping rid l t \<and> server_step t (RelayEnd rid) = None
     \<and> (\<forall>reply k. reply \<noteq> [] \<and> length reply \<le> UDP_READ_BUF \<and> length (frame reply) \<le> k \<longrightarrow>
          (\<exists>u. server_step t (FromSc rid (UdpOk reply) k) = Some u
             \<and> commands u = commands t @ map (SendToLink l) (frame reply)))"
proof -
  have p: "pumping rid l t"
    using server_run_pumping [OF assms(3) server_run_inv [OF assms(1) server_inv_init] assms(2,4)] .
  then obtain r where r: "relays t rid = Some r" "r_link r = l" "r_phase r = Joined" "r_from_sc r"
    by (auto simp: pumping_def)
  then show ?thesis
    using p by (auto simp: with_relay_def relay_end_def from_sc_def Let_def issue_frame)
qed

theorem server_relay_outlives_link_witness:
  "\<exists>s t. server_run server_init (take 5 demo_run) s \<and> server_run s (drop 5 demo_run) t
     \<and> senders t demo_link = None \<and> server_step t (RelayEnd 0) = None"
proof -
  have "\<exists>s. server_exec server_init (take 5 demo_run) = Some s \<and> pumping 0 demo_link s
     \<and> (\<exists>t. server_exec s (drop 5 demo_run) = Some t \<and> senders t demo_link = None)"
    by (simp add: demo_run_def server_defs Let_def push_def FLAG_FINAL_def reassembler_default_def
        pumping_def)
  then obtain s t where s: "server_run server_init (take 5 demo_run) s" "pumping 0 demo_link s"
    "server_run s (drop 5 demo_run) t" "senders t demo_link = None"
    using server_exec_run by blast
  have "\<forall>a\<in>set (drop 5 demo_run). \<not> ends_from_sc 0 a" by (simp add: demo_run_def)
  then show ?thesis
    using server_relay_outlives_link [OF s(1,2,3)] s by blast
qed

text \<open>
  Fact: once the router has processed the closing of a link,
  the relay that served it is out of the sender table for good: no later event, not even a
  new link with the same id, puts another chunk into its queue.
\<close>

theorem server_closed_link_gets_nothing:
  assumes "server_run server_init as s" and "senders s l = Some rid"
    and "server_run s [Route now (LinkClosed l), RouteSentinel] t" and "server_run t bs u"
  shows "senders t l = None
     \<and> nonempty (of_id rid (accepted u)) = nonempty (of_id rid (accepted s))"
proof -
  have inv: "server_inv s" using server_run_inv [OF assms(1) server_inv_init] .
  then obtain r where r: "relays s rid = Some r" "rid < next_relay s"
    using assms(2) unfolding server_inv_def by blast
  have "server_exec s [Route now (LinkClosed l), RouteSentinel] = Some t"
    using assms(3) by (rule server_run_exec)
  then have t: "senders t = (senders s)(l := None)" "next_relay t = next_relay s"
    "router t = RouterIdle"
    "nonempty (of_id rid (accepted t)) = nonempty (of_id rid (accepted s))"
    using assms(2) r
    by (auto simp: route_def route_sentinel_def enqueue_def nonempty_def Let_def
        split: if_splits option.splits)
  moreover have "m = l" if "senders s m = Some rid" for m
    using inv assms(2) that unfolding server_inv_def by (metis option.inject)
  ultimately have "detached rid t" using r by (auto simp: detached_def)
  then show ?thesis using detached_run [OF assms(4)] t by simp
qed

theorem server_closed_link_gets_nothing_witness:
  "\<exists>s t u. server_run s [Route 2 (LinkClosed demo_link), RouteSentinel] t
     \<and> server_run t [Route 3 (LinkData demo_link [1, 67])] u
     \<and> nonempty (of_id 0 (accepted u)) = [[1, 65, 66]]"
proof -
  have "\<exists>s. server_exec server_init (take 5 demo_run) = Some s
     \<and> accepted s = [(0, [1, 65, 66])] \<and> senders s = [demo_link \<mapsto> 0]
     \<and> (\<exists>t. server_exec s [Route 2 (LinkClosed demo_link), RouteSentinel] = Some t
        \<and> (\<exists>u. server_exec t [Route 3 (LinkData demo_link [1, 67])] = Some u))"
    by (simp add: demo_run_def server_defs Let_def push_def FLAG_FINAL_def reassembler_default_def)
  then obtain s t u where s: "server_run server_init (take 5 demo_run) s"
    "accepted s = [(0, [1, 65, 66])]" "senders s = [demo_link \<mapsto> 0]"
    "server_run s [Route 2 (LinkClosed demo_link), RouteSentinel] t"
    "server_run t [Route 3 (LinkData demo_link [1, 67])] u"
    using server_exec_run by blast
  have "nonempty (of_id 0 (accepted u)) = nonempty (of_id 0 (accepted s))"
    using server_closed_link_gets_nothing [OF s(1) _ s(4,5), of 0] s(3) by simp
  then show ?thesis using s by (auto simp: nonempty_def)
qed

subsection \<open>A relay that gives up while the router closes its link\<close>

text \<open>
  The router waits for room in the queue of a relay that returns early, which waits for the
  sender table the router holds.
\<close>

definition router_stuck :: "link_id \<Rightarrow> nat \<Rightarrow> server_state \<Rightarrow> bool" where
  "router_stuck l rid s \<longleftrightarrow> router s = RouterClosing l rid \<and>
     (\<exists>r. relays s rid = Some r \<and> r_phase r = Aborting \<and> r_to_sc r \<and> RELAY_QUEUE \<le> length (r_queue r))"

lemma router_stuck_step:
  assumes "router_stuck l rid s" and "server_step s a = Some t"
  shows "router_stuck l rid t"
  using assms
  by (cases a) (auto simp: router_stuck_def with_relay_eq route_sentinel_def relay_bind_def
      relay_connect_def to_sc_def from_sc_def relay_end_def set_relay_def Let_def end_to_sc_def
      split: if_splits list.splits prod.splits option.splits udp_result.splits send_outcome.splits)

lemma router_stuck_run:
  "server_run s as t \<Longrightarrow> router_stuck l rid s \<Longrightarrow> router_stuck l rid t"
  by (induction rule: server_run.induct) (auto dest: router_stuck_step)

lemma server_run_trans: "server_run s as t \<Longrightarrow> server_run t bs u \<Longrightarrow> server_run s (as @ bs) u"
  by (induction rule: server_run.induct) (auto intro: server_run.intros)

lemma fill_queue:
  assumes "router s = RouterIdle" and "senders s l = Some rid" and "relays s rid = Some r"
    and "r_to_sc r" and "length (r_queue r) + n \<le> RELAY_QUEUE"
  shows "\<exists>t. server_run s (replicate n (Route now (LinkData l c))) t \<and> router t = RouterIdle
     \<and> senders t l = Some rid \<and> relays t rid = Some (r\<lparr>r_queue := r_queue r @ replicate n c\<rparr>)"
  using assms
proof (induction n arbitrary: s r)
  case 0
  then show ?case by (auto intro: run_Nil)
next
  case (Suc n)
  let ?s = "enqueue rid c r s"
  have "server_step s (Route now (LinkData l c)) = Some ?s"
    using Suc.prems by (simp add: route_def)
  moreover have "\<exists>t. server_run ?s (replicate n (Route now (LinkData l c))) t \<and> router t = RouterIdle
     \<and> senders t l = Some rid
     \<and> relays t rid = Some (r\<lparr>r_queue := r_queue r @ [c], r_queue := (r_queue r @ [c]) @ replicate n c\<rparr>)"
    using Suc.IH [of ?s "r\<lparr>r_queue := r_queue r @ [c]\<rparr>"] Suc.prems by (simp add: enqueue_def)
  ultimately obtain t where "server_step s (Route now (LinkData l c)) = Some ?s"
    "server_run ?s (replicate n (Route now (LinkData l c))) t" "router t = RouterIdle"
    "senders t l = Some rid" "relays t rid = Some (r\<lparr>r_queue := r_queue r @ c # replicate n c\<rparr>)"
    by auto
  then show ?case by (intro exI [of _ t]) (auto intro: run_Cons simp del: server_step.simps)
qed

text \<open>
  C32: when the UDP socket of a relay cannot be opened, its queue is
  full and its link closes, the event router and the relay wait for each other for good: no
  later event of any link is processed and no relay can end.
\<close>

theorem server_router_deadlock:
  assumes "router s = RouterClosing l rid" and "relays s rid = Some r"
    and "r_phase r = Aborting" and "r_to_sc r" and "length (r_queue r) = RELAY_QUEUE"
    and "server_run s as t"
  shows "server_step t (Route now ev) = None \<and> server_step t RouteSentinel = None
     \<and> server_step t (RelayEnd j) = None"
proof -
  have "router_stuck l rid t"
    using router_stuck_run [OF assms(6)] assms(1-5) by (simp add: router_stuck_def)
  then show ?thesis
    by (auto simp: router_stuck_def route_sentinel_def with_relay_def relay_end_def Let_def
        split: option.splits)
qed

theorem server_router_deadlock_witness:
  "\<exists>s. server_run server_init
         ([Route 0 (LinkEstablished demo_link)] @ replicate RELAY_QUEUE (Route 1 (LinkData demo_link [0]))
            @ [RelayBind 0 False, Route 2 (LinkClosed demo_link)]) s
     \<and> (\<forall>now ev. server_step s (Route now ev) = None) \<and> server_step s (RelayEnd 0) = None"
proof -
  have "\<exists>s1. server_exec server_init [Route 0 (LinkEstablished demo_link)] = Some s1
     \<and> router s1 = RouterIdle \<and> senders s1 demo_link = Some 0 \<and> relays s1 0 = Some (new_relay demo_link)"
    by (simp add: server_init_def route_def)
  then obtain s1 where s1: "server_run server_init [Route 0 (LinkEstablished demo_link)] s1"
    "router s1 = RouterIdle" "senders s1 demo_link = Some 0" "relays s1 0 = Some (new_relay demo_link)"
    using server_exec_run by blast
  obtain s2 where s2: "server_run s1 (replicate RELAY_QUEUE (Route 1 (LinkData demo_link [0]))) s2"
    "router s2 = RouterIdle" "senders s2 demo_link = Some 0"
    "relays s2 0 = Some ((new_relay demo_link)\<lparr>r_queue := replicate RELAY_QUEUE [0]\<rparr>)"
    using fill_queue [OF s1(2-4), of RELAY_QUEUE 1 "[0]"] by (auto simp: new_relay_def)
  have "\<exists>s3 r. server_exec s2 [RelayBind 0 False, Route 2 (LinkClosed demo_link)] = Some s3
     \<and> router s3 = RouterClosing demo_link 0 \<and> relays s3 0 = Some r \<and> r_phase r = Aborting \<and> r_to_sc r
     \<and> length (r_queue r) = RELAY_QUEUE"
    using s2 by (simp add: with_relay_def relay_bind_def set_relay_def route_def new_relay_def)
  then obtain s3 r where s3: "server_run s2 [RelayBind 0 False, Route 2 (LinkClosed demo_link)] s3"
    "router s3 = RouterClosing demo_link 0" "relays s3 0 = Some r" "r_phase r = Aborting" "r_to_sc r"
    "length (r_queue r) = RELAY_QUEUE"
    using server_exec_run by blast
  show ?thesis
    using server_run_trans [OF s1(1) server_run_trans [OF s2(1) s3(1)]]
      server_router_deadlock [OF s3(2-6) run_Nil] by blast
qed

end
