(* ===== verification/Client_Relay.thy ===== *)
theory Client_Relay
  imports Relay_Common
begin

text \<open>
  The client side of the bridge (\<open>BridgeSession::start_client\<close> in \<open>src/relay.rs\<close>): the
  event router, the UDP listener task, the path probe and, per relay task, the link set-up
  and its two pumps (\<open>send_task\<close>, \<open>recv_task\<close>).

  As on the server side the code between two \<open>.await\<close> points is one atomic action, and
  \<open>client_step\<close> is \<open>None\<close> when the task named by the action cannot run.  The read guard
  of \<open>udp_links\<close> taken in the scrutinee of the listener's \<open>if let\<close> lives until the end
  of that statement (Rust 2021), so it is held while the task awaits channel capacity or
  the write lock; \<open>udp_links_free\<close> says when a writer can get the lock.
\<close>

type_synonym socket_addr = "u32 \<times> u16"

subsection \<open>State\<close>

datatype client_phase =
  Establishing1 | RequestingPath | Establishing2 | Identifying | Registering
| FirstSendFailed | Attaching | Running | Unregistering | Finished

record crelay =
  cr_src :: socket_addr
  cr_target :: destination_hash
  cr_pkt :: bytes
  cr_phase :: client_phase
  cr_link :: link_id
  cr_up :: "bytes list"
  cr_send :: bool
  cr_down :: "bytes list"
  cr_reasm :: reassembler
  cr_recv :: bool

datatype udp_task = UdpReady | UdpSending socket_addr nat bytes | UdpRemoving socket_addr | UdpDead

record client_state =
  server_target :: "destination_hash option"
  c_discovered :: "discovered_server list"
  link_data_map :: "link_id \<rightharpoonup> nat"
  udp_links :: "socket_addr \<rightharpoonup> nat"
  crelays :: "nat \<rightharpoonup> crelay"
  next_crelay :: nat
  udp_task :: udp_task
  c_commands :: "(nat \<times> engine_command) list"
  udp_out :: "(nat \<times> bytes) list"
  taken_up :: "(nat \<times> bytes) list"
  taken_down :: "(nat \<times> bytes) list"
  heard :: "(socket_addr \<times> bytes) list"
  delivered :: "(link_id \<times> bytes) list"

text \<open>
  \<open>cr_up\<close> and \<open>cr_down\<close> are the two channels of a relay, \<open>cr_send\<close> and \<open>cr_recv\<close> say that
  their receivers still exist.  \<open>c_commands\<close> and \<open>udp_out\<close> log the effects with the
  relay that causes them.  The last four fields are history variables of the proof: what
  was put into the channels, what the listener received and what the engine delivered.
\<close>

definition client_init :: "destination_hash option \<Rightarrow> client_state" where
  "client_init target_hash =
     \<lparr>server_target = target_hash, c_discovered = [], link_data_map = Map.empty,
      udp_links = Map.empty, crelays = Map.empty, next_crelay = 0, udp_task = UdpReady,
      c_commands = [], udp_out = [], taken_up = [], taken_down = [],
      heard = [], delivered = []\<rparr>"

definition set_crelay :: "nat \<Rightarrow> crelay \<Rightarrow> client_state \<Rightarrow> client_state" where
  "set_crelay rid r s = s\<lparr>crelays := (crelays s)(rid \<mapsto> r)\<rparr>"

definition udp_links_free :: "client_state \<Rightarrow> bool" where
  "udp_links_free s = (case udp_task s of UdpReady \<Rightarrow> True | UdpDead \<Rightarrow> True
                       | UdpSending _ _ _ \<Rightarrow> False | UdpRemoving _ \<Rightarrow> False)"

subsection \<open>The event router\<close>

definition client_route :: "nat \<Rightarrow> bridge_event \<Rightarrow> client_state \<Rightarrow> client_state" where
  "client_route now ev s =
     (case ev of
        AnnounceHeard destination name \<Rightarrow>
          s\<lparr>c_discovered := remember_server now destination name (c_discovered s),
            server_target := (case server_target s of None \<Rightarrow> Some destination | Some t \<Rightarrow> Some t)\<rparr>
      | LinkEstablished _ \<Rightarrow> s
      | PeerIdentified _ _ \<Rightarrow> s
      | LinkClosed l \<Rightarrow> s\<lparr>link_data_map := (link_data_map s)(l := None)\<rparr>
      | LinkData l bytes \<Rightarrow>
          (let s = s\<lparr>delivered := delivered s @ [(l, bytes)]\<rparr> in
           case link_data_map s l of
             None \<Rightarrow> s
           | Some rid \<Rightarrow>
               (case crelays s rid of
                  None \<Rightarrow> s
                | Some r \<Rightarrow>
                    if cr_recv r \<and> length (cr_down r) < RELAY_QUEUE
                    then (set_crelay rid (r\<lparr>cr_down := cr_down r @ [bytes]\<rparr>) s)
                           \<lparr>taken_down := taken_down s @ [(rid, bytes)]\<rparr>
                    else s)))"

subsection \<open>The UDP listener\<close>

definition new_crelay :: "socket_addr \<Rightarrow> destination_hash \<Rightarrow> bytes \<Rightarrow> crelay" where
  "new_crelay src target pkt =
     \<lparr>cr_src = src, cr_target = target, cr_pkt = pkt, cr_phase = Establishing1, cr_link = [],
      cr_up = [], cr_send = True, cr_down = [], cr_reasm = reassembler_default, cr_recv = True\<rparr>"

text \<open>
  \<open>tx.send(pkt).await\<close> with the read guard held: it fails when the receiver is gone (then
  the task asks for the write lock), succeeds when there is room, else keeps waiting.
\<close>

definition udp_send :: "socket_addr \<Rightarrow> nat \<Rightarrow> bytes \<Rightarrow> client_state \<Rightarrow> client_state" where
  "udp_send src rid pkt s =
     (case crelays s rid of
        None \<Rightarrow> s\<lparr>udp_task := UdpRemoving src\<rparr>
      | Some r \<Rightarrow>
          if \<not> cr_send r then s\<lparr>udp_task := UdpRemoving src\<rparr>
          else if length (cr_up r) < RELAY_QUEUE
          then (set_crelay rid (r\<lparr>cr_up := cr_up r @ [pkt]\<rparr>) s)
                 \<lparr>udp_task := UdpReady, taken_up := taken_up s @ [(rid, pkt)]\<rparr>
          else s\<lparr>udp_task := UdpSending src rid pkt\<rparr>)"

definition udp_packet :: "socket_addr \<Rightarrow> bytes \<Rightarrow> client_state \<Rightarrow> client_state" where
  "udp_packet src pkt s =
     (case udp_links s src of
        Some rid \<Rightarrow> udp_send src rid pkt s
      | None \<Rightarrow>
          (case server_target s of
             None \<Rightarrow> s
           | Some target \<Rightarrow>
               s\<lparr>crelays := (crelays s)(next_crelay s \<mapsto> new_crelay src target pkt),
                 next_crelay := Suc (next_crelay s)\<rparr>))"

text \<open>One \<open>recv_from\<close>; \<open>None\<close> is a socket error, which ends the task.\<close>

definition udp_recv :: "(socket_addr \<times> bytes) option \<Rightarrow> client_state \<Rightarrow> client_state option" where
  "udp_recv res s =
     (if udp_task s \<noteq> UdpReady then None
      else case res of
        None \<Rightarrow> Some (s\<lparr>udp_task := UdpDead\<rparr>)
      | Some (src, wire) \<Rightarrow>
          (let pkt = take UDP_READ_BUF wire
           in Some (udp_packet src pkt (s\<lparr>heard := heard s @ [(src, pkt)]\<rparr>))))"

text \<open>The suspended listener goes on: with the send, or with the removal of the entry.\<close>

definition udp_resume :: "client_state \<Rightarrow> client_state option" where
  "udp_resume s =
     (case udp_task s of
        UdpReady \<Rightarrow> None
      | UdpDead \<Rightarrow> None
      | UdpSending src rid pkt \<Rightarrow>
          (let t = udp_send src rid pkt s
           in if udp_task t = UdpSending src rid pkt then None else Some t)
      | UdpRemoving src \<Rightarrow>
          (if udp_links_free s
           then Some (s\<lparr>udp_links := (udp_links s)(src := None), udp_task := UdpReady\<rparr>)
           else None))"

subsection \<open>The relay task\<close>

text \<open>\<open>establish_link\<close>, and after a failure \<open>request_path\<close> and \<open>establish_link\<close> again.\<close>

definition give_up :: "nat \<Rightarrow> crelay \<Rightarrow> client_state \<Rightarrow> client_state" where
  "give_up rid r s =
     set_crelay rid (r\<lparr>cr_phase := Finished, cr_send := False, cr_up := [],
                       cr_recv := False, cr_down := []\<rparr>) s"

definition c_establish :: "nat \<Rightarrow> link_id option \<Rightarrow> crelay \<Rightarrow> client_state \<Rightarrow> client_state option" where
  "c_establish rid res r s =
     (case (cr_phase r, res) of
        (Establishing1, Some l) \<Rightarrow> Some (set_crelay rid (r\<lparr>cr_phase := Identifying, cr_link := l\<rparr>) s)
      | (Establishing1, None) \<Rightarrow> Some (set_crelay rid (r\<lparr>cr_phase := RequestingPath\<rparr>) s)
      | (Establishing2, Some l) \<Rightarrow> Some (set_crelay rid (r\<lparr>cr_phase := Identifying, cr_link := l\<rparr>) s)
      | (Establishing2, None) \<Rightarrow> Some (give_up rid r s)
      | _ \<Rightarrow> None)"

definition c_request_path :: "nat \<Rightarrow> bool \<Rightarrow> crelay \<Rightarrow> client_state \<Rightarrow> client_state option" where
  "c_request_path rid ok r s =
     (if cr_phase r = RequestingPath
      then Some (if ok then set_crelay rid (r\<lparr>cr_phase := Establishing2\<rparr>) s else give_up rid r s)
      else None)"

text \<open>\<open>identify\<close> is best effort: its outcome is only logged.\<close>

definition c_identify :: "nat \<Rightarrow> bool \<Rightarrow> crelay \<Rightarrow> client_state \<Rightarrow> client_state option" where
  "c_identify rid ok r s =
     (if cr_phase r = Identifying then Some (set_crelay rid (r\<lparr>cr_phase := Registering\<rparr>) s) else None)"

text \<open>
  The source is entered into \<open>udp_links\<close> (replacing an older entry, whose sender is
  dropped) and, without another await, the first packet is framed and issued; the engine
  accepts \<open>k\<close> commands.
\<close>

definition c_register :: "nat \<Rightarrow> nat \<Rightarrow> crelay \<Rightarrow> client_state \<Rightarrow> client_state option" where
  "c_register rid k r s =
     (if cr_phase r = Registering \<and> udp_links_free s
      then (let s = s\<lparr>udp_links := (udp_links s)(cr_src r \<mapsto> rid)\<rparr>
            in case issue_frames k (cr_link r) (frame (cr_pkt r)) of
                 (cmds, out) \<Rightarrow>
                   let s = s\<lparr>c_commands := c_commands s @ map (Pair rid) cmds\<rparr>
                   in Some (case out of
                        AllSent \<Rightarrow> set_crelay rid (r\<lparr>cr_phase := Attaching\<rparr>) s
                      | NodeStopped \<Rightarrow> set_crelay rid (r\<lparr>cr_phase := FirstSendFailed\<rparr>) s
                      | PayloadPanic \<Rightarrow> give_up rid r s))
      else None)"

text \<open>The early return after a failed first send.\<close>

definition c_first_failed :: "nat \<Rightarrow> crelay \<Rightarrow> client_state \<Rightarrow> client_state option" where
  "c_first_failed rid r s =
     (if cr_phase r = FirstSendFailed \<and> udp_links_free s
      then Some ((give_up rid r s)
                   \<lparr>udp_links := (udp_links s)(cr_src r := None),
                    c_commands := c_commands s @ [(rid, CloseLink (cr_link r))]\<rparr>)
      else None)"

definition c_attach :: "nat \<Rightarrow> crelay \<Rightarrow> client_state \<Rightarrow> client_state option" where
  "c_attach rid r s =
     (if cr_phase r = Attaching
      then Some ((set_crelay rid (r\<lparr>cr_phase := Running\<rparr>) s)
                   \<lparr>link_data_map := (link_data_map s)(cr_link r \<mapsto> rid)\<rparr>)
      else None)"

text \<open>The sender of a relay's uplink channel exists: in the table, or cloned by the listener.\<close>

definition up_sender :: "nat \<Rightarrow> crelay \<Rightarrow> client_state \<Rightarrow> bool" where
  "up_sender rid r s \<longleftrightarrow> udp_links s (cr_src r) = Some rid \<or>
     (case udp_task s of UdpSending _ j _ \<Rightarrow> j = rid | _ \<Rightarrow> False)"

definition end_send :: "crelay \<Rightarrow> crelay" where
  "end_send r = r\<lparr>cr_send := False, cr_up := []\<rparr>"

definition end_recv :: "crelay \<Rightarrow> crelay" where
  "end_recv r = r\<lparr>cr_recv := False, cr_down := []\<rparr>"

definition send_task :: "nat \<Rightarrow> nat \<Rightarrow> crelay \<Rightarrow> client_state \<Rightarrow> client_state option" where
  "send_task rid k r s =
     (if cr_phase r \<noteq> Running \<or> \<not> cr_send r then None
      else case cr_up r of
        [] \<Rightarrow> (if up_sender rid r s then None else Some (set_crelay rid (end_send r) s))
      | bytes # rest \<Rightarrow>
          (if bytes = [] then Some (set_crelay rid (end_send r) s)
           else case issue_frames k (cr_link r) (frame bytes) of
             (cmds, out) \<Rightarrow>
               (let s = s\<lparr>c_commands := c_commands s @ map (Pair rid) cmds\<rparr>
                in Some (if out = AllSent then set_crelay rid (r\<lparr>cr_up := rest\<rparr>) s
                         else set_crelay rid (end_send r) s))))"

definition recv_task :: "nat \<Rightarrow> bool \<Rightarrow> crelay \<Rightarrow> client_state \<Rightarrow> client_state option" where
  "recv_task rid send_ok r s =
     (if cr_phase r \<noteq> Running \<or> \<not> cr_recv r then None
      else case cr_down r of
        [] \<Rightarrow> (if link_data_map s (cr_link r) = Some rid then None
               else Some (set_crelay rid (end_recv r) s))
      | chunk # rest \<Rightarrow>
          (case push (cr_reasm r) chunk of
             (reasm, None) \<Rightarrow> Some (set_crelay rid (r\<lparr>cr_down := rest, cr_reasm := reasm\<rparr>) s)
           | (reasm, Some datagram) \<Rightarrow>
               (if send_ok
                then Some ((set_crelay rid (r\<lparr>cr_down := rest, cr_reasm := reasm\<rparr>) s)
                             \<lparr>udp_out := udp_out s @ [(rid, datagram)]\<rparr>)
                else Some (set_crelay rid (end_recv (r\<lparr>cr_reasm := reasm\<rparr>)) s))))"

text \<open>After \<open>join!\<close>: the two tables are cleaned up, one after the other, and the link closed.\<close>

definition c_detach :: "nat \<Rightarrow> crelay \<Rightarrow> client_state \<Rightarrow> client_state option" where
  "c_detach rid r s =
     (if cr_phase r = Running \<and> \<not> cr_send r \<and> \<not> cr_recv r
      then Some ((set_crelay rid (r\<lparr>cr_phase := Unregistering\<rparr>) s)
                   \<lparr>link_data_map := (link_data_map s)(cr_link r := None)\<rparr>)
      else None)"

definition c_end :: "nat \<Rightarrow> crelay \<Rightarrow> client_state \<Rightarrow> client_state option" where
  "c_end rid r s =
     (if cr_phase r = Unregistering \<and> udp_links_free s
      then Some ((set_crelay rid (r\<lparr>cr_phase := Finished\<rparr>) s)
                   \<lparr>udp_links := (udp_links s)(cr_src r := None),
                    c_commands := c_commands s @ [(rid, CloseLink (cr_link r))]\<rparr>)
      else None)"

subsection \<open>Steps\<close>

datatype client_action =
  CRoute nat bridge_event
| UdpRecv "(socket_addr \<times> bytes) option"
| UdpResume
| Establish nat "link_id option"
| RequestPath nat bool
| Identify nat bool
| Register nat nat
| FirstFailed nat
| Attach nat
| SendTask nat nat
| RecvTask nat bool
| Detach nat
| CEnd nat

definition with_crelay ::
  "nat \<Rightarrow> client_state \<Rightarrow> (crelay \<Rightarrow> client_state \<Rightarrow> client_state option) \<Rightarrow> client_state option" where
  "with_crelay rid s f = (case crelays s rid of None \<Rightarrow> None | Some r \<Rightarrow> f r s)"

fun client_step :: "client_state \<Rightarrow> client_action \<Rightarrow> client_state option" where
  "client_step s (CRoute now ev) = Some (client_route now ev s)"
| "client_step s (UdpRecv res) = udp_recv res s"
| "client_step s UdpResume = udp_resume s"
| "client_step s (Establish rid res) = with_crelay rid s (c_establish rid res)"
| "client_step s (RequestPath rid ok) = with_crelay rid s (c_request_path rid ok)"
| "client_step s (Identify rid ok) = with_crelay rid s (c_identify rid ok)"
| "client_step s (Register rid k) = with_crelay rid s (c_register rid k)"
| "client_step s (FirstFailed rid) = with_crelay rid s (c_first_failed rid)"
| "client_step s (Attach rid) = with_crelay rid s (c_attach rid)"
| "client_step s (SendTask rid k) = with_crelay rid s (send_task rid k)"
| "client_step s (RecvTask rid ok) = with_crelay rid s (recv_task rid ok)"
| "client_step s (Detach rid) = with_crelay rid s (c_detach rid)"
| "client_step s (CEnd rid) = with_crelay rid s (c_end rid)"

inductive client_run :: "client_state \<Rightarrow> client_action list \<Rightarrow> client_state \<Rightarrow> bool" where
  crun_Nil: "client_run s [] s"
| crun_Cons: "client_step s a = Some t \<Longrightarrow> client_run t as u \<Longrightarrow> client_run s (a # as) u"

inductive_cases client_run_ConsE: "client_run s (a # as) u"

fun client_exec :: "client_state \<Rightarrow> client_action list \<Rightarrow> client_state option" where
  "client_exec s [] = Some s"
| "client_exec s (a # as) =
     (case client_step s a of None \<Rightarrow> None | Some t \<Rightarrow> client_exec t as)"

lemma client_exec_run: "client_exec s as = Some t \<Longrightarrow> client_run s as t"
  by (induction as arbitrary: s) (auto intro: client_run.intros split: option.splits)

lemma client_run_exec: "client_run s as t \<Longrightarrow> client_exec s as = Some t"
  by (induction rule: client_run.induct) simp_all

lemma client_exec_append:
  "client_exec s (as @ bs) = Option.bind (client_exec s as) (\<lambda>t. client_exec t bs)"
  by (induction as arbitrary: s) (simp_all split: option.split)

subsection \<open>The path probe\<close>

text \<open>
  At most 12 path requests for an explicit server hash, five seconds apart; the list
  answers them.  The result says whether the path was resolved and how long was slept.
\<close>

datatype probe_result = PathResolved nat | PathUnresolved

definition PROBE_ATTEMPTS :: nat where "PROBE_ATTEMPTS = 12"
definition PROBE_SLEEP_SECS :: nat where "PROBE_SLEEP_SECS = 5"

fun probe_from :: "nat \<Rightarrow> nat \<Rightarrow> (nat \<Rightarrow> bool) \<Rightarrow> probe_result \<times> nat" where
  "probe_from attempt 0 answers = (PathUnresolved, 0)"
| "probe_from attempt (Suc left) answers =
     (if answers attempt then (PathResolved attempt, 0)
      else case probe_from (Suc attempt) left answers of (res, slept) \<Rightarrow>
        (res, PROBE_SLEEP_SECS + slept))"

definition path_probe :: "(nat \<Rightarrow> bool) \<Rightarrow> probe_result \<times> nat" where
  "path_probe = probe_from 1 PROBE_ATTEMPTS"

subsection \<open>Invariant\<close>

text \<open>Before its registration a relay owns no table entry and has had no effect.\<close>

definition pre_registered :: "crelay \<Rightarrow> bool" where
  "pre_registered r \<longleftrightarrow>
     cr_phase r \<in> {Establishing1, RequestingPath, Establishing2, Identifying, Registering}"

text \<open>The packet the suspended listener still holds for a relay.\<close>

definition pending :: "nat \<Rightarrow> client_state \<Rightarrow> bytes list" where
  "pending rid s = (case udp_task s of UdpSending _ j pkt \<Rightarrow> if j = rid then [pkt] else []
                    | _ \<Rightarrow> [])"

definition crelay_ok :: "nat \<Rightarrow> crelay \<Rightarrow> client_state \<Rightarrow> bool" where
  "crelay_ok rid r s \<longleftrightarrow>
     pump_ok (of_id rid (taken_down s)) (of_id rid (udp_out s)) (cr_down r) (cr_reasm r) (cr_recv r)
     \<and> subseq (of_id rid (taken_down s)) (of_id (cr_link r) (delivered s))
     \<and> subseq (cr_pkt r # of_id rid (taken_up s) @ pending rid s) (of_id (cr_src r) (heard s))
     \<and> list_all (targets_link (cr_link r)) (of_id rid (c_commands s))
     \<and> (if pre_registered r
        then of_id rid (taken_up s) = [] \<and> of_id rid (taken_down s) = []
             \<and> of_id rid (c_commands s) = [] \<and> cr_up r = [] \<and> cr_send r
        else uplink_ok (cr_pkt r) (of_id rid (taken_up s)) (payloads (of_id rid (c_commands s)))
               (cr_up r) (cr_send r \<and> cr_phase r \<noteq> FirstSendFailed))"

definition client_inv :: "client_state \<Rightarrow> bool" where
  "client_inv s \<longleftrightarrow>
     (\<forall>rid r. crelays s rid = Some r \<longrightarrow> rid < next_crelay s \<and> crelay_ok rid r s)
     \<and> (\<forall>rid. crelays s rid = None \<longrightarrow> of_id rid (taken_up s) = [] \<and> of_id rid (taken_down s) = []
           \<and> of_id rid (c_commands s) = [] \<and> of_id rid (udp_out s) = [])
     \<and> (\<forall>src rid. udp_links s src = Some rid \<longrightarrow>
           (\<exists>r. crelays s rid = Some r \<and> cr_src r = src \<and> \<not> pre_registered r))
     \<and> (\<forall>l rid. link_data_map s l = Some rid \<longrightarrow>
           (\<exists>r. crelays s rid = Some r \<and> cr_link r = l \<and> \<not> pre_registered r))
     \<and> (\<forall>src rid pkt. udp_task s = UdpSending src rid pkt \<longrightarrow>
           (\<exists>r. crelays s rid = Some r \<and> cr_src r = src \<and> \<not> pre_registered r))"

lemma client_inv_init: "client_inv (client_init target)"
  by (simp add: client_inv_def client_init_def)

lemma client_inv_relay_ok:
  "client_inv s \<Longrightarrow> crelays s rid = Some r \<Longrightarrow> crelay_ok rid r s"
  by (simp add: client_inv_def)

lemma client_inv_tables:
  assumes "client_inv s"
  shows "udp_links s src = Some rid \<Longrightarrow>
      \<exists>r. crelays s rid = Some r \<and> cr_src r = src \<and> \<not> pre_registered r"
    and "link_data_map s l = Some rid \<Longrightarrow>
      \<exists>r. crelays s rid = Some r \<and> cr_link r = l \<and> \<not> pre_registered r"
    and "udp_task s = UdpSending src rid pkt \<Longrightarrow>
      \<exists>r. crelays s rid = Some r \<and> cr_src r = src \<and> \<not> pre_registered r"
  using assms unfolding client_inv_def by blast+

text \<open>A log only grows, and nothing is added under other keys.\<close>

definition grows :: "('k \<times> 'a) list \<Rightarrow> ('k \<times> 'a) list \<Rightarrow> bool" where
  "grows xs ys \<longleftrightarrow> (\<forall>k. prefix (of_id k xs) (of_id k ys))"

lemma grows_refl [simp]: "grows xs xs"
  by (simp add: grows_def)

lemma grows_append [simp]: "grows xs (xs @ ys)"
  by (simp add: grows_def)

lemma subseq_grows: "subseq as (of_id k xs) \<Longrightarrow> grows xs ys \<Longrightarrow> subseq as (of_id k ys)"
  unfolding grows_def by (meson prefix_imp_subseq subseq_order.trans)

lemma crelay_ok_cong:
  assumes "crelay_ok rid r s"
    and "of_id rid (taken_up t) = of_id rid (taken_up s)"
    and "of_id rid (taken_down t) = of_id rid (taken_down s)"
    and "of_id rid (c_commands t) = of_id rid (c_commands s)"
    and "of_id rid (udp_out t) = of_id rid (udp_out s)"
    and "prefix (pending rid t) (pending rid s)"
    and "grows (heard s) (heard t)" and "grows (delivered s) (delivered t)"
  shows "crelay_ok rid r t"
proof -
  have "subseq (cr_pkt r # of_id rid (taken_up s) @ pending rid t)
      (cr_pkt r # of_id rid (taken_up s) @ pending rid s)"
    using assms(6) by (simp add: prefix_imp_subseq)
  then have "subseq (cr_pkt r # of_id rid (taken_up s) @ pending rid t) (of_id (cr_src r) (heard t))"
    using assms(1,7) unfolding crelay_ok_def by (meson subseq_grows subseq_order.trans)
  moreover have "subseq (of_id rid (taken_down s)) (of_id (cr_link r) (delivered t))"
    using assms(1,8) unfolding crelay_ok_def by (meson subseq_grows)
  ultimately show ?thesis using assms(1-5) unfolding crelay_ok_def by simp
qed

text \<open>
  A step that touches one existing relay and the logs of that relay keeps the invariant if
  it keeps that relay's part.
\<close>

lemma client_inv_relay:
  assumes "client_inv s" and "crelays s rid = Some r"
    and "crelays t = (crelays s)(rid \<mapsto> r')" and "next_crelay t = next_crelay s"
    and "cr_src r' = cr_src r"
    and "cr_link r' = cr_link r \<or> pre_registered r"
    and "pre_registered r' \<Longrightarrow> pre_registered r"
    and "crelay_ok rid r' t"
    and "\<And>j. j \<noteq> rid \<Longrightarrow> of_id j (taken_up t) = of_id j (taken_up s)"
    and "\<And>j. j \<noteq> rid \<Longrightarrow> of_id j (taken_down t) = of_id j (taken_down s)"
    and "\<And>j. j \<noteq> rid \<Longrightarrow> of_id j (c_commands t) = of_id j (c_commands s)"
    and "\<And>j. j \<noteq> rid \<Longrightarrow> of_id j (udp_out t) = of_id j (udp_out s)"
    and "\<And>j. j \<noteq> rid \<Longrightarrow> prefix (pending j t) (pending j s)"
    and "grows (heard s) (heard t)" and "grows (delivered s) (delivered t)"
    and "\<And>src i. udp_links t src = Some i \<Longrightarrow>
           udp_links s src = Some i \<or> (i = rid \<and> src = cr_src r \<and> \<not> pre_registered r')"
    and "\<And>l i. link_data_map t l = Some i \<Longrightarrow>
           link_data_map s l = Some i \<or> (i = rid \<and> l = cr_link r' \<and> \<not> pre_registered r')"
    and "\<And>src i pkt. udp_task t = UdpSending src i pkt \<Longrightarrow>
           udp_task s = UdpSending src i pkt \<or> (i = rid \<and> src = cr_src r \<and> \<not> pre_registered r')"
  shows "client_inv t"
proof -
  have rel: "i < next_crelay t \<and> crelay_ok i q t" if "crelays t i = Some q" for i q
  proof (cases "i = rid")
    case True
    then show ?thesis using that assms(1-4,8) by (auto simp: client_inv_def)
  next
    case False
    then have "crelays s i = Some q" using that assms(3) by simp
    then show ?thesis
      using assms(1,4) crelay_ok_cong [of i q s t, OF _ assms(9-15)] False by (auto simp: client_inv_def)
  qed
  have tab: "\<exists>q. crelays t i = Some q \<and> P q \<and> \<not> pre_registered q"
    if "\<exists>q. crelays s i = Some q \<and> P q \<and> \<not> pre_registered q"
      and "\<not> pre_registered r \<Longrightarrow> P r \<Longrightarrow> P r'" for i P
    using that assms(2,3,7) by (cases "i = rid") auto
  show ?thesis unfolding client_inv_def
  proof (intro conjI allI impI)
    fix i assume "crelays t i = None"
    then have n: "crelays s i = None" "i \<noteq> rid" using assms(2,3) by (auto split: if_splits)
    then show "of_id i (taken_up t) = []" "of_id i (taken_down t) = []"
      "of_id i (c_commands t) = []" "of_id i (udp_out t) = []"
      using assms(1) assms(9-12) [OF n(2)] by (auto simp: client_inv_def)
  next
    fix src i assume "udp_links t src = Some i"
    then consider "udp_links s src = Some i" | "i = rid" "src = cr_src r" "\<not> pre_registered r'"
      using assms(16) by blast
    then show "\<exists>q. crelays t i = Some q \<and> cr_src q = src \<and> \<not> pre_registered q"
      by cases (use tab [of i "\<lambda>q. cr_src q = src"] client_inv_tables(1) [OF assms(1)] assms(3,5)
        in \<open>simp_all\<close>)
  next
    fix l i assume "link_data_map t l = Some i"
    then consider "link_data_map s l = Some i" | "i = rid" "l = cr_link r'" "\<not> pre_registered r'"
      using assms(17) by blast
    then show "\<exists>q. crelays t i = Some q \<and> cr_link q = l \<and> \<not> pre_registered q"
      by cases (use tab [of i "\<lambda>q. cr_link q = l"] client_inv_tables(2) [OF assms(1)] assms(3,6)
        in \<open>auto\<close>)
  next
    fix src i pkt assume "udp_task t = UdpSending src i pkt"
    then consider "udp_task s = UdpSending src i pkt"
      | "i = rid" "src = cr_src r" "\<not> pre_registered r'"
      using assms(18) by blast
    then show "\<exists>q. crelays t i = Some q \<and> cr_src q = src \<and> \<not> pre_registered q"
      by cases (use tab [of i "\<lambda>q. cr_src q = src"] client_inv_tables(3) [OF assms(1)] assms(3,5)
        in \<open>simp_all\<close>)
  qed (use rel in auto)
qed

lemma client_inv_frame:
  assumes "client_inv s" and "crelays t = crelays s" and "next_crelay t = next_crelay s"
    and "taken_up t = taken_up s" and "taken_down t = taken_down s"
    and "c_commands t = c_commands s" and "udp_out t = udp_out s"
    and "grows (heard s) (heard t)" and "grows (delivered s) (delivered t)"
    and "\<And>j. prefix (pending j t) (pending j s)"
    and "\<And>src i. udp_links t src = Some i \<Longrightarrow> udp_links s src = Some i"
    and "\<And>l i. link_data_map t l = Some i \<Longrightarrow> link_data_map s l = Some i"
    and "\<And>src i pkt. udp_task t = UdpSending src i pkt \<Longrightarrow> udp_task s = UdpSending src i pkt"
  shows "client_inv t"
proof -
  have "crelay_ok i q t" if "crelays s i = Some q" for i q
    using crelay_ok_cong [OF client_inv_relay_ok [OF assms(1) that]] assms(4-10) by simp
  then have "\<forall>i q. crelays t i = Some q \<longrightarrow> i < next_crelay t \<and> crelay_ok i q t"
    using assms(1-3) by (simp add: client_inv_def)
  moreover have "\<forall>i. crelays t i = None \<longrightarrow> of_id i (taken_up t) = [] \<and> of_id i (taken_down t) = []
      \<and> of_id i (c_commands t) = [] \<and> of_id i (udp_out t) = []"
    using assms(1,2,4-7) by (simp add: client_inv_def)
  moreover note client_inv_tables(1) [OF assms(1) assms(11)] client_inv_tables(2) [OF assms(1) assms(12)]
    client_inv_tables(3) [OF assms(1) assms(13)]
  ultimately show ?thesis
    unfolding client_inv_def assms(2) by blast
qed

lemma set_crelay_sel [simp, state_simps]:
  "crelays (set_crelay rid r s) = (crelays s)(rid \<mapsto> r)"
  "next_crelay (set_crelay rid r s) = next_crelay s"
  "server_target (set_crelay rid r s) = server_target s"
  "c_discovered (set_crelay rid r s) = c_discovered s"
  "link_data_map (set_crelay rid r s) = link_data_map s"
  "udp_links (set_crelay rid r s) = udp_links s"
  "udp_task (set_crelay rid r s) = udp_task s"
  "c_commands (set_crelay rid r s) = c_commands s"
  "udp_out (set_crelay rid r s) = udp_out s"
  "taken_up (set_crelay rid r s) = taken_up s"
  "taken_down (set_crelay rid r s) = taken_down s"
  "heard (set_crelay rid r s) = heard s"
  "delivered (set_crelay rid r s) = delivered s"
  by (simp_all add: set_crelay_def)

lemma pending_set_crelay [simp]: "pending j (set_crelay rid r s) = pending j s"
  by (simp add: pending_def)

lemma pending_cong: "udp_task t = udp_task s \<Longrightarrow> pending j t = pending j s"
  by (simp add: pending_def)

lemma client_inv_set:
  assumes "client_inv s" and "crelays s rid = Some r" and "cr_src r' = cr_src r"
    and "cr_link r' = cr_link r \<or> pre_registered r"
    and "pre_registered r' \<Longrightarrow> pre_registered r"
    and "crelay_ok rid r' s"
  shows "client_inv (set_crelay rid r' s)"
proof (rule client_inv_relay [OF assms(1,2), where r' = r'])
  show "crelay_ok rid r' (set_crelay rid r' s)"
    by (rule crelay_ok_cong [OF assms(6)]) simp_all
qed (use assms(3-5) in auto)

lemmas crelay_ok_fields = crelay_ok_def pre_registered_def

lemma give_up_inv:
  assumes "client_inv s" and "crelays s rid = Some r"
  shows "client_inv (give_up rid r s)"
proof -
  have ok: "crelay_ok rid r s" using client_inv_relay_ok [OF assms] .
  have "crelay_ok rid (r\<lparr>cr_phase := Finished, cr_send := False, cr_up := [],
      cr_recv := False, cr_down := []\<rparr>) s"
    using ok pump_ok_end uplink_ok_end uplink_ok_partial [of "[]" "cr_pkt r"]
    unfolding crelay_ok_def
    by (cases "pre_registered r") (auto simp: pre_registered_def intro: pump_ok_end uplink_ok_end)
  then show ?thesis
    unfolding give_up_def by (intro client_inv_set [OF assms]) (simp_all add: pre_registered_def)
qed

lemma c_establish_inv:
  assumes "client_inv s" and "crelays s rid = Some r" and "c_establish rid res r s = Some t"
  shows "client_inv t"
proof -
  have ok: "crelay_ok rid r s" using client_inv_relay_ok [OF assms(1,2)] .
  show ?thesis
    using assms(3) ok give_up_inv [OF assms(1,2)]
    by (auto simp: c_establish_def crelay_ok_fields split: client_phase.splits option.splits
        intro!: client_inv_set [OF assms(1,2)])
qed

lemma c_request_path_inv:
  assumes "client_inv s" and "crelays s rid = Some r" and "c_request_path rid ok r s = Some t"
  shows "client_inv t"
  using assms(3) client_inv_relay_ok [OF assms(1,2)] give_up_inv [OF assms(1,2)]
  by (auto simp: c_request_path_def crelay_ok_fields split: if_splits
      intro!: client_inv_set [OF assms(1,2)])

lemma c_identify_inv:
  assumes "client_inv s" and "crelays s rid = Some r" and "c_identify rid ok r s = Some t"
  shows "client_inv t"
  using assms(3) client_inv_relay_ok [OF assms(1,2)]
  by (auto simp: c_identify_def crelay_ok_fields split: if_splits
      intro!: client_inv_set [OF assms(1,2)])

lemma of_id_tag [simp]: "of_id i (map (Pair j) xs) = (if i = j then xs else [])"
  by (induction xs) auto

lemma targets_sends [simp]: "list_all (targets_link l) (map (SendToLink l) cs)"
  by (simp add: list_all_iff)

lemma free_no_sending: "udp_links_free s \<Longrightarrow> pending j s = []"
  by (simp add: udp_links_free_def pending_def split: udp_task.splits)

text \<open>Adding commands of one relay, with that relay's record replaced.\<close>

lemma client_inv_cmds:
  assumes "client_inv s" and "crelays s rid = Some r"
    and "crelays t = (crelays s)(rid \<mapsto> r')" and "next_crelay t = next_crelay s"
    and "c_commands t = c_commands s @ map (Pair rid) cmds"
    and "taken_up t = taken_up s" and "taken_down t = taken_down s" and "udp_out t = udp_out s"
    and "heard t = heard s" and "delivered t = delivered s" and "udp_task t = udp_task s"
    and "cr_src r' = cr_src r" and "cr_link r' = cr_link r" and "cr_pkt r' = cr_pkt r"
    and "\<not> pre_registered r'"
    and "list_all (targets_link (cr_link r)) cmds"
    and "pump_ok (of_id rid (taken_down s)) (of_id rid (udp_out s)) (cr_down r') (cr_reasm r') (cr_recv r')"
    and "uplink_ok (cr_pkt r) (of_id rid (taken_up s))
           (payloads (of_id rid (c_commands s)) @ payloads cmds)
           (cr_up r') (cr_send r' \<and> cr_phase r' \<noteq> FirstSendFailed)"
    and "\<And>src i. udp_links t src = Some i \<Longrightarrow>
           udp_links s src = Some i \<or> (i = rid \<and> src = cr_src r)"
    and "link_data_map t = link_data_map s"
  shows "client_inv t"
proof (rule client_inv_relay [OF assms(1,2,3,4)])
  have ok: "crelay_ok rid r s" using client_inv_relay_ok [OF assms(1,2)] .
  show "crelay_ok rid r' t"
    using ok assms(5-18) unfolding crelay_ok_def
    by (simp add: pending_cong [of t s] list_all_append)
qed (use assms in \<open>auto simp: pending_cong [of t s]\<close>)

lemma uplink_first:
  assumes "pre_registered r" and "crelay_ok rid r s"
  shows "uplink_ok (cr_pkt r) (of_id rid (taken_up s))
      (payloads (of_id rid (c_commands s)) @ take k (frame (cr_pkt r))) (cr_up r)
      (cr_send r \<and> length (frame (cr_pkt r)) \<le> k)"
  using assms uplink_ok_start [of "cr_pkt r"]
    uplink_ok_partial [of "take k (frame (cr_pkt r))" "cr_pkt r"]
  by (cases "length (frame (cr_pkt r)) \<le> k") (auto simp: crelay_ok_def take_is_prefix)

lemma c_register_inv:
  assumes "client_inv s" and "crelays s rid = Some r" and "c_register rid k r s = Some t"
  shows "client_inv t"
proof -
  have ok: "crelay_ok rid r s" using client_inv_relay_ok [OF assms(1,2)] .
  have ph: "cr_phase r = Registering" "pre_registered r"
    using assms(3) by (auto simp: c_register_def pre_registered_def split: if_splits)
  let ?r = "r\<lparr>cr_phase := if length (frame (cr_pkt r)) \<le> k then Attaching else FirstSendFailed\<rparr>"
  have t: "t = (set_crelay rid ?r s)\<lparr>udp_links := (udp_links s)(cr_src r \<mapsto> rid),
      c_commands := c_commands s @ map (Pair rid) (map (SendToLink (cr_link r)) (take k (frame (cr_pkt r))))\<rparr>"
    using assms(3) by (auto simp: c_register_def issue_frame Let_def set_crelay_def split: if_splits)
  note up = uplink_first [OF ph(2) ok, of k]
  show ?thesis
    by (rule client_inv_cmds [OF assms(1,2), where r' = ?r
          and cmds = "map (SendToLink (cr_link r)) (take k (frame (cr_pkt r)))"])
      (use ok ph up in \<open>auto simp: t pre_registered_def crelay_ok_def split: if_splits\<close>)
qed

lemma c_first_failed_inv:
  assumes "client_inv s" and "crelays s rid = Some r" and "c_first_failed rid r s = Some t"
  shows "client_inv t"
proof -
  have ok: "crelay_ok rid r s" using client_inv_relay_ok [OF assms(1,2)] .
  have ph: "cr_phase r = FirstSendFailed" "\<not> pre_registered r"
    using assms(3) by (auto simp: c_first_failed_def pre_registered_def split: if_splits)
  let ?r = "r\<lparr>cr_phase := Finished, cr_send := False, cr_up := [], cr_recv := False, cr_down := []\<rparr>"
  have t: "t = (give_up rid r s)\<lparr>udp_links := (udp_links s)(cr_src r := None),
      c_commands := c_commands s @ map (Pair rid) [CloseLink (cr_link r)]\<rparr>"
    using assms(3) by (auto simp: c_first_failed_def split: if_splits)
  show ?thesis
    by (rule client_inv_cmds [OF assms(1,2), where r' = ?r and cmds = "[CloseLink (cr_link r)]"])
      (use ok ph in \<open>auto simp: t give_up_def pre_registered_def crelay_ok_def
        intro: pump_ok_end uplink_ok_end split: if_splits\<close>)
qed

lemma c_end_inv:
  assumes "client_inv s" and "crelays s rid = Some r" and "c_end rid r s = Some t"
  shows "client_inv t"
proof -
  have ok: "crelay_ok rid r s" using client_inv_relay_ok [OF assms(1,2)] .
  have ph: "cr_phase r = Unregistering" "\<not> pre_registered r"
    using assms(3) by (auto simp: c_end_def pre_registered_def split: if_splits)
  have t: "t = (set_crelay rid (r\<lparr>cr_phase := Finished\<rparr>) s)
      \<lparr>udp_links := (udp_links s)(cr_src r := None),
       c_commands := c_commands s @ map (Pair rid) [CloseLink (cr_link r)]\<rparr>"
    using assms(3) by (auto simp: c_end_def split: if_splits)
  show ?thesis
    by (rule client_inv_cmds [OF assms(1,2), where r' = "r\<lparr>cr_phase := Finished\<rparr>"
          and cmds = "[CloseLink (cr_link r)]"])
      (use ok ph in \<open>auto simp: t pre_registered_def crelay_ok_def split: if_splits\<close>)
qed

lemma send_task_inv:
  assumes "client_inv s" and "crelays s rid = Some r" and "send_task rid k r s = Some t"
  shows "client_inv t"
proof -
  have ok: "crelay_ok rid r s" using client_inv_relay_ok [OF assms(1,2)] .
  have ph: "cr_phase r = Running" "\<not> pre_registered r" "cr_send r"
    using assms(3) by (auto simp: send_task_def pre_registered_def split: if_splits)
  have up: "uplink_ok (cr_pkt r) (of_id rid (taken_up s)) (payloads (of_id rid (c_commands s)))
      (cr_up r) True"
    using ok ph by (simp add: crelay_ok_def)
  have pump: "pump_ok (of_id rid (taken_down s)) (of_id rid (udp_out s)) (cr_down r) (cr_reasm r) (cr_recv r)"
    using ok by (simp add: crelay_ok_def)
  have ended: "client_inv (set_crelay rid (end_send r) s)"
    by (rule client_inv_set [OF assms(1,2)])
      (use ok ph uplink_ok_end in \<open>auto simp: end_send_def pre_registered_def crelay_ok_def\<close>)
  show ?thesis
  proof (cases "cr_up r")
    case Nil
    then show ?thesis using assms(3) ended ph by (auto simp: send_task_def split: if_splits)
  next
    case (Cons bytes rest)
    show ?thesis
    proof (cases "bytes = []")
      case True
      then show ?thesis using assms(3) ended ph Cons by (auto simp: send_task_def split: if_splits)
    next
      case False
      let ?r = "if length (frame bytes) \<le> k then r\<lparr>cr_up := rest\<rparr> else end_send r"
      let ?cmds = "map (SendToLink (cr_link r)) (take k (frame bytes))"
      have t: "t = (set_crelay rid ?r s)\<lparr>c_commands := c_commands s @ map (Pair rid) ?cmds\<rparr>"
        using assms(3) False Cons ph
        by (auto simp: send_task_def issue_frame Let_def set_crelay_def split: if_splits)
      show ?thesis
        by (rule client_inv_cmds [OF assms(1,2), where r' = ?r and cmds = ?cmds])
          (use ph pump uplink_ok_send [OF up [unfolded Cons], of k] in
            \<open>auto simp: t pre_registered_def end_send_def\<close>)
    qed
  qed
qed

lemma c_attach_inv:
  assumes "client_inv s" and "crelays s rid = Some r" and "c_attach rid r s = Some t"
  shows "client_inv t"
proof -
  have ok: "crelay_ok rid r s" using client_inv_relay_ok [OF assms(1,2)] .
  have ph: "cr_phase r = Attaching" "\<not> pre_registered r"
    using assms(3) by (auto simp: c_attach_def pre_registered_def split: if_splits)
  let ?r = "r\<lparr>cr_phase := Running\<rparr>"
  have t: "t = (set_crelay rid ?r s)\<lparr>link_data_map := (link_data_map s)(cr_link r \<mapsto> rid)\<rparr>"
    using assms(3) by (auto simp: c_attach_def split: if_splits)
  have "crelay_ok rid ?r t"
    by (rule crelay_ok_cong [of rid ?r s])
      (use ok ph in \<open>auto simp: t crelay_ok_def pre_registered_def pending_def\<close>)
  then show ?thesis
    by (intro client_inv_relay [OF assms(1,2), where r' = ?r])
      (use ph in \<open>auto simp: t pre_registered_def pending_def split: if_splits\<close>)
qed

lemma c_detach_inv:
  assumes "client_inv s" and "crelays s rid = Some r" and "c_detach rid r s = Some t"
  shows "client_inv t"
proof -
  have ok: "crelay_ok rid r s" using client_inv_relay_ok [OF assms(1,2)] .
  have ph: "cr_phase r = Running"
    using assms(3) by (auto simp: c_detach_def split: if_splits)
  let ?r = "r\<lparr>cr_phase := Unregistering\<rparr>"
  have t: "t = (set_crelay rid ?r s)\<lparr>link_data_map := (link_data_map s)(cr_link r := None)\<rparr>"
    using assms(3) by (auto simp: c_detach_def split: if_splits)
  have "client_inv (set_crelay rid ?r s)"
    by (rule client_inv_set [OF assms(1,2)])
      (use ok ph in \<open>auto simp: crelay_ok_def pre_registered_def\<close>)
  then show ?thesis
    by (rule client_inv_frame) (auto simp: t pending_def split: if_splits)
qed

lemma recv_task_inv:
  assumes "client_inv s" and "crelays s rid = Some r" and "recv_task rid ok r s = Some t"
  shows "client_inv t"
proof -
  have rok: "crelay_ok rid r s" using client_inv_relay_ok [OF assms(1,2)] .
  have ph: "cr_phase r = Running" "\<not> pre_registered r" "cr_recv r"
    using assms(3) by (auto simp: recv_task_def pre_registered_def split: if_splits)
  have pump: "pump_ok (of_id rid (taken_down s)) (of_id rid (udp_out s)) (cr_down r) (cr_reasm r) True"
    using rok ph by (simp add: crelay_ok_def)
  have ended: "client_inv (set_crelay rid (end_recv (r\<lparr>cr_reasm := re\<rparr>)) s)" for re
    by (rule client_inv_set [OF assms(1,2)])
      (use rok ph pump_ok_end in \<open>auto simp: end_recv_def pre_registered_def crelay_ok_def\<close>)
  show ?thesis
  proof (cases "cr_down r")
    case Nil
    then show ?thesis
      using assms(3) ended [of "cr_reasm r"] ph by (auto simp: recv_task_def split: if_splits)
  next
    case (Cons c rest)
    obtain reasm out where p: "push (cr_reasm r) c = (reasm, out)" by fastforce
    let ?r = "r\<lparr>cr_down := rest, cr_reasm := reasm\<rparr>"
    let ?out = "case out of None \<Rightarrow> [] | Some d \<Rightarrow> [d]"
    let ?u = "(set_crelay rid ?r s)\<lparr>udp_out := udp_out s @ map (Pair rid) ?out\<rparr>"
    have "crelay_ok rid ?r ?u"
      using rok ph pump_ok_dequeue [OF pump [unfolded Cons] p]
      by (auto simp: crelay_ok_def pre_registered_def pending_def)
    then have "client_inv ?u"
      by (intro client_inv_relay [OF assms(1,2), where r' = ?r])
        (use ph in \<open>auto simp: pre_registered_def pending_def\<close>)
    moreover have "t = ?u \<or> t = set_crelay rid (end_recv (r\<lparr>cr_reasm := reasm\<rparr>)) s"
      using assms(3) Cons p ph
      by (auto simp: recv_task_def set_crelay_def split: if_splits option.splits)
    ultimately show ?thesis using ended by blast
  qed
qed

lemma client_route_inv:
  assumes "client_inv s"
  shows "client_inv (client_route now ev s)"
proof (cases ev)
  case (LinkData l bytes)
  let ?s = "s\<lparr>delivered := delivered s @ [(l, bytes)]\<rparr>"
  have base: "client_inv ?s"
    by (rule client_inv_frame [OF assms]) (auto simp: pending_def)
  show ?thesis
  proof (cases "client_route now ev s = ?s")
    case True
    then show ?thesis using base by simp
  next
    case False
    then obtain rid r where r: "link_data_map s l = Some rid" "crelays s rid = Some r"
      "cr_recv r" "length (cr_down r) < RELAY_QUEUE"
      "client_route now ev s = (set_crelay rid (r\<lparr>cr_down := cr_down r @ [bytes]\<rparr>) ?s)
         \<lparr>taken_down := taken_down s @ [(rid, bytes)]\<rparr>"
      using LinkData by (auto simp: client_route_def Let_def split: option.splits if_splits)
    have l: "cr_link r = l" "\<not> pre_registered r"
      using client_inv_tables(2) [OF assms r(1)] r(2) by auto
    have ok: "crelay_ok rid r s" using client_inv_relay_ok [OF assms r(2)] .
    have "subseq (of_id rid (taken_down s) @ [bytes]) (of_id l (delivered s) @ [bytes])"
      using ok l(1) unfolding crelay_ok_def by auto
    then have "crelay_ok rid (r\<lparr>cr_down := cr_down r @ [bytes]\<rparr>) (client_route now ev s)"
      using ok l r(3-5) by (auto simp: crelay_ok_def pre_registered_def pending_def intro: pump_ok_enqueue)
    then show ?thesis
      by (intro client_inv_relay [OF assms r(2)]) (use l r(5) in \<open>auto simp: pre_registered_def pending_def\<close>)
  qed
qed (rule client_inv_frame [OF assms]; auto simp: client_route_def pending_def split: if_splits)+

lemma udp_send_inv:
  assumes "client_inv s" and "crelays s rid = Some r" and "\<not> pre_registered r" and "cr_src r = src"
    and "subseq (cr_pkt r # of_id rid (taken_up s) @ [pkt]) (of_id src (heard s))"
    and "udp_task s = UdpReady \<or> udp_task s = UdpSending src rid pkt"
  shows "client_inv (udp_send src rid pkt s)"
proof -
  have ok: "crelay_ok rid r s" using client_inv_relay_ok [OF assms(1,2)] .
  have none: "client_inv (s\<lparr>udp_task := UdpRemoving src\<rparr>)"
    by (rule client_inv_frame [OF assms(1)]) (auto simp: pending_def)
  let ?w = "s\<lparr>udp_task := UdpSending src rid pkt\<rparr>"
  have "crelay_ok rid r ?w"
    using ok assms(3-5) by (auto simp: crelay_ok_def pending_def)
  then have wait: "client_inv ?w"
    by (intro client_inv_relay [OF assms(1,2), where r' = r])
      (use assms(2-4) in \<open>auto simp: pending_def\<close>)
  let ?r = "r\<lparr>cr_up := cr_up r @ [pkt]\<rparr>"
  let ?q = "(set_crelay rid ?r s)\<lparr>udp_task := UdpReady, taken_up := taken_up s @ [(rid, pkt)]\<rparr>"
  have room: "client_inv ?q" if "length (cr_up r) < RELAY_QUEUE"
  proof -
    have "crelay_ok rid ?r ?q"
      using ok assms(3-5) that
      by (auto simp: crelay_ok_def pending_def pre_registered_def intro: uplink_ok_enqueue)
    then show ?thesis
      by (intro client_inv_relay [OF assms(1,2), where r' = ?r])
        (use assms(3,4) in \<open>auto simp: pending_def pre_registered_def\<close>)
  qed
  show ?thesis
    using none wait room assms(2) by (simp add: udp_send_def)
qed

lemma udp_recv_inv:
  assumes "client_inv s" and "udp_recv res s = Some t"
  shows "client_inv t"
proof (cases res)
  case None
  have "client_inv (s\<lparr>udp_task := UdpDead\<rparr>)"
    by (rule client_inv_frame [OF assms(1)]) (auto simp: pending_def)
  then show ?thesis using assms(2) None by (auto simp: udp_recv_def split: if_splits)
next
  case (Some p)
  obtain src wire where p: "p = (src, wire)" by fastforce
  let ?pkt = "take UDP_READ_BUF wire"
  let ?s = "s\<lparr>heard := heard s @ [(src, ?pkt)]\<rparr>"
  have ready: "udp_task s = UdpReady" and t: "t = udp_packet src ?pkt ?s"
    using assms(2) Some p by (auto simp: udp_recv_def Let_def split: if_splits)
  have base: "client_inv ?s"
    by (rule client_inv_frame [OF assms(1)]) (auto simp: pending_def)
  have no_pending: "pending j u = []" if "udp_task u = UdpReady" for j u
    using that by (simp add: pending_def)
  show ?thesis
  proof (cases "udp_links s src")
    case (Some rid)
    then obtain r where r: "crelays s rid = Some r" "cr_src r = src" "\<not> pre_registered r"
      using client_inv_tables(1) [OF assms(1)] by blast
    have "subseq (cr_pkt r # of_id rid (taken_up s)) (of_id src (heard s))"
      using client_inv_relay_ok [OF assms(1) r(1)] r(2) no_pending [OF ready]
      by (simp add: crelay_ok_def)
    then have "subseq ((cr_pkt r # of_id rid (taken_up s)) @ [?pkt]) (of_id src (heard s) @ [?pkt])"
      by (simp only: subseq_append)
    then show ?thesis
      using t Some udp_send_inv [OF base, of rid r src ?pkt] r ready by (simp add: udp_packet_def)
  next
    case None
    show ?thesis
    proof (cases "server_target s")
      case None
      then show ?thesis using t base \<open>udp_links s src = None\<close> by (simp add: udp_packet_def)
    next
      case (Some target)
      have fresh: "crelays s (next_crelay s) = None"
        using assms(1) unfolding client_inv_def by (metis less_irrefl not_None_eq)
      then have logs: "of_id (next_crelay s) (taken_up s) = []" "of_id (next_crelay s) (taken_down s) = []"
        "of_id (next_crelay s) (c_commands s) = []" "of_id (next_crelay s) (udp_out s) = []"
        using assms(1) by (auto simp: client_inv_def)
      let ?r = "new_crelay src target ?pkt"
      have t': "t = ?s\<lparr>crelays := (crelays s)(next_crelay s \<mapsto> ?r), next_crelay := Suc (next_crelay s)\<rparr>"
        using t None Some by (simp add: udp_packet_def)
      have new: "crelay_ok (next_crelay s) ?r t"
        using logs no_pending [OF ready]
        by (auto simp: t' crelay_ok_def new_crelay_def pre_registered_def pump_ok_start pending_def)
      have old: "crelay_ok j q t" if "crelays s j = Some q" for j q
        by (rule crelay_ok_cong [OF client_inv_relay_ok [OF assms(1) that]]) (auto simp: t' pending_def)
      have dom: "j < next_crelay s" if "crelays s j = Some q" for j q
        using assms(1) that by (auto simp: client_inv_def)
      have keep: "crelays t j = Some q" if "crelays s j = Some q" for j q
        using dom [OF that] that by (simp add: t')
      have tabs: "udp_links t = udp_links s" "link_data_map t = link_data_map s" by (simp_all add: t')
      show ?thesis unfolding client_inv_def
      proof (intro conjI allI impI)
        fix j q assume "crelays t j = Some q"
        then show "j < next_crelay t" "crelay_ok j q t"
          using new old dom by (auto simp: t' less_Suc_eq split: if_splits)
      next
        fix j assume "crelays t j = None"
        then show "of_id j (taken_up t) = []" "of_id j (taken_down t) = []"
          "of_id j (c_commands t) = []" "of_id j (udp_out t) = []"
          using assms(1) by (auto simp: t' client_inv_def split: if_splits)
      next
        fix a j assume "udp_links t a = Some j"
        then show "\<exists>q. crelays t j = Some q \<and> cr_src q = a \<and> \<not> pre_registered q"
          using client_inv_tables(1) [OF assms(1), of a j] keep [of j] tabs(1) by metis
      next
        fix l j assume "link_data_map t l = Some j"
        then show "\<exists>q. crelays t j = Some q \<and> cr_link q = l \<and> \<not> pre_registered q"
          using client_inv_tables(2) [OF assms(1), of l j] keep [of j] tabs(2) by metis
      next
        fix a j p assume "udp_task t = UdpSending a j p"
        then show "\<exists>q. crelays t j = Some q \<and> cr_src q = a \<and> \<not> pre_registered q"
          using ready by (simp add: t')
      qed
    qed
  qed
qed

lemma udp_resume_inv:
  assumes "client_inv s" and "udp_resume s = Some t"
  shows "client_inv t"
proof (cases "udp_task s")
  case (UdpSending src rid pkt)
  then obtain r where r: "crelays s rid = Some r" "cr_src r = src" "\<not> pre_registered r"
    using client_inv_tables(3) [OF assms(1)] by blast
  have "subseq (cr_pkt r # of_id rid (taken_up s) @ [pkt]) (of_id src (heard s))"
    using client_inv_relay_ok [OF assms(1) r(1)] r(2) UdpSending by (simp add: crelay_ok_def pending_def)
  then have "client_inv (udp_send src rid pkt s)"
    using udp_send_inv [OF assms(1) r(1,3,2)] UdpSending by blast
  then show ?thesis
    using assms(2) UdpSending by (auto simp: udp_resume_def Let_def split: if_splits)
qed (use assms(2) in \<open>auto simp: udp_resume_def udp_links_free_def\<close>)

lemmas crelay_inv =
  c_establish_inv c_request_path_inv c_identify_inv c_register_inv c_first_failed_inv c_attach_inv
  send_task_inv recv_task_inv c_detach_inv c_end_inv

lemma with_crelay_eq:
  "with_crelay rid s f = Some t \<longleftrightarrow> (\<exists>r. crelays s rid = Some r \<and> f r s = Some t)"
  by (auto simp: with_crelay_def split: option.splits)

lemma client_step_inv: "client_step s a = Some t \<Longrightarrow> client_inv s \<Longrightarrow> client_inv t"
  by (cases a) (auto simp: with_crelay_eq intro: client_route_inv udp_recv_inv udp_resume_inv crelay_inv)

lemma client_run_inv: "client_run s as t \<Longrightarrow> client_inv s \<Longrightarrow> client_inv t"
  by (induction rule: client_run.induct) (auto dest: client_step_inv)

subsection \<open>The listener that waits for its own lock\<close>

lemma client_step_removing:
  assumes "udp_task s = UdpRemoving src" and "client_step s a = Some t"
  shows "udp_task t = UdpRemoving src"
  using assms
  by (cases a)
    (auto simp: with_crelay_eq udp_recv_def udp_resume_def udp_links_free_def client_route_def
      c_establish_def c_request_path_def c_identify_def c_register_def c_first_failed_def c_attach_def
      send_task_def recv_task_def c_detach_def c_end_def give_up_def Let_def
      split: if_splits option.splits list.splits prod.splits bridge_event.splits client_phase.splits)

lemma client_run_removing:
  "client_run s as t \<Longrightarrow> udp_task s = UdpRemoving src \<Longrightarrow> udp_task t = UdpRemoving src"
  by (induction rule: client_run.induct) (auto dest: client_step_removing)

subsection \<open>Sources bound to a link\<close>

text \<open>
  The only relay of a source runs on a link, and its uplink channel holds ordinary packets.
\<close>

definition ordinary :: "bytes \<Rightarrow> bool" where
  "ordinary p \<longleftrightarrow> p \<noteq> [] \<and> length p \<le> UDP_READ_BUF"

definition bound :: "socket_addr \<Rightarrow> nat \<Rightarrow> link_id \<Rightarrow> client_state \<Rightarrow> bool" where
  "bound src rid l s \<longleftrightarrow>
     udp_links s src = Some rid
     \<and> (\<exists>r. crelays s rid = Some r \<and> cr_src r = src \<and> cr_link r = l \<and> cr_phase r = Running
          \<and> cr_send r \<and> list_all ordinary (cr_up r) \<and> list_all ordinary (pending rid s))
     \<and> (\<forall>j q. crelays s j = Some q \<longrightarrow> cr_src q = src \<longrightarrow> j = rid)"

text \<open>
  The events that end a relay's uplink: an empty datagram of its source, an engine that
  refuses a command.
\<close>

fun ends_uplink :: "socket_addr \<Rightarrow> nat \<Rightarrow> client_action \<Rightarrow> bool" where
  "ends_uplink src rid (UdpRecv (Some (a, wire))) \<longleftrightarrow> a = src \<and> wire = []"
| "ends_uplink src rid (SendTask j k) \<longleftrightarrow> j = rid \<and> k < 5"
| "ends_uplink src rid _ \<longleftrightarrow> False"

text \<open>What the step of one relay task may change outside its own record.\<close>

definition own_step :: "nat \<Rightarrow> crelay \<Rightarrow> client_state \<Rightarrow> client_state \<Rightarrow> bool" where
  "own_step j q s t \<longleftrightarrow> (\<exists>q'. crelays t = (crelays s)(j \<mapsto> q') \<and> cr_src q' = cr_src q)
     \<and> (\<forall>a. a \<noteq> cr_src q \<longrightarrow> udp_links t a = udp_links s a) \<and> udp_task t = udp_task s
     \<and> next_crelay t = next_crelay s"

lemma own_steps:
  "c_establish j res q s = Some t \<Longrightarrow> own_step j q s t"
  "c_request_path j ok q s = Some t \<Longrightarrow> own_step j q s t"
  "c_identify j ok q s = Some t \<Longrightarrow> own_step j q s t"
  "c_register j k q s = Some t \<Longrightarrow> own_step j q s t"
  "c_first_failed j q s = Some t \<Longrightarrow> own_step j q s t"
  "c_attach j q s = Some t \<Longrightarrow> own_step j q s t"
  "send_task j k q s = Some t \<Longrightarrow> own_step j q s t"
  "recv_task j ok q s = Some t \<Longrightarrow> own_step j q s t"
  "c_detach j q s = Some t \<Longrightarrow> own_step j q s t"
  "c_end j q s = Some t \<Longrightarrow> own_step j q s t"
  by (auto simp: own_step_def c_establish_def c_request_path_def c_identify_def c_register_def
      c_first_failed_def c_attach_def send_task_def recv_task_def c_detach_def c_end_def give_up_def
      end_send_def end_recv_def Let_def fun_eq_iff
      split: if_splits option.splits list.splits prod.splits client_phase.splits send_outcome.splits)

lemma boundE:
  assumes "bound src rid l s"
  obtains r where "udp_links s src = Some rid" "crelays s rid = Some r" "cr_src r = src"
    "cr_link r = l" "cr_phase r = Running" "cr_send r" "list_all ordinary (cr_up r)"
    "list_all ordinary (pending rid s)" "\<And>j q. crelays s j = Some q \<Longrightarrow> cr_src q = src \<Longrightarrow> j = rid"
  using assms unfolding bound_def by blast

lemma boundI:
  assumes "udp_links s src = Some rid" and "crelays s rid = Some r" and "cr_src r = src"
    and "cr_link r = l" and "cr_phase r = Running" and "cr_send r" and "list_all ordinary (cr_up r)"
    and "list_all ordinary (pending rid s)"
    and "\<And>j q. crelays s j = Some q \<Longrightarrow> cr_src q = src \<Longrightarrow> j = rid"
  shows "bound src rid l s"
  using assms unfolding bound_def by blast

lemma bound_other:
  assumes "bound src rid l s" and "crelays s j = Some q" and "j \<noteq> rid" and "own_step j q s t"
  shows "bound src rid l t"
proof -
  obtain r where r: "udp_links s src = Some rid" "crelays s rid = Some r" "cr_src r = src"
    "cr_link r = l" "cr_phase r = Running" "cr_send r" "list_all ordinary (cr_up r)"
    "list_all ordinary (pending rid s)"
    and uniq: "\<And>j q. crelays s j = Some q \<Longrightarrow> cr_src q = src \<Longrightarrow> j = rid"
    using boundE [OF assms(1)] by metis
  have src: "cr_src q \<noteq> src" using uniq assms(2,3) by blast
  obtain q' where q': "crelays t = (crelays s)(j \<mapsto> q')" "cr_src q' = cr_src q"
    "udp_links t src = udp_links s src" "udp_task t = udp_task s"
    using assms(4) src unfolding own_step_def by metis
  have rel: "crelays t rid = Some r" using q'(1) assms(3) r(2) by simp
  have "i = rid" if "crelays t i = Some p" "cr_src p = src" for i p
    using that q'(1,2) src uniq by (cases "i = j") auto
  then show ?thesis
    using boundI [of t src rid r l] rel r(1,3-8) q'(3) pending_cong [OF q'(4), of rid] by metis
qed

lemma bound_relay:
  assumes "bound src rid l s" and "crelays t = (crelays s)(rid \<mapsto> r')" and "cr_src r' = src"
    and "cr_link r' = l" and "cr_phase r' = Running" and "cr_send r'"
    and "list_all ordinary (cr_up r')" and "list_all ordinary (pending rid t)"
    and "udp_links t src = udp_links s src"
  shows "bound src rid l t"
proof -
  obtain r where r: "udp_links s src = Some rid"
    and uniq: "\<And>j q. crelays s j = Some q \<Longrightarrow> cr_src q = src \<Longrightarrow> j = rid"
    using boundE [OF assms(1)] by metis
  have "i = rid" if "crelays t i = Some p" "cr_src p = src" for i p
    using that assms(2) uniq by (cases "i = rid") auto
  then show ?thesis
    using boundI [of t src rid r' l] assms(2-9) r by (metis map_upd_Some_unfold)
qed

lemma ordinary_frame: "ordinary p \<Longrightarrow> length (frame p) \<le> 5"
proof -
  assume "ordinary p"
  then have "length p \<le> 8192" by (simp add: ordinary_def UDP_READ_BUF_def)
  then have "(length p + MAX_CHUNK - 1) div MAX_CHUNK \<le> 5" by (simp add: MAX_CHUNK_def)
  then show ?thesis
    using length_chunks_count [of MAX_CHUNK p] by (simp add: frame_chunks MAX_CHUNK_def)
qed

lemma send_task_bound:
  assumes "bound src rid l s" and "crelays s rid = Some r" and "send_task rid k r s = Some t" and "5 \<le> k"
  shows "bound src rid l t"
proof -
  obtain r' where "udp_links s src = Some rid" "crelays s rid = Some r'" "cr_src r' = src"
    "cr_link r' = l" "cr_phase r' = Running" "cr_send r'" "list_all ordinary (cr_up r')"
    "list_all ordinary (pending rid s)"
    using boundE [OF assms(1)] by metis
  then have r: "udp_links s src = Some rid" "cr_src r = src" "cr_link r = l" "cr_phase r = Running"
    "cr_send r" "list_all ordinary (cr_up r)" "list_all ordinary (pending rid s)"
    using assms(2) by auto
  show ?thesis
  proof (cases "cr_up r")
    case Nil
    then show ?thesis using assms(3) r by (auto simp: send_task_def up_sender_def split: if_splits)
  next
    case (Cons p rest)
    then have p: "p \<noteq> []" "length (frame p) \<le> k"
      using r(6) ordinary_frame [of p] assms(4) by (auto simp: ordinary_def)
    have "crelays t = (crelays s)(rid \<mapsto> r\<lparr>cr_up := rest\<rparr>)" "udp_links t = udp_links s"
      "udp_task t = udp_task s"
      using assms(3) Cons p r by (auto simp: send_task_def issue_frame Let_def split: if_splits)
    then show ?thesis
      by (intro bound_relay [OF assms(1), of t "r\<lparr>cr_up := rest\<rparr>"]) (use r Cons in \<open>auto simp: pending_cong [of t s]\<close>)
  qed
qed

lemma recv_task_bound:
  assumes "bound src rid l s" and "crelays s rid = Some r" and "recv_task rid ok r s = Some t"
  shows "bound src rid l t"
proof -
  obtain r' where "udp_links s src = Some rid" "crelays s rid = Some r'" "cr_src r' = src"
    "cr_link r' = l" "cr_phase r' = Running" "cr_send r'" "list_all ordinary (cr_up r')"
    "list_all ordinary (pending rid s)"
    using boundE [OF assms(1)] by metis
  then have r: "cr_src r = src" "cr_link r = l" "cr_phase r = Running"
    "cr_send r" "list_all ordinary (cr_up r)" "list_all ordinary (pending rid s)"
    using assms(2) by auto
  obtain q where q: "crelays t = (crelays s)(rid \<mapsto> q)" "cr_src q = cr_src r" "cr_link q = cr_link r"
    "cr_phase q = cr_phase r" "cr_send q = cr_send r" "cr_up q = cr_up r"
    "udp_links t = udp_links s" "udp_task t = udp_task s"
    using assms(3) by (fastforce simp: recv_task_def end_recv_def
        split: if_splits list.splits prod.splits option.splits)
  then show ?thesis
    by (intro bound_relay [OF assms(1) q(1)]) (use r q in \<open>auto simp: pending_cong [of t s]\<close>)
qed

lemma client_route_bound:
  assumes "bound src rid l s"
  shows "bound src rid l (client_route now ev s)"
proof -
  let ?t = "client_route now ev s"
  have keep: "udp_links ?t = udp_links s" "udp_task ?t = udp_task s"
    by (auto simp: client_route_def Let_def split: bridge_event.splits option.splits)
  have rel: "\<exists>q'. crelays ?t j = Some q' \<and> cr_src q' = cr_src q \<and> cr_link q' = cr_link q
      \<and> cr_phase q' = cr_phase q \<and> cr_send q' = cr_send q \<and> cr_up q' = cr_up q"
    if "crelays s j = Some q" for j q
    using that by (auto simp: client_route_def Let_def split: bridge_event.splits option.splits)
  have dom: "\<exists>q. crelays s j = Some q \<and> cr_src q = cr_src q'" if "crelays ?t j = Some q'" for j q'
    using that
    by (auto simp: client_route_def Let_def split: bridge_event.splits option.splits if_splits)
  obtain r where r: "udp_links s src = Some rid" "crelays s rid = Some r" "cr_src r = src"
    "cr_link r = l" "cr_phase r = Running" "cr_send r" "list_all ordinary (cr_up r)"
    "list_all ordinary (pending rid s)"
    and uniq: "\<And>j q. crelays s j = Some q \<Longrightarrow> cr_src q = src \<Longrightarrow> j = rid"
    using boundE [OF assms] by metis
  obtain r' where r': "crelays ?t rid = Some r'" "cr_src r' = src" "cr_link r' = l"
    "cr_phase r' = Running" "cr_send r'" "cr_up r' = cr_up r"
    using rel [OF r(2)] r(3-6) by auto
  have "j = rid" if "crelays ?t j = Some q" "cr_src q = src" for j q
    using dom [OF that(1)] that(2) uniq by auto
  then show ?thesis
    using boundI [OF _ r'(1-5)] r(1,7,8) r'(6) keep pending_cong [OF keep(2), of rid] by metis
qed

text \<open>The listener sends a packet to the relay of some source.\<close>

lemma udp_send_bound:
  assumes "bound src rid l s" and "client_inv s"
    and "crelays s j = Some q" and "cr_src q = a" and "a = src \<longrightarrow> ordinary pkt"
    and "\<forall>i. pending i s \<noteq> [] \<longrightarrow> i = j"
  shows "bound src rid l (udp_send a j pkt s)"
proof -
  let ?t = "udp_send a j pkt s"
  obtain r where r: "udp_links s src = Some rid" "crelays s rid = Some r" "cr_src r = src"
    "cr_link r = l" "cr_phase r = Running" "cr_send r" "list_all ordinary (cr_up r)"
    "list_all ordinary (pending rid s)"
    and uniq: "\<And>i p. crelays s i = Some p \<Longrightarrow> cr_src p = src \<Longrightarrow> i = rid"
    using boundE [OF assms(1)] by metis
  have links: "udp_links ?t = udp_links s"
    using assms(3) by (simp add: udp_send_def)
  obtain q' where q': "crelays ?t = (crelays s)(j \<mapsto> q')" "cr_src q' = cr_src q" "cr_link q' = cr_link q"
    "cr_phase q' = cr_phase q" "cr_send q' = cr_send q" "cr_up q' = cr_up q \<or> cr_up q' = cr_up q @ [pkt]"
    by (rule that [of "if cr_send q \<and> length (cr_up q) < RELAY_QUEUE
          then q\<lparr>cr_up := cr_up q @ [pkt]\<rparr> else q"])
      (use assms(3) in \<open>simp_all add: udp_send_def fun_upd_idem\<close>)
  have pend: "pending rid ?t = [] \<or> (j = rid \<and> pending rid ?t = [pkt])"
    using assms(3) by (auto simp: udp_send_def pending_def)
  have uniq': "i = rid" if "crelays ?t i = Some p" "cr_src p = src" for i p
    using that q'(1,2) uniq assms(3) by (cases "i = j") auto
  show ?thesis
  proof (cases "j = rid")
    case True
    then have e: "crelays ?t = (crelays s)(rid \<mapsto> q')" "q = r" "ordinary pkt"
      using assms(3-5) q'(1) r(2,3) by auto
    show ?thesis
      by (rule bound_relay [OF assms(1) e(1)]) (use e q' r pend links in auto)
  next
    case False
    then have e: "crelays ?t rid = Some r" "list_all ordinary (pending rid ?t)"
      using q'(1) r(2) pend by auto
    have "udp_links ?t src = Some rid" using links r(1) by simp
    then show ?thesis
      by (rule boundI [OF _ e(1) r(3-7) e(2) uniq'])
  qed
qed

lemma bound_history:
  assumes "bound src rid l s" and "crelays t = crelays s" and "udp_links t = udp_links s"
    and "udp_task t = udp_task s"
  shows "bound src rid l t"
  using assms pending_cong [OF assms(4), of rid] by (simp add: bound_def)

lemma udp_recv_bound:
  assumes "bound src rid l s" and "client_inv s" and "udp_recv res s = Some t"
    and "\<not> ends_uplink src rid (UdpRecv res)"
  shows "bound src rid l t"
proof (cases res)
  case None
  then have "t = s\<lparr>udp_task := UdpDead\<rparr>" "udp_task s = UdpReady"
    using assms(3) by (auto simp: udp_recv_def split: if_splits)
  then show ?thesis using assms(1) by (simp add: bound_def pending_def)
next
  case (Some p)
  obtain a wire where p: "p = (a, wire)" by fastforce
  let ?pkt = "take UDP_READ_BUF wire"
  let ?s = "s\<lparr>heard := heard s @ [(a, ?pkt)]\<rparr>"
  have t: "t = udp_packet a ?pkt ?s" "udp_task s = UdpReady"
    using assms(3) Some p by (auto simp: udp_recv_def Let_def split: if_splits)
  have b: "bound src rid l ?s" by (rule bound_history [OF assms(1)]) simp_all
  have i: "client_inv ?s" by (rule client_inv_frame [OF assms(2)]) (auto simp: pending_def)
  have o: "a = src \<longrightarrow> ordinary ?pkt"
    using assms(4) Some p by (auto simp: ordinary_def UDP_READ_BUF_def)
  show ?thesis
  proof (cases "udp_links s a")
    case (Some j)
    then obtain q where "crelays ?s j = Some q" "cr_src q = a"
      using client_inv_tables(1) [OF assms(2), of a j] by auto
    then show ?thesis
      using udp_send_bound [OF b i _ _ o] t Some by (auto simp: udp_packet_def pending_def)
  next
    case None
    then have a: "a \<noteq> src" using boundE [OF assms(1)] by (metis option.distinct(1))
    show ?thesis
    proof (cases "server_target s")
      case None
      then show ?thesis using t b \<open>udp_links s a = None\<close> by (simp add: udp_packet_def)
    next
      case (Some target)
      obtain r where r: "udp_links s src = Some rid" "crelays s rid = Some r" "cr_src r = src"
        "cr_link r = l" "cr_phase r = Running" "cr_send r" "list_all ordinary (cr_up r)"
        "list_all ordinary (pending rid s)"
        and uniq: "\<And>i p. crelays s i = Some p \<Longrightarrow> cr_src p = src \<Longrightarrow> i = rid"
        using boundE [OF assms(1)] by metis
      have t': "crelays t = (crelays s)(next_crelay s \<mapsto> new_crelay a target ?pkt)"
        "udp_links t = udp_links s" "udp_task t = udp_task s"
        using t None Some by (simp_all add: udp_packet_def)
      have "rid < next_crelay s" using assms(2) r(2) by (simp add: client_inv_def)
      then have e: "crelays t rid = Some r" using t'(1) r(2) by simp
      have u: "i = rid" if "crelays t i = Some p" "cr_src p = src" for i p
        using that t'(1) uniq a by (cases "i = next_crelay s") (auto simp: new_crelay_def)
      have ls: "udp_links t src = Some rid" "list_all ordinary (pending rid t)"
        using t'(2) r(1,8) pending_cong [OF t'(3), of rid] by simp_all
      show ?thesis by (rule boundI [OF ls(1) e r(3-7) ls(2) u])
    qed
  qed
qed

lemma udp_resume_bound:
  assumes "bound src rid l s" and "client_inv s" and "udp_resume s = Some t"
  shows "bound src rid l t"
proof (cases "udp_task s")
  case (UdpSending a j pkt)
  then obtain q where q: "crelays s j = Some q" "cr_src q = a"
    using client_inv_tables(3) [OF assms(2), of a j pkt] by auto
  have t: "t = udp_send a j pkt s"
    using assms(3) UdpSending by (auto simp: udp_resume_def Let_def split: if_splits)
  have "ordinary pkt" if "a = src"
  proof -
    have "j = rid" using boundE [OF assms(1)] q that by metis
    then have "pending rid s = [pkt]" using UdpSending by (simp add: pending_def)
    then show ?thesis using boundE [OF assms(1)] by (metis list.pred_inject(2))
  qed
  then show ?thesis
    using udp_send_bound [OF assms(1,2) q, of pkt] t UdpSending by (auto simp: pending_def split: if_splits)
qed (use assms(3) in \<open>auto simp: udp_resume_def udp_links_free_def\<close>)

lemma client_step_bound:
  assumes "client_step s a = Some t" and "client_inv s" and "bound src rid l s"
    and "\<not> ends_uplink src rid a"
  shows "bound src rid l t"
proof -
  obtain r where r: "crelays s rid = Some r" "cr_phase r = Running" "cr_send r"
    using boundE [OF assms(3)] by metis
  have other: "bound src rid l t" if "crelays s j = Some q" "own_step j q s t" "j \<noteq> rid" for j q
    using bound_other [OF assms(3) that(1,3,2)] .
  have own: "\<exists>q. crelays s j = Some q \<and> own_step j q s t"
    if "with_crelay j s f = Some t" "\<And>q. f q s = Some t \<Longrightarrow> own_step j q s t" for j f
    using that by (auto simp: with_crelay_eq)
  have mine: "bound src rid l t" if "with_crelay j s f = Some t" "f r s = None"
    "\<And>q. f q s = Some t \<Longrightarrow> own_step j q s t" for j f
    using that r(1) own [OF that(1,3)] other by (cases "j = rid") (auto simp: with_crelay_eq)
  note stuck = c_establish_def c_request_path_def c_identify_def c_register_def c_first_failed_def
    c_attach_def c_detach_def c_end_def
  show ?thesis
  proof (cases a)
    case (SendTask j k)
    then show ?thesis
      using assms(1,4) r(1) own [of j "send_task j k"] own_steps(7) other
        send_task_bound [OF assms(3) r(1)]
      by (cases "j = rid") (auto simp: with_crelay_eq)
  next
    case (RecvTask j ok)
    then show ?thesis
      using assms(1,4) r(1) own [of j "recv_task j ok"] own_steps(8) other
        recv_task_bound [OF assms(3) r(1)]
      by (cases "j = rid") (auto simp: with_crelay_eq)
  next
    case (UdpRecv res)
    then show ?thesis using udp_recv_bound [OF assms(3,2)] assms(1,4) by simp
  next
    case UdpResume
    then show ?thesis using udp_resume_bound [OF assms(3,2)] assms(1) by simp
  next
    case (CRoute now ev)
    then show ?thesis using client_route_bound [OF assms(3)] assms(1) by auto
  qed (use assms(1) r(2,3) in \<open>auto intro!: mine intro: own_steps simp: stuck\<close>)
qed

lemma client_run_bound:
  "client_run s as t \<Longrightarrow> client_inv s \<Longrightarrow> bound src rid l s \<Longrightarrow>
   \<forall>a\<in>set as. \<not> ends_uplink src rid a \<Longrightarrow> bound src rid l t"
  by (induction rule: client_run.induct) (auto dest: client_step_bound client_step_inv)

subsection \<open>Properties of the client side\<close>

definition client_demo_src :: socket_addr where
  "client_demo_src = (0x7F000001, 50000)"

definition client_demo_link :: link_id where
  "client_demo_link = replicate 16 9"

definition client_demo_run :: "client_action list" where
  "client_demo_run =
     [UdpRecv (Some (client_demo_src, [104])), Establish 0 (Some client_demo_link),
      Identify 0 True, Register 0 5, Attach 0, UdpRecv (Some (client_demo_src, [105])),
      SendTask 0 5, CRoute 1 (LinkData client_demo_link [1, 65]), RecvTask 0 True]"

lemma client_runs_ok:
  "client_run (client_init target) as s \<Longrightarrow> crelays s rid = Some r \<Longrightarrow> crelay_ok rid r s"
  using client_run_inv client_inv_init client_inv_relay_ok by blast

lemmas client_defs =
  client_init_def client_route_def udp_recv_def udp_packet_def udp_send_def udp_resume_def
  new_crelay_def c_establish_def c_identify_def c_register_def c_attach_def send_task_def
  recv_task_def with_crelay_def udp_links_free_def up_sender_def end_send_def
  RELAY_QUEUE_def UDP_READ_BUF_def

lemma frame_one_byte: "frame [b] = [[1, b]]"
  by (simp add: frame_short MAX_CHUNK_def FLAG_FINAL_def)

lemma issue_one_byte: "issue_frames 5 l (frame [b]) = ([SendToLink l [1, b]], AllSent)"
  using issue_frame [of 5 l "[b]"] by (simp add: frame_one_byte)

lemma client_demo_result:
  "\<exists>s r. client_run (client_init (Some [1])) client_demo_run s
     \<and> crelays s 0 = Some r \<and> cr_link r = client_demo_link \<and> cr_src r = client_demo_src
     \<and> cr_pkt r = [104] \<and> taken_up s = [(0, [105])] \<and> taken_down s = [(0, [1, 65])]
     \<and> udp_out s = [(0, [65])] \<and> udp_task s = UdpReady
     \<and> c_commands s = [(0, SendToLink client_demo_link [1, 104]), (0, SendToLink client_demo_link [1, 105])]
     \<and> bound client_demo_src 0 client_demo_link s"
proof -
  have "\<exists>s r. client_exec (client_init (Some [1])) client_demo_run = Some s
     \<and> crelays s 0 = Some r \<and> cr_link r = client_demo_link \<and> cr_src r = client_demo_src
     \<and> cr_pkt r = [104] \<and> taken_up s = [(0, [105])] \<and> taken_down s = [(0, [1, 65])]
     \<and> udp_out s = [(0, [65])] \<and> udp_task s = UdpReady
     \<and> c_commands s = [(0, SendToLink client_demo_link [1, 104]), (0, SendToLink client_demo_link [1, 105])]
     \<and> bound client_demo_src 0 client_demo_link s"
    by (simp add: client_demo_run_def client_defs Let_def push_def FLAG_FINAL_def
        reassembler_default_def issue_one_byte bound_def pending_def)
  then show ?thesis using client_exec_run by blast
qed

text \<open>
  Fact: in every reachable state of the client, if the chunks put into
  a relay's downlink channel are (so far) part of the framing of a sequence of datagrams,
  then the datagrams sent back to the game client are an initial part of exactly that
  sequence; the chunks come from the relay's own link, in the order they were delivered.
\<close>

theorem client_delivers_in_order:
  assumes "client_run (client_init target) as s" and "crelays s rid = Some r"
    and "prefix (nonempty (of_id rid (taken_down s))) (concat (map frame ds))"
    and "\<forall>d\<in>set ds. length d \<le> 65535"
  shows "prefix (of_id rid (udp_out s)) ds
     \<and> subseq (of_id rid (taken_down s)) (of_id (cr_link r) (delivered s))"
proof -
  have ok: "crelay_ok rid r s" using client_runs_ok [OF assms(1,2)] .
  then have "prefix (of_id rid (udp_out s)) (snd (push_all reassembler_default (of_id rid (taken_down s))))"
    unfolding crelay_ok_def using pump_ok_sent by blast
  then show ?thesis using pump_stream assms(3,4) ok by (auto simp: crelay_ok_def)
qed

theorem client_delivers_in_order_witness:
  "\<exists>s. client_run (client_init (Some [1])) client_demo_run s \<and> of_id 0 (udp_out s) = [[65]]
     \<and> prefix (of_id 0 (udp_out s)) [[65], [66]]"
proof -
  obtain s r where s: "client_run (client_init (Some [1])) client_demo_run s" "crelays s 0 = Some r"
    "taken_down s = [(0, [1, 65])]" "udp_out s = [(0, [65])]"
    using client_demo_result by blast
  have "prefix (nonempty (of_id 0 (taken_down s))) (concat (map frame [[65], [66]]))"
    by (simp add: s(3) nonempty_def frame_one_byte)
  then have "prefix (of_id 0 (udp_out s)) [[65], [66]]"
    using client_delivers_in_order [OF s(1,2), of "[[65], [66]]"] by simp
  then show ?thesis using s by auto
qed

lemma client_uplink:
  assumes "client_run (client_init target) as s" and "crelays s rid = Some r"
  shows "list_all (targets_link (cr_link r)) (of_id rid (c_commands s))
     \<and> (\<exists>ds. subseq (cr_pkt r # ds) (of_id (cr_src r) (heard s))
          \<and> prefix (payloads (of_id rid (c_commands s))) (concat (map frame (cr_pkt r # ds))))"
proof -
  have ok: "crelay_ok rid r s" using client_runs_ok [OF assms] .
  let ?taken = "of_id rid (taken_up s)"
  have "prefix (payloads (of_id rid (c_commands s))) (concat (map frame (cr_pkt r # ?taken)))"
    using ok uplink_ok_sent unfolding crelay_ok_def by (cases "pre_registered r") auto
  moreover have "subseq (cr_pkt r # ?taken) (of_id (cr_src r) (heard s))"
    using ok unfolding crelay_ok_def
    by (metis append_Cons prefixI prefix_imp_subseq subseq_order.trans)
  ultimately show ?thesis using ok unfolding crelay_ok_def by blast
qed

text \<open>
  C8: in every reachable state of the client, what a relay has issued
  are commands for its own link only, and their payloads are an initial part of the framing,
  one after the other, of packets that the listener received from the relay's own source, in
  the order received, beginning with the packet that opened the link.
\<close>

theorem client_uplink_in_order:
  assumes "client_run (client_init target) as s" and "crelays s rid = Some r"
  shows "list_all (targets_link (cr_link r)) (of_id rid (c_commands s))
     \<and> (\<exists>ds. subseq (cr_pkt r # ds) (of_id (cr_src r) (heard s))
          \<and> prefix (payloads (of_id rid (c_commands s))) (concat (map frame (cr_pkt r # ds))))"
  using client_uplink [OF assms] .

theorem client_uplink_in_order_witness:
  "\<exists>s r. client_run (client_init (Some [1])) client_demo_run s \<and> crelays s 0 = Some r
     \<and> payloads (of_id 0 (c_commands s)) = [[1, 104], [1, 105]]
     \<and> (\<exists>ds. prefix [[1, 104], [1, 105]] (concat (map frame ([104] # ds))))"
proof -
  obtain s r where s: "client_run (client_init (Some [1])) client_demo_run s" "crelays s 0 = Some r"
    "cr_pkt r = [104]"
    "c_commands s = [(0, SendToLink client_demo_link [1, 104]), (0, SendToLink client_demo_link [1, 105])]"
    using client_demo_result by blast
  have p: "payloads (of_id 0 (c_commands s)) = [[1, 104], [1, 105]]"
    by (simp add: s(4))
  then show ?thesis
    using client_uplink_in_order [OF s(1,2)] s by (metis (no_types, lifting))
qed

text \<open>The send task empties the uplink channel onto its link.\<close>

lemma send_task_step:
  assumes "crelays s rid = Some r" and "cr_phase r = Running" and "cr_send r" and "cr_up r = p # ps" and "ordinary p"
  shows "client_step s (SendTask rid 5) =
     Some (s\<lparr>crelays := (crelays s)(rid \<mapsto> r\<lparr>cr_up := ps\<rparr>),
       c_commands := c_commands s @ map (Pair rid) (map (SendToLink (cr_link r)) (frame p))\<rparr>)"
  using assms ordinary_frame [OF assms(5)]
  by (simp add: with_crelay_def send_task_def issue_frame set_crelay_def Let_def ordinary_def)

lemma send_task_drains:
  assumes "crelays s rid = Some r" and "cr_phase r = Running" and "cr_send r" and "list_all ordinary (cr_up r)"
  shows "client_exec s (replicate (length (cr_up r)) (SendTask rid 5)) =
     Some (s\<lparr>crelays := (crelays s)(rid \<mapsto> r\<lparr>cr_up := []\<rparr>),
       c_commands := c_commands s @ map (Pair rid) (map (SendToLink (cr_link r)) (concat (map frame (cr_up r))))\<rparr>)"
  using assms
proof (induction "cr_up r" arbitrary: s r)
  case Nil
  then have "r\<lparr>cr_up := []\<rparr> = r" by (cases r) simp
  moreover have "(crelays s)(rid \<mapsto> r) = crelays s" using Nil.prems(1) by (auto simp: fun_upd_idem)
  ultimately have "s\<lparr>crelays := (crelays s)(rid \<mapsto> r\<lparr>cr_up := []\<rparr>)\<rparr> = s" by (simp only:) simp
  moreover have "cr_up r = []" using Nil.hyps by simp
  ultimately show ?case by (simp only: list.size replicate_0 client_exec.simps list.map concat.simps append_Nil2) simp
next
  case (Cons p ps)
  let ?r = "r\<lparr>cr_up := ps\<rparr>"
  let ?s = "s\<lparr>crelays := (crelays s)(rid \<mapsto> ?r), c_commands := c_commands s @ map (Pair rid) (map (SendToLink (cr_link r)) (frame p))\<rparr>"
  have p: "ordinary p" "list_all ordinary ps" using Cons.prems(4) unfolding Cons.hyps(2) [symmetric] by simp_all
  have "client_step s (SendTask rid 5) = Some ?s"
    using send_task_step [OF Cons.prems(1-3) Cons.hyps(2) [symmetric] p(1)] .
  moreover have "client_exec ?s (replicate (length ps) (SendTask rid 5)) =
     Some (?s\<lparr>crelays := (crelays ?s)(rid \<mapsto> ?r\<lparr>cr_up := []\<rparr>),
       c_commands := c_commands ?s @ map (Pair rid) (map (SendToLink (cr_link r)) (concat (map frame ps)))\<rparr>)"
    using Cons.hyps(1) [of ?r ?s] Cons.prems(2,3) p(2) by simp
  ultimately show ?case by (simp flip: Cons.hyps(2))
qed

text \<open>A packet that its relay takes, at once or when the full channel has room again.\<close>

lemma bound_packet_sent:
  assumes "bound src rid l t" and "udp_task t = UdpReady" and "client_step t (UdpRecv (Some (src, wire))) = Some u"
    and "wire \<noteq> []" and "crelays t rid = Some r"
  shows "\<exists>as v. set as \<subseteq> {SendTask rid 5, UdpResume} \<and> client_exec u as = Some v \<and> udp_task v = UdpReady
     \<and> taken_up v = taken_up t @ [(rid, take UDP_READ_BUF wire)]
     \<and> c_commands v = c_commands t @ map (Pair rid)
          (map (SendToLink l) (concat (map frame (cr_up r @ [take UDP_READ_BUF wire]))))"
proof -
  let ?pkt = "take UDP_READ_BUF wire"
  have r: "udp_links t src = Some rid" "cr_link r = l" "cr_phase r = Running" "cr_send r" "list_all ordinary (cr_up r)"
    using boundE [OF assms(1)] assms(5) by (metis option.inject)+
  have pkt: "ordinary ?pkt" using assms(4) by (auto simp: ordinary_def UDP_READ_BUF_def)
  let ?t = "t\<lparr>heard := heard t @ [(src, ?pkt)]\<rparr>"
  have u: "u = udp_send src rid ?pkt ?t"
    using assms(2,3) r(1) by (simp add: udp_recv_def udp_packet_def Let_def)
  let ?q = "r\<lparr>cr_up := cr_up r @ [?pkt]\<rparr>"
  show ?thesis
  proof (cases "length (cr_up r) < RELAY_QUEUE")
    case True
    then have u': "crelays u rid = Some ?q" "udp_task u = UdpReady" "taken_up u = taken_up t @ [(rid, ?pkt)]"
      "c_commands u = c_commands t"
      using u r(4) assms(5) by (simp_all add: udp_send_def set_crelay_def)
    show ?thesis using send_task_drains [OF u'(1)] u' r pkt
      by (intro exI [of _ "replicate (Suc (length (cr_up r))) (SendTask rid 5)"]) auto
  next
    case False
    have u': "u = ?t\<lparr>udp_task := UdpSending src rid ?pkt\<rparr>"
      using u r(4) assms(5) False by (simp add: udp_send_def)
    let ?n = "length (cr_up r)" and ?e = "r\<lparr>cr_up := []\<rparr>"
    let ?w = "u\<lparr>crelays := (crelays u)(rid \<mapsto> ?e),
       c_commands := c_commands u @ map (Pair rid) (map (SendToLink l) (concat (map frame (cr_up r))))\<rparr>"
    let ?x = "?w\<lparr>crelays := (crelays u)(rid \<mapsto> ?e\<lparr>cr_up := [?pkt]\<rparr>), udp_task := UdpReady,
       taken_up := taken_up u @ [(rid, ?pkt)]\<rparr>"
    have "client_exec u (replicate ?n (SendTask rid 5)) = Some ?w"
      using send_task_drains [of u rid r] u' assms(5) r by simp
    moreover have "client_step ?w UdpResume = Some ?x"
      using u' r(4) by (simp add: udp_resume_def udp_send_def set_crelay_def RELAY_QUEUE_def)
    moreover have "client_step ?x (SendTask rid 5) = Some (?x\<lparr>crelays := (crelays u)(rid \<mapsto> ?e),
       c_commands := c_commands ?x @ map (Pair rid) (map (SendToLink l) (frame ?pkt))\<rparr>)"
      using send_task_step [of ?x rid "?e\<lparr>cr_up := [?pkt]\<rparr>" ?pkt "[]"] r pkt by simp
    ultimately show ?thesis using u'
      by (intro exI [of _ "replicate ?n (SendTask rid 5) @ [UdpResume, SendTask rid 5]"])
        (auto simp: client_exec_append)
  qed
qed

text \<open>
  C30: a source stays bound to its link after the link has closed.
  Whatever happens after \<open>LinkClosed\<close>, short of an empty datagram from the source or an
  engine that refuses a command, the source keeps its old relay: its next packet opens no new
  link, and (unless it is empty, too) goes through that relay's channel, at once or when the channel has room
  again, and out of it, after the packets before it, as \<open>SendToLink\<close> commands to the closed link, which all of the relay's commands name.
\<close>

theorem client_stays_on_closed_link:
  assumes "client_run (client_init target) as s" and "bound src rid l s"
    and "client_run s (CRoute now (LinkClosed l) # bs) t"
    and "\<forall>b\<in>set bs. \<not> ends_uplink src rid b" and "udp_task t = UdpReady"
  shows "\<exists>u. client_step t (UdpRecv (Some (src, wire))) = Some u
     \<and> next_crelay u = next_crelay t \<and> udp_links u src = Some rid
     \<and> list_all (targets_link l) (of_id rid (c_commands u))
     \<and> (wire \<noteq> [] \<longrightarrow> (\<exists>r cs v. crelays t rid = Some r
          \<and> set cs \<subseteq> {SendTask rid 5, UdpResume} \<and> client_exec u cs = Some v
          \<and> udp_task v = UdpReady \<and> taken_up v = taken_up t @ [(rid, take UDP_READ_BUF wire)]
          \<and> c_commands v = c_commands t @ map (Pair rid)
              (map (SendToLink l) (concat (map frame (cr_up r @ [take UDP_READ_BUF wire]))))))"
proof -
  have inv: "client_inv s" using client_run_inv [OF assms(1) client_inv_init] .
  have b: "bound src rid l t"
    by (rule client_run_bound [OF assms(3) inv assms(2)]) (use assms(4) in simp)
  have inv_t: "client_inv t" using client_run_inv [OF assms(3) inv] .
  obtain r where r: "udp_links t src = Some rid" "crelays t rid = Some r" "cr_link r = l"
    using boundE [OF b] by metis
  let ?pkt = "take UDP_READ_BUF wire"
  let ?u = "udp_send src rid ?pkt (t\<lparr>heard := heard t @ [(src, ?pkt)]\<rparr>)"
  have step: "client_step t (UdpRecv (Some (src, wire))) = Some ?u"
    using assms(5) r(1) by (simp add: udp_recv_def udp_packet_def Let_def)
  moreover have "next_crelay ?u = next_crelay t" "udp_links ?u = udp_links t"
    "c_commands ?u = c_commands t"
    using r(2) by (simp_all add: udp_send_def)
  moreover have "list_all (targets_link l) (of_id rid (c_commands t))"
    using client_inv_relay_ok [OF inv_t r(2)] r(3) by (simp add: crelay_ok_def)
  moreover have "wire \<noteq> [] \<Longrightarrow> \<exists>r cs v. crelays t rid = Some r
      \<and> set cs \<subseteq> {SendTask rid 5, UdpResume} \<and> client_exec ?u cs = Some v
      \<and> udp_task v = UdpReady \<and> taken_up v = taken_up t @ [(rid, ?pkt)]
      \<and> c_commands v = c_commands t @ map (Pair rid) (map (SendToLink l) (concat (map frame (cr_up r @ [?pkt]))))"
    using r(2) bound_packet_sent [OF b assms(5) step _ r(2)] by blast
  ultimately show ?thesis using r(1) by (intro exI [of _ ?u]) simp
qed

theorem client_stays_on_closed_link_witness:
  "\<exists>s t u. client_run (client_init (Some [1])) client_demo_run s
     \<and> client_run s [CRoute 2 (LinkClosed client_demo_link)] t
     \<and> client_step t (UdpRecv (Some (client_demo_src, [106]))) = Some u
     \<and> link_data_map t client_demo_link = None \<and> next_crelay u = next_crelay t"
proof -
  obtain s where s: "client_run (client_init (Some [1])) client_demo_run s"
    "bound client_demo_src 0 client_demo_link s" "udp_task s = UdpReady"
    using client_demo_result by blast
  let ?t = "client_route 2 (LinkClosed client_demo_link) s"
  have t: "client_run s [CRoute 2 (LinkClosed client_demo_link)] ?t"
    by (rule client_exec_run) simp
  have "udp_task ?t = UdpReady" "link_data_map ?t client_demo_link = None"
    using s(3) by (simp_all add: client_route_def)
  then show ?thesis
    using client_stays_on_closed_link [OF s(1,2) t] s(1) t by (simp, blast)
qed

text \<open>
  C31: once the listener asks for the write lock of \<open>udp_links\<close>
  to drop a dead entry it never runs again, since it still holds its own read guard: in every
  later state no packet is received, no new relay can register and none can finish.
\<close>

theorem client_listener_deadlock:
  assumes "udp_task s = UdpRemoving src" and "client_run s as t"
  shows "client_step t (UdpRecv res) = None \<and> client_step t UdpResume = None
     \<and> client_step t (Register rid k) = None \<and> client_step t (FirstFailed rid) = None
     \<and> client_step t (CEnd rid) = None"
proof -
  have "udp_task t = UdpRemoving src" using client_run_removing [OF assms(2,1)] .
  then show ?thesis
    by (simp add: udp_recv_def udp_resume_def udp_links_free_def with_crelay_def c_register_def
        c_first_failed_def c_end_def split: option.splits)
qed

text \<open>
  The lock-up is reachable: an empty datagram ends the send task of its source, and the
  next packet of that source finds the dead entry.
\<close>

theorem client_listener_deadlock_witness:
  "\<exists>s. client_run (client_init (Some [1]))
         (take 5 client_demo_run @ [UdpRecv (Some (client_demo_src, [])), SendTask 0 5,
            UdpRecv (Some (client_demo_src, [107]))]) s
     \<and> (\<forall>res. client_step s (UdpRecv res) = None) \<and> client_step s UdpResume = None"
proof -
  have "\<exists>s. client_exec (client_init (Some [1]))
         (take 5 client_demo_run @ [UdpRecv (Some (client_demo_src, [])), SendTask 0 5,
            UdpRecv (Some (client_demo_src, [107]))]) = Some s
     \<and> udp_task s = UdpRemoving client_demo_src"
    by (simp add: client_demo_run_def client_defs Let_def issue_one_byte)
  then obtain s where s: "client_run (client_init (Some [1]))
         (take 5 client_demo_run @ [UdpRecv (Some (client_demo_src, [])), SendTask 0 5,
            UdpRecv (Some (client_demo_src, [107]))]) s" "udp_task s = UdpRemoving client_demo_src"
    using client_exec_run by blast
  then show ?thesis
    using client_listener_deadlock [OF s(2) crun_Nil] by blast
qed

subsection \<open>The target of the client\<close>

text \<open>The destination of the first announce among some actions.\<close>

fun first_announce :: "client_action list \<Rightarrow> destination_hash option" where
  "first_announce [] = None"
| "first_announce (CRoute now (AnnounceHeard h name) # as) = Some h"
| "first_announce (a # as) = first_announce as"

lemma client_step_target:
  assumes "client_step s a = Some t"
  shows "server_target t = (case server_target s of Some h \<Rightarrow> Some h | None \<Rightarrow> first_announce [a])"
  using assms
  by (cases "[a]" rule: first_announce.cases)
    (auto simp: with_crelay_eq udp_recv_def udp_packet_def udp_send_def udp_resume_def
      udp_links_free_def client_route_def
      c_establish_def c_request_path_def c_identify_def c_register_def c_first_failed_def c_attach_def
      send_task_def recv_task_def c_detach_def c_end_def give_up_def Let_def
      split: if_splits option.splits list.splits prod.splits client_phase.splits udp_task.splits
        send_outcome.splits)

lemma first_announce_Cons:
  "first_announce (a # as) = (case first_announce [a] of Some h \<Rightarrow> Some h | None \<Rightarrow> first_announce as)"
  by (cases "a # as" rule: first_announce.cases) auto

lemma client_run_target:
  "client_run s as t \<Longrightarrow>
   server_target t = (case server_target s of Some h \<Rightarrow> Some h | None \<Rightarrow> first_announce as)"
proof (induction rule: client_run.induct)
  case (crun_Cons s a t as u)
  then show ?case
    using client_step_target [OF crun_Cons.hyps(1)] first_announce_Cons [of a as]
    by (auto split: option.splits)
qed (simp split: option.split)

text \<open>
  Fact: the server a client opens links to is the \<open>--server-hash\<close> if
  one was given, whatever announces are heard; otherwise it is the destination of the first
  announce the node hears, and no later announce changes it.
\<close>

theorem client_target_is_fixed:
  assumes "client_run (client_init target) as s"
  shows "server_target s = (case target of Some h \<Rightarrow> Some h | None \<Rightarrow> first_announce as)"
  using client_run_target [OF assms] by (simp add: client_init_def)

theorem client_target_is_fixed_witness:
  "\<exists>s. client_run (client_init None)
       [CRoute 0 (AnnounceHeard [1] None), CRoute 1 (AnnounceHeard [2] None)] s
     \<and> server_target s = Some [1]"
proof -
  obtain s where s: "client_run (client_init None)
       [CRoute 0 (AnnounceHeard [1] None), CRoute 1 (AnnounceHeard [2] None)] s"
    by (rule that, rule client_exec_run, simp)
  show ?thesis using s client_target_is_fixed [OF s] by auto
qed

subsection \<open>The path probe stops\<close>

lemma probe_from_bounds:
  "probe_from a n answers = (res, slept) \<Longrightarrow>
     slept \<le> n * PROBE_SLEEP_SECS
     \<and> (case res of PathResolved i \<Rightarrow> a \<le> i \<and> i < a + n \<and> answers i \<and> (\<forall>j. a \<le> j \<and> j < i \<longrightarrow> \<not> answers j)
        | PathUnresolved \<Rightarrow> \<forall>j. a \<le> j \<and> j < a + n \<longrightarrow> \<not> answers j)"
proof (induction n arbitrary: a res slept)
  case (Suc n)
  show ?case
  proof (cases "answers a")
    case False
    obtain r k where rk: "probe_from (Suc a) n answers = (r, k)" by fastforce
    have less: "j = a \<or> Suc a \<le> j" if "a \<le> j" for j using that by auto
    show ?thesis using Suc.IH [OF rk] Suc.prems rk False less
      by (auto split: probe_result.splits)
  qed (use Suc.prems in auto)
qed auto

subsection \<open>What the listener hears\<close>

lemma client_step_heard:
  assumes "client_step s a = Some t" and "\<forall>p\<in>set (heard s). length (snd p) \<le> UDP_READ_BUF"
  shows "\<forall>p\<in>set (heard t). length (snd p) \<le> UDP_READ_BUF"
proof -
  have "heard t = heard s \<or> (\<exists>src wire. heard t = heard s @ [(src, take UDP_READ_BUF wire)])"
    using assms(1)
    by (cases a)
      (auto simp: with_crelay_eq udp_recv_def udp_packet_def udp_send_def udp_resume_def
        udp_links_free_def client_route_def
        c_establish_def c_request_path_def c_identify_def c_register_def c_first_failed_def c_attach_def
        send_task_def recv_task_def c_detach_def c_end_def give_up_def Let_def
        split: if_splits option.splits list.splits prod.splits client_phase.splits udp_task.splits
          send_outcome.splits bridge_event.splits)
  then show ?thesis using assms(2) by auto
qed

lemma client_run_heard:
  "client_run s as t \<Longrightarrow> \<forall>p\<in>set (heard s). length (snd p) \<le> UDP_READ_BUF \<Longrightarrow>
   \<forall>p\<in>set (heard t). length (snd p) \<le> UDP_READ_BUF"
  by (induction rule: client_run.induct) (auto dest: client_step_heard)

lemma client_heard_short:
  assumes "client_run (client_init target) as s" and "d \<in> set (of_id src (heard s))"
  shows "length d \<le> 65535"
proof -
  have "\<forall>p\<in>set (heard s). length (snd p) \<le> UDP_READ_BUF"
    using client_run_heard [OF assms(1)] by (simp add: client_init_def)
  then have "length d \<le> UDP_READ_BUF" using assms(2) by (auto simp: of_id_def)
  then show ?thesis by (simp add: UDP_READ_BUF_def)
qed

end
