(* ===== verification/Downlink.thy ===== *)
theory Downlink
  imports Server_Relay Client_Relay
begin

text \<open>
  The way back: what the Sven Co-op server sends to the socket of a relay, as the payloads the
  server relay issues on the link and the datagrams the client relay hands to the game.
\<close>

subsection \<open>What a server relay has read and issued\<close>

text \<open>The datagrams a run of the server has read for a relay, as its buffer holds them.\<close>

fun replies :: "nat \<Rightarrow> server_action list \<Rightarrow> bytes list" where
  "replies rid [] = []"
| "replies rid (FromSc i (UdpOk wire) k # as) =
     (if i = rid \<and> take UDP_READ_BUF wire \<noteq> [] then [take UDP_READ_BUF wire] else []) @ replies rid as"
| "replies rid (_ # as) = replies rid as"

definition sends_to :: "link_id \<Rightarrow> engine_command list \<Rightarrow> bytes list" where
  "sends_to l cmds = payloads (filter (targets_link l) cmds)"

lemma sends_to_append [simp]: "sends_to l (xs @ ys) = sends_to l xs @ sends_to l ys"
  by (simp add: sends_to_def)

lemma sends_to_sends [simp]: "sends_to l (map (SendToLink m) cs) = (if m = l then cs else [])"
  by (simp add: sends_to_def filter_map comp_def)

lemma sends_to_other [simp]: "sends_to l [] = []" "sends_to l [CloseLink m] = []"
  by (simp_all add: sends_to_def)

text \<open>What one step issues on a link.\<close>

fun issued :: "link_id \<Rightarrow> server_state \<Rightarrow> server_action \<Rightarrow> bytes list" where
  "issued l s (FromSc i (UdpOk wire) k) =
     (case relays s i of
        Some r \<Rightarrow> if r_link r = l \<and> take UDP_READ_BUF wire \<noteq> [] then take k (frame (take UDP_READ_BUF wire)) else []
      | None \<Rightarrow> [])"
| "issued l s _ = []"

lemma router_commands:
  "commands (route now ev s) = commands s"
  "route_sentinel l rid s = Some t \<Longrightarrow> commands t = commands s"
  by (auto simp: route_def route_sentinel_def enqueue_def Let_def split: bridge_event.split option.splits if_splits)

lemma server_step_sends:
  assumes "server_step s a = Some t"
  shows "sends_to l (commands t) = sends_to l (commands s) @ issued l s a"
proof (cases a)
  case (FromSc i res k)
  then obtain r where r: "relays s i = Some r" "from_sc i res k r s = Some t"
    using assms by (auto simp: with_relay_eq)
  show ?thesis
    using r FromSc by (cases res) (auto simp: from_sc_def Let_def issue_frame set_relay_def split: if_splits)
qed (use assms in \<open>auto simp: router_commands with_relay_eq relay_bind_def relay_connect_def to_sc_def relay_end_def
    set_relay_def split: if_splits router_state.splits list.splits prod.splits option.splits\<close>)

subsection \<open>A relay whose read side has ended\<close>

definition read_ended :: "nat \<Rightarrow> server_state \<Rightarrow> bool" where
  "read_ended rid s \<longleftrightarrow> (\<exists>r. relays s rid = Some r \<and> \<not> r_from_sc r)"

lemma server_step_ended:
  assumes "server_step s a = Some t" and "server_inv s" and "read_ended rid s"
  shows "read_ended rid t \<and> replies rid [a] = []"
proof -
  obtain r where r: "relays s rid = Some r" "\<not> r_from_sc r" "rid < next_relay s"
    using assms(2,3) by (auto simp: read_ended_def server_inv_def)
  show ?thesis
  proof (cases a)
    case (Route now ev)
    then show ?thesis using assms(1) r
      by (auto simp: read_ended_def route_def enqueue_def split: bridge_event.split option.split if_splits)
  next
    case RouteSentinel
    then show ?thesis using assms(1) r
      by (auto simp: read_ended_def route_sentinel_def enqueue_def Let_def split: option.splits if_splits router_state.splits)
  next
    case (FromSc i res k)
    then show ?thesis using assms(1) r
      by (cases res) (auto simp: read_ended_def with_relay_eq from_sc_def Let_def set_relay_def split: if_splits prod.splits send_outcome.splits)
  qed (use assms(1) r in \<open>auto simp: read_ended_def with_relay_eq relay_bind_def relay_connect_def to_sc_def relay_end_def
    set_relay_def end_to_sc_def split: if_splits list.splits prod.splits option.splits\<close>)
qed

lemma server_run_ended:
  assumes "server_run s as t" and "server_inv s" and "read_ended rid s"
  shows "replies rid as = []"
  using assms
proof (induction rule: server_run.induct)
  case (run_Cons s a t as u)
  note one = server_step_ended [OF run_Cons.hyps(1) run_Cons.prems]
  then have "replies rid as = []" using run_Cons.IH server_step_inv [OF run_Cons.hyps(1) run_Cons.prems(1)] by blast
  moreover have "replies rid (a # as) = replies rid [a] @ replies rid as"
    by (cases "(rid, a # as)" rule: replies.cases) simp_all
  ultimately show ?case using one by simp
qed simp


subsection \<open>A link with one relay\<close>

definition only_relay :: "link_id \<Rightarrow> nat \<Rightarrow> server_state \<Rightarrow> bool" where
  "only_relay l rid s \<longleftrightarrow> (\<forall>j r. relays s j = Some r \<longrightarrow> r_link r = l \<longrightarrow> j = rid)"

lemma only_relay_back:
  "server_step s a = Some t \<Longrightarrow> server_inv s \<Longrightarrow> only_relay l rid t \<Longrightarrow> only_relay l rid s"
  using server_step_links [of s a t] by (fastforce simp: only_relay_def same_links_def)

lemma only_relay_run_back:
  "server_run s as t \<Longrightarrow> server_inv s \<Longrightarrow> only_relay l rid t \<Longrightarrow> only_relay l rid s"
  by (induction rule: server_run.induct) (use only_relay_back server_step_inv in blast)+

lemma issued_other:
  assumes "only_relay l rid s" and "a = FromSc i (UdpOk wire) k" and "i \<noteq> rid"
  shows "issued l s a = []"
  using assms by (auto simp: only_relay_def split: option.split)

lemma replies_Cons: "replies rid (a # as) = replies rid [a] @ replies rid as"
  by (cases "(rid, a # as)" rule: replies.cases) simp_all

lemma replies_append: "replies j (as @ bs) = replies j as @ replies j bs"
proof (induction as)
  case (Cons a as)
  then show ?case using replies_Cons [of j a as] replies_Cons [of j a "as @ bs"] by simp
qed simp

text \<open>One step issues the framing of what it read, or a part of it and reads no more.\<close>

lemma step_issues:
  assumes "server_step s a = Some t" and "server_inv s" and "only_relay l rid s"
    and "relays s rid = Some r" and "r_link r = l"
  shows "issued l s a = concat (map frame (replies rid [a]))
    \<or> prefix (issued l s a) (concat (map frame (replies rid [a]))) \<and> read_ended rid t"
proof (cases "\<exists>wire k. a = FromSc rid (UdpOk wire) k")
  case True
  then obtain wire k where a: "a = FromSc rid (UdpOk wire) k" by blast
  then show ?thesis using assms(1,4,5)
    by (auto simp: with_relay_eq from_sc_def Let_def issue_frame set_relay_def read_ended_def take_is_prefix
        split: if_splits)
next
  case False
  then show ?thesis using issued_other [OF assms(3)] by (cases "(l, s, a)" rule: issued.cases) auto
qed

lemma unborn_issues:
  assumes "server_step s a = Some t" and "only_relay l rid s" and "relays s rid = None"
  shows "issued l s a = [] \<and> replies rid [a] = []"
proof (cases "\<exists>i wire k. a = FromSc i (UdpOk wire) k")
  case True
  then obtain i wire k where a: "a = FromSc i (UdpOk wire) k" by blast
  then have "i \<noteq> rid" using assms(1,3) by (auto simp: with_relay_def)
  then show ?thesis using issued_other [OF assms(2) a] a by simp
next
  case False
  then show ?thesis by (cases "(l, s, a)" rule: issued.cases) auto
qed

lemma run_issues:
  assumes "server_run s as t" and "server_inv s" and "only_relay l rid t"
    and "relays t rid = Some r" and "r_link r = l"
  shows "\<exists>out. sends_to l (commands t) = sends_to l (commands s) @ out
    \<and> prefix out (concat (map frame (replies rid as)))"
  using assms
proof (induction rule: server_run.induct)
  case (run_Cons s a t as u)
  have inv: "server_inv t" using server_step_inv [OF run_Cons.hyps(1) run_Cons.prems(1)] .
  have only: "only_relay l rid t" "only_relay l rid s"
    using only_relay_run_back [OF run_Cons.hyps(2) inv run_Cons.prems(2)]
      only_relay_back [OF run_Cons.hyps(1) run_Cons.prems(1)] by blast+
  note step = server_step_sends [OF run_Cons.hyps(1), of l]
  obtain out where out: "sends_to l (commands u) = sends_to l (commands t) @ out"
    "prefix out (concat (map frame (replies rid as)))"
    using run_Cons.IH [OF inv run_Cons.prems(2-4)] by blast
  have "issued l s a = concat (map frame (replies rid [a]))
    \<or> prefix (issued l s a) (concat (map frame (replies rid [a]))) \<and> replies rid as = []"
  proof (cases "relays s rid")
    case None
    then show ?thesis using unborn_issues [OF run_Cons.hyps(1) only(2)] by simp
  next
    case (Some q)
    then have "r_link q = l"
      using server_step_links [OF run_Cons.hyps(1) run_Cons.prems(1)] server_run_links [OF run_Cons.hyps(2) inv]
        run_Cons.prems(3,4) by (fastforce simp: same_links_def)
    then show ?thesis
      using step_issues [OF run_Cons.hyps(1) run_Cons.prems(1) only(2) Some] server_run_ended [OF run_Cons.hyps(2) inv] by blast
  qed
  then have "prefix (issued l s a @ out) (concat (map frame (replies rid (a # as))))"
    using out(2) by (auto simp: replies_Cons [of rid a as])
  then show ?case using step out(1) by (intro exI [of _ "issued l s a @ out"]) simp
qed simp

lemma replies_short: "d \<in> set (replies rid as) \<Longrightarrow> length d \<le> 65535 \<and> d \<noteq> []"
  by (induction rid as rule: replies.induct) (auto simp: UDP_READ_BUF_def split: if_splits)

lemma downlink_issued:
  assumes "server_run server_init as s" and "relays s rid = Some r" and "only_relay (r_link r) rid s"
  shows "prefix (sends_to (r_link r) (commands s)) (concat (map frame (replies rid as)))"
  using run_issues [OF assms(1) server_inv_init assms(3,2)] by (auto simp: server_init_def)

text \<open>What a client relay hands to the game, from what was put into its channel.\<close>

lemma client_sent_of_taken:
  "client_run (client_init target) as s \<Longrightarrow> crelays s rid = Some r \<Longrightarrow>
   prefix (of_id rid (udp_out s)) (snd (push_all reassembler_default (of_id rid (taken_down s))))"
  using client_runs_ok pump_ok_sent unfolding crelay_ok_def by blast

end
