(* ===== verification/Node_Steps.thy ===== *)
theory Node_Steps
  imports Downlink
begin

text \<open>What single steps of the two nodes do to links and logs.\<close>

subsection \<open>A client relay and its link\<close>

definition unlinked :: "crelay \<Rightarrow> bool" where
  "unlinked r \<longleftrightarrow> cr_phase r \<in> {Establishing1, RequestingPath, Establishing2}"

text \<open>
  How a relay's link can change in a step: the relay is still looking for one or has given up, it
  has just got it, or it keeps it.
\<close>

definition link_step :: "client_action \<Rightarrow> nat \<Rightarrow> crelay \<Rightarrow> crelay \<Rightarrow> bool" where
  "link_step a i r r' \<longleftrightarrow>
     (if unlinked r
      then (case a of
              Establish j (Some l) \<Rightarrow> if j = i then \<not> unlinked r' \<and> cr_phase r' \<noteq> Finished \<and> cr_link r' = l else unlinked r'
            | _ \<Rightarrow> unlinked r' \<or> cr_phase r' = Finished \<and> \<not> cr_recv r')
      else \<not> unlinked r' \<and> cr_link r' = cr_link r \<and> (\<forall>l. a \<noteq> Establish i (Some l))
           \<and> (cr_phase r = Finished \<longrightarrow> cr_phase r' = Finished \<and> (cr_recv r' \<longrightarrow> cr_recv r)))"

lemmas client_step_defs =
  client_route_def udp_recv_def udp_packet_def udp_send_def udp_resume_def new_crelay_def
  c_request_path_def c_identify_def c_register_def c_first_failed_def c_attach_def
  send_task_def recv_task_def c_detach_def c_end_def give_up_def end_send_def end_recv_def

lemma c_establish_sets: "c_establish i res r s = Some t \<Longrightarrow> \<exists>r'. t = set_crelay i r' s"
  by (cases "cr_phase r"; cases res) (auto simp: c_establish_def give_up_def)

text \<open>The step of a relay task replaces that relay's record and no other.\<close>

lemma relay_task_sets:
  assumes "client_step s a = Some t" and "\<forall>now ev. a \<noteq> CRoute now ev" and "\<forall>res. a \<noteq> UdpRecv res" and "a \<noteq> UdpResume"
  shows "\<exists>j q q'. crelays s j = Some q \<and> crelays t = (crelays s)(j \<mapsto> q')"
proof -
  have "\<exists>j q. crelays s j = Some q \<and> own_step j q s t"
    using assms by (cases a) (auto simp: with_crelay_eq dest: own_steps)
  then show ?thesis unfolding own_step_def by blast
qed

lemma router_sets:
  "\<exists>j q q'. crelays (client_route now ev s) = crelays s
    \<or> crelays s j = Some q \<and> crelays (client_route now ev s) = (crelays s)(j \<mapsto> q')"
  by (auto simp: client_route_def Let_def split: bridge_event.splits option.splits)

lemma listener_sets:
  "udp_recv pkt s = Some t \<Longrightarrow> crelays t = crelays s \<or> (\<exists>q. crelays t = (crelays s)(next_crelay s \<mapsto> q) \<and> unlinked q)
     \<or> (\<exists>j q q'. crelays s j = Some q \<and> crelays t = (crelays s)(j \<mapsto> q'))"
  "udp_resume s = Some t \<Longrightarrow> crelays t = crelays s \<or> (\<exists>j q q'. crelays s j = Some q \<and> crelays t = (crelays s)(j \<mapsto> q'))"
  by (auto simp: udp_recv_def udp_packet_def udp_send_def udp_resume_def new_crelay_def unlinked_def Let_def
      split: if_splits option.splits prod.splits udp_task.splits) (metis option.distinct(1))+

lemma client_step_sets:
  assumes "client_step s a = Some t"
  shows "crelays t = crelays s \<or> (\<exists>j q q'. crelays s j = Some q \<and> crelays t = (crelays s)(j \<mapsto> q'))
     \<or> (\<exists>q pkt. a = UdpRecv pkt \<and> unlinked q \<and> crelays t = (crelays s)(next_crelay s \<mapsto> q))"
proof (cases a)
  case (CRoute now ev)
  then show ?thesis using assms router_sets [of now ev s] by auto
next
  case (UdpRecv res)
  then show ?thesis using assms listener_sets(1) [of res s t] by (simp, blast)
next
  case UdpResume
  then show ?thesis using assms listener_sets(2) [of s t] by simp
qed (use relay_task_sets [OF assms] in simp_all)

lemma client_keeps_relay: "client_step s a = Some t \<Longrightarrow> crelays s i = Some r \<Longrightarrow> \<exists>r'. crelays t i = Some r'"
  by (drule client_step_sets) auto

lemma client_new_unlinked:
  "client_step s a = Some t \<Longrightarrow> crelays s i = None \<Longrightarrow> crelays t i = Some r \<Longrightarrow>
   unlinked r \<and> (\<forall>j l. a \<noteq> Establish j (Some l))"
  by (drule client_step_sets) (auto split: if_splits)

lemma link_step_refl: "\<forall>l. a \<noteq> Establish i (Some l) \<Longrightarrow> link_step a i r r"
  by (auto simp: link_step_def split: client_action.split option.split)

lemma link_step_kept:
  "\<forall>l. a \<noteq> Establish i (Some l) \<Longrightarrow> \<not> unlinked r \<Longrightarrow> \<not> unlinked r' \<Longrightarrow> cr_link r' = cr_link r \<Longrightarrow>
   cr_phase r = Finished \<longrightarrow> cr_phase r' = Finished \<and> (cr_recv r' \<longrightarrow> cr_recv r) \<Longrightarrow> link_step a i r r'"
  by (simp add: link_step_def)

definition sets_link :: "client_action \<Rightarrow> nat \<Rightarrow> crelay \<Rightarrow> client_state \<Rightarrow> client_state \<Rightarrow> bool" where
  "sets_link a i r s t \<longleftrightarrow> (\<exists>r'. crelays t = (crelays s)(i \<mapsto> r') \<and> link_step a i r r')"

lemma task_links:
  "c_establish i res r s = Some t \<Longrightarrow> sets_link (Establish i res) i r s t"
  "c_request_path i ok r s = Some t \<Longrightarrow> sets_link (RequestPath i ok) i r s t"
  "c_identify i ok r s = Some t \<Longrightarrow> sets_link (Identify i ok) i r s t"
  "c_register i k r s = Some t \<Longrightarrow> sets_link (Register i k) i r s t"
  "c_first_failed i r s = Some t \<Longrightarrow> sets_link (FirstFailed i) i r s t"
  "c_attach i r s = Some t \<Longrightarrow> sets_link (Attach i) i r s t"
  "send_task i k r s = Some t \<Longrightarrow> sets_link (SendTask i k) i r s t"
  "recv_task i ok r s = Some t \<Longrightarrow> sets_link (RecvTask i ok) i r s t"
  "c_detach i r s = Some t \<Longrightarrow> sets_link (Detach i) i r s t"
  "c_end i r s = Some t \<Longrightarrow> sets_link (CEnd i) i r s t"
           apply (cases "cr_phase r"; cases res; auto simp: c_establish_def give_up_def link_step_def unlinked_def sets_link_def)
          apply (auto simp: c_request_path_def give_up_def link_step_def unlinked_def sets_link_def split: if_splits) [1]
         apply (auto simp: c_identify_def link_step_def unlinked_def sets_link_def split: if_splits) [1]
        apply (auto simp: c_register_def link_step_def unlinked_def sets_link_def give_up_def issue_frame Let_def split: if_splits) [1]
       apply (auto simp: c_first_failed_def link_step_def unlinked_def sets_link_def give_up_def split: if_splits) [1]
      apply (auto simp: c_attach_def link_step_def unlinked_def sets_link_def split: if_splits) [1]
     apply (auto simp: send_task_def link_step_def unlinked_def sets_link_def end_send_def issue_frame Let_def
      split: if_splits list.splits) [1]
    apply (auto simp: recv_task_def link_step_def unlinked_def sets_link_def end_recv_def
      split: if_splits list.splits prod.splits option.splits) [1]
   apply (auto simp: c_detach_def link_step_def unlinked_def sets_link_def split: if_splits) [1]
  apply (auto simp: c_end_def link_step_def unlinked_def sets_link_def split: if_splits) [1]
  done

lemma sets_link_step:
  assumes "sets_link a j q s t" and "crelays s j = Some q" and "crelays s i = Some r" and "crelays t i = Some r'"
    and "\<forall>l. a = Establish i (Some l) \<longrightarrow> i = j"
  shows "link_step a i r r'"
  using assms link_step_refl [of a i r] by (cases "i = j") (auto simp: sets_link_def)

text \<open>The listener and the router only touch channels.\<close>

definition keeps_links :: "client_state \<Rightarrow> client_state \<Rightarrow> bool" where
  "keeps_links s t \<longleftrightarrow> (\<forall>i r r'. crelays s i = Some r \<longrightarrow> crelays t i = Some r' \<longrightarrow>
     cr_phase r' = cr_phase r \<and> cr_link r' = cr_link r \<and> cr_recv r' = cr_recv r)"

lemma router_keeps_links: "keeps_links s (client_route now ev s)"
  by (auto simp: keeps_links_def client_route_def Let_def split: bridge_event.splits option.splits if_splits)

lemma send_keeps_links: "keeps_links s (udp_send src i pkt s)"
  by (auto simp: keeps_links_def udp_send_def split: option.splits if_splits)

lemma keeps_links_cong: "crelays s' = crelays s \<Longrightarrow> keeps_links s' t \<Longrightarrow> keeps_links s t"
  by (simp add: keeps_links_def)

lemma packet_keeps_links: "crelays s (next_crelay s) = None \<Longrightarrow> keeps_links s (udp_packet src pkt s)"
  by (auto simp: udp_packet_def keeps_links_def send_keeps_links [unfolded keeps_links_def, rule_format]
      split: option.splits if_splits)

lemma client_inv_fresh: "client_inv s \<Longrightarrow> crelays s (next_crelay s) = None"
  unfolding client_inv_def by (metis less_irrefl not_None_eq)

lemma keeps_links_refl: "crelays t = crelays s \<Longrightarrow> keeps_links s t"
  by (simp add: keeps_links_def)

lemma listener_keeps_links:
  "udp_recv pkt s = Some t \<Longrightarrow> client_inv s \<Longrightarrow> keeps_links s t"
  "udp_resume s = Some t \<Longrightarrow> keeps_links s t"
   apply (auto simp: udp_recv_def Let_def intro: keeps_links_refl split: if_splits option.splits prod.splits) [1]
   apply (rule keeps_links_cong [rotated], rule packet_keeps_links, auto dest: client_inv_fresh) [1]
  apply (auto simp: udp_resume_def Let_def intro: send_keeps_links keeps_links_refl split: if_splits udp_task.splits)
  done

lemma keeps_link_step:
  "keeps_links s t \<Longrightarrow> crelays s i = Some r \<Longrightarrow> crelays t i = Some r' \<Longrightarrow> \<forall>l. a \<noteq> Establish i (Some l) \<Longrightarrow> link_step a i r r'"
  by (auto simp: keeps_links_def link_step_def unlinked_def split: client_action.split option.split)

lemma client_link_step:
  assumes "client_step s a = Some t" and "client_inv s" and "crelays s i = Some r" and "crelays t i = Some r'"
  shows "link_step a i r r'"
proof (cases "(\<exists>now ev. a = CRoute now ev) \<or> (\<exists>pkt. a = UdpRecv pkt) \<or> a = UdpResume")
  case True
  then have "keeps_links s t \<and> (\<forall>l. a \<noteq> Establish i (Some l))"
    using assms(1,2) router_keeps_links listener_keeps_links by auto
  then show ?thesis using keeps_link_step assms(3,4) by blast
next
  case False
  then have "\<exists>j q. crelays s j = Some q \<and> sets_link a j q s t \<and> (\<forall>l. a = Establish i (Some l) \<longrightarrow> i = j)"
    using assms(1) by (cases a) (auto simp: with_crelay_eq dest: task_links)
  then show ?thesis using sets_link_step assms(3,4) by blast
qed

subsection \<open>What the client issues and takes\<close>

text \<open>A step issues commands of one relay at most, which is neither looking for a link nor finished.\<close>

definition issues_for_one :: "client_state \<Rightarrow> client_state \<Rightarrow> bool" where
  "issues_for_one s t \<longleftrightarrow> (\<exists>i cmds. c_commands t = c_commands s @ map (Pair i) cmds
    \<and> (cmds \<noteq> [] \<longrightarrow> (\<exists>r. crelays s i = Some r \<and> \<not> unlinked r \<and> cr_phase r \<noteq> Finished))
    \<and> [] \<notin> set (payloads cmds))"

lemma issues_nothing: "c_commands t = c_commands s \<Longrightarrow> issues_for_one s t"
  unfolding issues_for_one_def by (intro exI [of _ 0] exI [of _ "[]"]) simp

lemma issues_one:
  "crelays s i = Some r \<Longrightarrow> \<not> unlinked r \<Longrightarrow> cr_phase r \<noteq> Finished \<Longrightarrow>
   c_commands t = c_commands s @ map (Pair i) cmds \<Longrightarrow> [] \<notin> set (payloads cmds) \<Longrightarrow> issues_for_one s t"
  unfolding issues_for_one_def by blast

lemma frame_data: "[] \<notin> set (frame d)"
  using frame_chunk_bounds by blast

lemma frame_part_data: "[] \<notin> set (take k (frame d))"
  using frame_data in_set_takeD by fastforce

lemma relay_issues:
  "crelays s i = Some r \<Longrightarrow> c_register i k r s = Some t \<Longrightarrow> issues_for_one s t"
  "crelays s i = Some r \<Longrightarrow> c_first_failed i r s = Some t \<Longrightarrow> issues_for_one s t"
  "crelays s i = Some r \<Longrightarrow> send_task i k r s = Some t \<Longrightarrow> issues_for_one s t"
  "crelays s i = Some r \<Longrightarrow> c_end i r s = Some t \<Longrightarrow> issues_for_one s t"
     apply (rule issues_one [where cmds = "map (SendToLink (cr_link r)) (take k (frame (cr_pkt r)))"], assumption)
        apply (auto simp: c_register_def unlinked_def issue_frame Let_def give_up_def frame_part_data split: if_splits) [4]
    apply (rule issues_one [where cmds = "[CloseLink (cr_link r)]"], assumption)
       apply (auto simp: c_first_failed_def unlinked_def give_up_def split: if_splits) [4]
   apply (cases "cr_up r = [] \<or> hd (cr_up r) = []")
    apply (rule issues_nothing, auto simp: send_task_def split: if_splits list.splits) []
   apply (rule issues_one [where cmds = "map (SendToLink (cr_link r)) (take k (frame (hd (cr_up r))))"], assumption)
      apply (auto simp: send_task_def unlinked_def issue_frame Let_def frame_part_data split: if_splits list.splits) [4]
  apply (rule issues_one [where cmds = "[CloseLink (cr_link r)]"], assumption)
     apply (auto simp: c_end_def unlinked_def split: if_splits)
  done

lemma relay_silent:
  "c_establish i res r s = Some t \<Longrightarrow> c_commands t = c_commands s"
  "c_request_path i ok r s = Some t \<Longrightarrow> c_commands t = c_commands s"
  "c_identify i ok r s = Some t \<Longrightarrow> c_commands t = c_commands s"
  "c_attach i r s = Some t \<Longrightarrow> c_commands t = c_commands s"
  "recv_task i ok r s = Some t \<Longrightarrow> c_commands t = c_commands s"
  "c_detach i r s = Some t \<Longrightarrow> c_commands t = c_commands s"
  "udp_recv pkt s = Some t \<Longrightarrow> c_commands t = c_commands s"
  "udp_resume s = Some t \<Longrightarrow> c_commands t = c_commands s"
  "c_commands (client_route now ev s) = c_commands s"
  by (auto simp: client_step_defs Let_def dest!: c_establish_sets
      split: if_splits option.splits list.splits prod.splits udp_task.splits bridge_event.splits)

lemma client_step_issues: "client_step s a = Some t \<Longrightarrow> issues_for_one s t"
  by (cases a) (auto simp: with_crelay_eq intro: relay_issues issues_nothing relay_silent)

lemma client_step_takes:
  assumes "client_step s a = Some t" and "\<forall>now l c. a \<noteq> CRoute now (LinkData l c)"
  shows "taken_down t = taken_down s"
proof (cases a)
  case (CRoute now ev)
  then show ?thesis using assms
    by (auto simp: client_route_def Let_def split: bridge_event.splits option.splits if_splits)
qed (use assms in \<open>auto simp: with_crelay_eq client_step_defs Let_def dest!: c_establish_sets
    split: if_splits option.splits list.splits prod.splits send_outcome.splits udp_task.splits\<close>)

text \<open>A chunk that arrives is taken by the relay the link belongs to, or refused.\<close>

lemma client_arrival:
  assumes "client_inv s" and "t = client_route now (LinkData l c) s"
  shows "taken_down t = taken_down s
    \<or> (\<exists>i r. taken_down t = taken_down s @ [(i, c)] \<and> crelays s i = Some r \<and> cr_link r = l
         \<and> \<not> pre_registered r \<and> cr_recv r)"
  using assms client_inv_tables(2) [OF assms(1), of l]
  by (auto simp: client_route_def Let_def split: option.splits)

subsection \<open>The server\<close>

lemma server_step_commands:
  assumes "server_step s a = Some t"
  shows "\<exists>cmds. commands t = commands s @ cmds \<and> [] \<notin> set (payloads cmds)"
proof (cases a)
  case (FromSc i res k)
  then obtain r where "relays s i = Some r" "from_sc i res k r s = Some t"
    using assms by (auto simp: with_relay_eq)
  then show ?thesis
    by (cases res) (auto simp: from_sc_def Let_def issue_frame set_relay_def frame_part_data frame_data split: if_splits)
qed (use assms in \<open>auto simp: router_commands with_relay_eq relay_bind_def relay_connect_def to_sc_def relay_end_def
    set_relay_def split: if_splits router_state.splits list.splits prod.splits option.splits\<close>)

lemma server_arrival:
  assumes "server_inv s" and "server_step s (Route now (LinkData l c)) = Some t"
  shows "accepted t = accepted s \<or> (\<exists>j r. accepted t = accepted s @ [(j, c)] \<and> relays s j = Some r \<and> r_link r = l)"
  using assms by (fastforce simp: route_def enqueue_def server_inv_def split: option.splits if_splits)

lemma server_accepts_no_data:
  assumes "server_step s a = Some t" and "\<forall>now l c. a \<noteq> Route now (LinkData l c)"
  shows "nonempty (of_id j (accepted t)) = nonempty (of_id j (accepted s))"
proof (cases a)
  case (Route now ev)
  then show ?thesis using assms by (auto simp: route_def split: bridge_event.splits option.splits if_splits)
next
  case RouteSentinel
  then show ?thesis using assms(1)
    by (auto simp: route_sentinel_def enqueue_def nonempty_def Let_def split: option.splits if_splits router_state.splits)
qed (use assms in \<open>auto simp: with_relay_eq relay_bind_def relay_connect_def to_sc_def from_sc_def relay_end_def
    set_relay_def Let_def
    split: if_splits list.splits prod.splits option.splits udp_result.splits send_outcome.splits\<close>)

text \<open>A relay is made for a link that has just been established, one at a time.\<close>

lemma server_new_relay:
  assumes "server_step s a = Some t" and "relays t j = Some r" and "relays s j = None"
  shows "j = next_relay s \<and> (\<exists>now. a = Route now (LinkEstablished (r_link r)))"
proof (cases a)
  case (Route now ev)
  then show ?thesis using assms
    by (auto simp: route_def enqueue_def new_relay_def split: bridge_event.splits option.splits if_splits)
next
  case RouteSentinel
  then show ?thesis using assms
    by (auto simp: route_sentinel_def enqueue_def Let_def split: option.splits if_splits router_state.splits)
qed (use assms in \<open>auto simp: with_relay_eq relay_bind_def relay_connect_def to_sc_def from_sc_def relay_end_def
    set_relay_def Let_def
    split: if_splits list.splits prod.splits option.splits udp_result.splits send_outcome.splits\<close>)

end
