(* ===== verification/Bridge_World.thy ===== *)
theory Bridge_World
  imports Link_Channel Node_Steps
begin

text \<open>
  Client nodes, a server node and the engine between them as one system.  Each machine runs a
  client of the bridge; what a node hands to the engine on a link is under way until the other end
  of the link takes it.  The engine is not part of the repository's own code; what the system
  assumes of it is written into \<open>world_step\<close>: a link that is established has an identifier not
  used before, is announced to the server at most once and joins the relay that established it to
  the server; a chunk is delivered at most once and unaltered.  Chunks under way can be
  lost and reordered at any time.
\<close>

record world =
  machines :: "nat \<Rightarrow> client_state"
  host :: server_state
  owner :: "link_id \<rightharpoonup> nat \<times> nat"
  met :: "link_id list"
  up :: "link_id \<Rightarrow> channel"
  down :: "link_id \<Rightarrow> channel"
  host_trace :: "server_action list"

text \<open>
  \<open>owner\<close> is the machine and relay that established a link, \<open>met\<close> the links announced to the
  server, \<open>host_trace\<close> what the server has done.
\<close>

definition world_init :: "(nat \<Rightarrow> destination_hash option) \<Rightarrow> world" where
  "world_init targets =
     \<lparr>machines = (\<lambda>n. client_init (targets n)), host = server_init, owner = Map.empty, met = [],
      up = (\<lambda>l. channel_new), down = (\<lambda>l. channel_new), host_trace = []\<rparr>"

definition put_commands :: "engine_command list \<Rightarrow> (link_id \<Rightarrow> channel) \<Rightarrow> link_id \<Rightarrow> channel" where
  "put_commands cmds k = (\<lambda>l. channel_put (sends_to l cmds) (k l))"

datatype world_event =
  AtClient nat client_action
| AtServer server_action
| UpArrives nat link_id
| DownArrives nat link_id
| UpDisturbed link_id "bytes list"
| DownDisturbed link_id "bytes list"

fun is_client_arrival :: "client_action \<Rightarrow> bool" where
  "is_client_arrival (CRoute _ (LinkData _ _)) = True"
| "is_client_arrival _ = False"

fun link_of :: "client_action \<Rightarrow> (nat \<times> link_id) option" where
  "link_of (Establish i (Some l)) = Some (i, l)"
| "link_of _ = None"

text \<open>What a client may do when: a link it is given is new.\<close>

definition client_may :: "client_action \<Rightarrow> world \<Rightarrow> bool" where
  "client_may a w \<longleftrightarrow> \<not> is_client_arrival a \<and> (case link_of a of None \<Rightarrow> True | Some (i, l) \<Rightarrow> owner w l = None)"

definition new_owner :: "nat \<Rightarrow> client_action \<Rightarrow> (link_id \<rightharpoonup> nat \<times> nat) \<Rightarrow> link_id \<rightharpoonup> nat \<times> nat" where
  "new_owner n a ow = (case link_of a of None \<Rightarrow> ow | Some (i, l) \<Rightarrow> ow(l \<mapsto> (n, i)))"

fun server_may :: "server_action \<Rightarrow> world \<Rightarrow> bool" where
  "server_may (Route _ (LinkData _ _)) w = False"
| "server_may (Route _ (LinkEstablished l)) w = (owner w l \<noteq> None \<and> l \<notin> set (met w))"
| "server_may _ w = True"

fun met_by :: "server_action \<Rightarrow> link_id list" where
  "met_by (Route _ (LinkEstablished l)) = [l]"
| "met_by _ = []"

definition server_does :: "server_action \<Rightarrow> world \<Rightarrow> world option" where
  "server_does a w =
     (case server_step (host w) a of
        None \<Rightarrow> None
      | Some t \<Rightarrow> Some (w\<lparr>host := t, met := met w @ met_by a,
                          down := put_commands (drop (length (commands (host w))) (commands t)) (down w),
                          host_trace := host_trace w @ [a]\<rparr>))"

fun world_step :: "world \<Rightarrow> world_event \<Rightarrow> world option" where
  "world_step w (AtClient n a) =
     (if client_may a w
      then case client_step (machines w n) a of
             None \<Rightarrow> None
           | Some t \<Rightarrow> Some (w\<lparr>machines := (machines w)(n := t), owner := new_owner n a (owner w),
                               up := put_commands (map snd (drop (length (c_commands (machines w n))) (c_commands t))) (up w)\<rparr>)
      else None)"
| "world_step w (AtServer a) = (if server_may a w then server_does a w else None)"
| "world_step w (UpArrives now l) =
     (case flight (up w l) of
        [] \<Rightarrow> None
      | c # _ \<Rightarrow>
          (case server_does (Route now (LinkData l c)) w of
             None \<Rightarrow> None
           | Some v \<Rightarrow> Some (v\<lparr>up := (up w)(l := channel_take (accepted (host v) \<noteq> accepted (host w)) (up w l))\<rparr>)))"
| "world_step w (DownArrives now l) =
     (case (owner w l, flight (down w l)) of
        (Some (n, i), c # _) \<Rightarrow>
          (let t = client_route now (LinkData l c) (machines w n)
           in Some (w\<lparr>machines := (machines w)(n := t),
                      down := (down w)(l := channel_take (taken_down t \<noteq> taken_down (machines w n)) (down w l))\<rparr>))
      | _ \<Rightarrow> None)"
| "world_step w (UpDisturbed l cs) =
     (case channel_disturb cs (up w l) of None \<Rightarrow> None | Some k \<Rightarrow> Some (w\<lparr>up := (up w)(l := k)\<rparr>))"
| "world_step w (DownDisturbed l cs) =
     (case channel_disturb cs (down w l) of None \<Rightarrow> None | Some k \<Rightarrow> Some (w\<lparr>down := (down w)(l := k)\<rparr>))"

inductive world_run :: "world \<Rightarrow> world_event list \<Rightarrow> world \<Rightarrow> bool" where
  world_Nil: "world_run w [] w"
| world_Cons: "world_step w e = Some v \<Longrightarrow> world_run v es u \<Longrightarrow> world_run w (e # es) u"

fun world_exec :: "world \<Rightarrow> world_event list \<Rightarrow> world option" where
  "world_exec w [] = Some w"
| "world_exec w (e # es) = (case world_step w e of None \<Rightarrow> None | Some v \<Rightarrow> world_exec v es)"

lemma world_exec_run: "world_exec w es = Some v \<Longrightarrow> world_run w es v"
  by (induction es arbitrary: w) (auto intro: world_run.intros split: option.splits)

lemma world_exec_append: "world_exec w (es @ fs) = Option.bind (world_exec w es) (\<lambda>v. world_exec v fs)"
  by (induction es arbitrary: w) (simp_all split: option.split)

subsection \<open>The invariant\<close>

text \<open>A relay of a client is still looking for a link, owns one, or has given up without one.\<close>

definition owns_ok :: "nat \<Rightarrow> nat \<Rightarrow> crelay \<Rightarrow> world \<Rightarrow> bool" where
  "owns_ok n i r w \<longleftrightarrow>
     (if unlinked r then \<forall>l. owner w l \<noteq> Some (n, i)
      else owner w (cr_link r) = Some (n, i)
        \<or> cr_phase r = Finished \<and> \<not> cr_recv r \<and> of_id i (c_commands (machines w n)) = [] \<and> (\<forall>l. owner w l \<noteq> Some (n, i)))"

definition owned_up :: "link_id \<Rightarrow> world \<Rightarrow> bytes list" where
  "owned_up l w = (case owner w l of None \<Rightarrow> [] | Some (n, i) \<Rightarrow> payloads (of_id i (c_commands (machines w n))))"

definition owned_down :: "link_id \<Rightarrow> world \<Rightarrow> bytes list" where
  "owned_down l w = (case owner w l of None \<Rightarrow> [] | Some (n, i) \<Rightarrow> of_id i (taken_down (machines w n)))"

lemma owned_cong:
  "owner v = owner w \<Longrightarrow> machines v = machines w \<Longrightarrow> owned_up l v = owned_up l w \<and> owned_down l v = owned_down l w"
  by (simp add: owned_up_def owned_down_def split: option.split)

definition clients_ok :: "world \<Rightarrow> bool" where
  "clients_ok w \<longleftrightarrow>
     (\<forall>n. \<exists>target as. client_run (client_init target) as (machines w n))
     \<and> (\<forall>n i r. crelays (machines w n) i = Some r \<longrightarrow> owns_ok n i r w)
     \<and> (\<forall>l n i. owner w l = Some (n, i) \<longrightarrow> (\<exists>r. crelays (machines w n) i = Some r \<and> cr_link r = l \<and> \<not> unlinked r))"

definition host_ok :: "world \<Rightarrow> bool" where
  "host_ok w \<longleftrightarrow>
     server_run server_init (host_trace w) (host w)
     \<and> (\<forall>j q. relays (host w) j = Some q \<longrightarrow> r_link q \<in> set (met w))
     \<and> (\<forall>i j q p. relays (host w) i = Some q \<longrightarrow> relays (host w) j = Some p \<longrightarrow> r_link q = r_link p \<longrightarrow> i = j)
     \<and> (\<forall>l\<in>set (met w). owner w l \<noteq> None)"

definition up_ok :: "link_id \<Rightarrow> world \<Rightarrow> bool" where
  "up_ok l w \<longleftrightarrow> channel_ok (up w l) \<and> put (up w l) = owned_up l w
     \<and> (\<forall>j q. relays (host w) j = Some q \<longrightarrow> r_link q = l \<longrightarrow> got (up w l) = nonempty (of_id j (accepted (host w))))
     \<and> (l \<notin> set (met w) \<longrightarrow> got (up w l) = [])"

definition down_ok :: "link_id \<Rightarrow> world \<Rightarrow> bool" where
  "down_ok l w \<longleftrightarrow> channel_ok (down w l) \<and> put (down w l) = sends_to l (commands (host w))
     \<and> got (down w l) = owned_down l w"

definition world_ok :: "world \<Rightarrow> bool" where
  "world_ok w \<longleftrightarrow> clients_ok w \<and> host_ok w \<and> (\<forall>l. up_ok l w \<and> down_ok l w)"

lemma world_ok_init: "world_ok (world_init targets)"
proof -
  have "\<forall>n. \<exists>target as. client_run (client_init target) as (client_init (targets n))"
    using crun_Nil by blast
  then show ?thesis
    using channel_ok_new
    by (simp add: world_ok_def clients_ok_def host_ok_def up_ok_def down_ok_def world_init_def
        owned_up_def owned_down_def channel_new_def run_Nil) (simp add: server_init_def client_init_def)
qed

subsection \<open>A step of a client\<close>

lemma client_run_snoc: "client_run s as t \<Longrightarrow> client_step t a = Some u \<Longrightarrow> client_run s (as @ [a]) u"
  by (induction rule: client_run.induct) (auto intro: client_run.intros)

lemma server_run_snoc: "server_run s as t \<Longrightarrow> server_step t a = Some u \<Longrightarrow> server_run s (as @ [a]) u"
  by (induction rule: server_run.induct) (auto intro: server_run.intros)

lemma clients_inv: "clients_ok w \<Longrightarrow> client_inv (machines w n)"
  unfolding clients_ok_def using client_run_inv client_inv_init by blast

lemma host_inv: "host_ok w \<Longrightarrow> server_inv (host w)"
  unfolding host_ok_def using server_run_inv server_inv_init by blast

lemma owner_relay:
  "clients_ok w \<Longrightarrow> owner w l = Some (n, i) \<Longrightarrow> \<exists>r. crelays (machines w n) i = Some r \<and> cr_link r = l \<and> \<not> unlinked r"
  by (simp add: clients_ok_def)

lemma relay_owns: "clients_ok w \<Longrightarrow> crelays (machines w n) i = Some r \<Longrightarrow> owns_ok n i r w"
  by (simp add: clients_ok_def)

lemma unlinked_nothing:
  "client_inv s \<Longrightarrow> crelays s i = Some r \<Longrightarrow> unlinked r \<Longrightarrow>
   of_id i (c_commands s) = [] \<and> of_id i (taken_down s) = []"
  using client_inv_relay_ok [of s i r] by (auto simp: crelay_ok_def pre_registered_def unlinked_def)

lemma link_of_Some: "link_of a = Some (i, l) \<longleftrightarrow> a = Establish i (Some l)"
  by (cases a rule: link_of.cases) auto

lemma establish_unlinked:
  assumes "client_step s (Establish i (Some l)) = Some t" and "client_inv s"
  obtains r r' where "crelays s i = Some r" "unlinked r" "crelays t i = Some r'" "cr_link r' = l"
    "\<not> unlinked r'" "cr_phase r' \<noteq> Finished" "c_commands t = c_commands s" "taken_down t = taken_down s"
proof -
  obtain r where r: "crelays s i = Some r" "c_establish i (Some l) r s = Some t"
    using assms(1) by (auto simp: with_crelay_eq)
  then obtain r' where r': "crelays t i = Some r'" "link_step (Establish i (Some l)) i r r'"
    using client_keeps_relay [OF assms(1)] client_link_step [OF assms] by blast
  moreover have "unlinked r" using r(2) by (cases "cr_phase r") (auto simp: c_establish_def unlinked_def)
  ultimately show thesis using that r relay_silent(1) client_step_takes [OF assms(1)] by (auto simp: link_step_def)
qed

lemma sends_to_target: "list_all (targets_link m) cmds \<Longrightarrow> sends_to l cmds = (if l = m then payloads cmds else [])"
proof (induction cmds)
  case (Cons c cmds)
  then show ?case by (cases c) (auto simp: sends_to_def)
qed simp

lemma client_puts:
  assumes "clients_ok w" and "client_step (machines w n) a = Some t" and "client_may a w"
    and "w' = w\<lparr>machines := (machines w)(n := t), owner := new_owner n a (owner w), up := k\<rparr>"
    and "new = map snd (drop (length (c_commands (machines w n))) (c_commands t))"
  shows "owned_up l w' = owned_up l w @ sends_to l new \<and> [] \<notin> set (sends_to l new) \<and> owned_down l w' = owned_down l w"
proof (cases "link_of a")
  case (Some p)
  then obtain i m where a: "a = Establish i (Some m)" "link_of a = Some (i, m)"
    by (cases p) (auto simp: link_of_Some)
  obtain r where r: "crelays (machines w n) i = Some r" "unlinked r" "c_commands t = c_commands (machines w n)"
    "taken_down t = taken_down (machines w n)"
    using establish_unlinked assms(2) clients_inv [OF assms(1)] unfolding a(1) by metis
  have "owner w m = None" using assms(3) a by (simp add: client_may_def)
  then show ?thesis
    using unlinked_nothing [OF clients_inv [OF assms(1)] r(1,2)] r(3,4) a
    by (simp add: assms(4,5) owned_up_def owned_down_def new_owner_def split: option.split)
next
  case None
  have owner: "new_owner n a (owner w) = owner w" using None by (simp add: new_owner_def)
  have "\<forall>now l c. a \<noteq> CRoute now (LinkData l c)" using assms(3) by (auto simp: client_may_def)
  then have taken: "taken_down t = taken_down (machines w n)" using client_step_takes [OF assms(2)] by blast
  obtain i cmds where c: "c_commands t = c_commands (machines w n) @ map (Pair i) cmds" "[] \<notin> set (payloads cmds)"
    "cmds \<noteq> [] \<longrightarrow> (\<exists>r. crelays (machines w n) i = Some r \<and> \<not> unlinked r \<and> cr_phase r \<noteq> Finished)"
    using client_step_issues [OF assms(2)] unfolding issues_for_one_def by blast
  have new: "new = cmds" by (simp add: assms(5) c(1) comp_def)
  have put: "owned_up l w' = owned_up l w @ (if owner w l = Some (n, i) then payloads cmds else [])"
    by (auto simp: owned_up_def owner assms(4) c(1) split: option.split)
  show ?thesis
  proof (cases "cmds = []")
    case True
    then show ?thesis using put new taken by (auto simp: owned_down_def owner assms(4) split: option.split)
  next
    case False
    then obtain r where r: "crelays (machines w n) i = Some r" "\<not> unlinked r" "cr_phase r \<noteq> Finished" using c(3) by blast
    then have own: "owner w (cr_link r) = Some (n, i)" using relay_owns [OF assms(1) r(1)] by (simp add: owns_ok_def)
    obtain r' where r': "crelays t i = Some r'" using client_keeps_relay [OF assms(2) r(1)] by blast
    have "cr_link r' = cr_link r"
      using client_link_step [OF assms(2) clients_inv [OF assms(1)] r(1) r'] r(2) by (simp add: link_step_def)
    then have "list_all (targets_link (cr_link r)) cmds"
      using client_inv_relay_ok [OF client_step_inv [OF assms(2) clients_inv [OF assms(1)]] r'] c(1)
      by (simp add: crelay_ok_def)
    then have "sends_to l new = (if l = cr_link r then payloads cmds else [])" using sends_to_target new by blast
    moreover have "owner w l = Some (n, i) \<longleftrightarrow> l = cr_link r" using own owner_relay [OF assms(1)] r(1) by fastforce
    ultimately show ?thesis using put c(2) taken by (auto simp: owned_down_def owner assms(4) split: option.split)
  qed
qed

lemma owned_by_other: "owner w l = Some (n, i) \<Longrightarrow> clients_ok w \<Longrightarrow> crelays (machines w n) i = Some r \<Longrightarrow> cr_link r = l"
  using owner_relay by fastforce

lemma establish_owner:
  assumes "client_step s (Establish i (Some m)) = Some t" and "client_inv s" and "crelays s j = Some r" and "crelays t j = Some r'"
  shows "if j = i then unlinked r \<and> \<not> unlinked r' \<and> cr_link r' = m else r' = r"
proof -
  obtain q where "crelays s i = Some q" "c_establish i (Some m) q s = Some t"
    using assms(1) by (auto simp: with_crelay_eq)
  then show ?thesis using assms(3,4)
    by (cases "cr_phase q") (auto simp: c_establish_def unlinked_def)
qed

lemma client_step_owns:
  assumes "clients_ok w" and "client_step (machines w n) a = Some t"
    and "\<And>i l. link_of a = Some (i, l) \<Longrightarrow> owner w l = None"
    and "machines w' = (machines w)(n := t)" and "owner w' = new_owner n a (owner w)"
    and "crelays (machines w' m) j = Some r'"
  shows "owns_ok m j r' w'"
proof (cases "link_of a")
  case None
  then have owner: "owner w' = owner w" by (simp add: assms(5) new_owner_def)
  show ?thesis
  proof (cases "m = n")
    case False
    then show ?thesis using relay_owns [OF assms(1), of m j r'] assms(4,6) by (simp add: owns_ok_def owner)
  next
    case True
    then have r': "crelays t j = Some r'" using assms(4,6) by simp
    have no: "\<forall>l. a \<noteq> Establish j (Some l)" using None by auto
    show ?thesis
    proof (cases "crelays (machines w n) j")
      case fresh: None
      then have "\<forall>l. owner w l \<noteq> Some (n, j)" using owner_relay [OF assms(1)] by fastforce
      then show ?thesis using client_new_unlinked [OF assms(2) fresh r'] True by (simp add: owns_ok_def owner)
    next
      case (Some r)
      note step = client_link_step [OF assms(2) clients_inv [OF assms(1)] Some r']
      obtain i cmds where c: "c_commands t = c_commands (machines w n) @ map (Pair i) cmds"
        "cmds \<noteq> [] \<longrightarrow> (\<exists>r. crelays (machines w n) i = Some r \<and> \<not> unlinked r \<and> cr_phase r \<noteq> Finished)"
        using client_step_issues [OF assms(2)] unfolding issues_for_one_def by blast
      have cmds: "of_id j (c_commands t) = []"
        if "of_id j (c_commands (machines w n)) = []" "unlinked r \<or> cr_phase r = Finished"
        using that c Some by (cases "cmds = []") auto
      show ?thesis
        using relay_owns [OF assms(1) Some] step no cmds unlinked_nothing [OF clients_inv [OF assms(1)] Some] True assms(4)
        by (auto simp: owns_ok_def link_step_def owner split: if_splits client_action.splits option.splits)
    qed
  qed
next
  case (Some p)
  then obtain i l where a: "a = Establish i (Some l)" "link_of a = Some (i, l)"
    by (cases p) (auto simp: link_of_Some)
  then have owner: "owner w' = (owner w)(l \<mapsto> (n, i))" "owner w l = None" using assms(3) by (auto simp: assms(5) new_owner_def)
  obtain q where q: "crelays (machines w n) i = Some q" "unlinked q" "c_commands t = c_commands (machines w n)"
    using establish_unlinked assms(2) clients_inv [OF assms(1)] unfolding a(1) by metis
  show ?thesis
  proof (cases "m = n")
    case False
    then show ?thesis using relay_owns [OF assms(1), of m j r'] assms(4,6) owner by (auto simp: owns_ok_def split: if_splits)
  next
    case True
    then have r': "crelays t j = Some r'" using assms(4,6) by simp
    then obtain r where r: "crelays (machines w n) j = Some r"
      using client_new_unlinked [OF assms(2)] a(1) by fastforce
    show ?thesis
      using establish_owner [OF assms(2) [unfolded a(1)] clients_inv [OF assms(1)] r r'] relay_owns [OF assms(1) r] q(3) owner True assms(4)
      by (auto simp: owns_ok_def split: if_splits)
  qed
qed

lemma clients_ok_step:
  assumes "clients_ok w" and "client_step (machines w n) a = Some t"
    and "\<And>i l. link_of a = Some (i, l) \<Longrightarrow> owner w l = None"
    and "machines w' = (machines w)(n := t)" and "owner w' = new_owner n a (owner w)"
  shows "clients_ok w'"
  unfolding clients_ok_def
proof (intro conjI allI impI)
  fix m
  show "\<exists>target as. client_run (client_init target) as (machines w' m)"
    using assms(1,2) client_run_snoc unfolding clients_ok_def assms(4) by (metis fun_upd_apply)
next
  fix m i r assume r: "crelays (machines w' m) i = Some r"
  show "owns_ok m i r w'" by (rule client_step_owns [OF assms(1,2) _ assms(4,5) r]) (rule assms(3))
next
  fix l m i assume o: "owner w' l = Some (m, i)"
  show "\<exists>r. crelays (machines w' m) i = Some r \<and> cr_link r = l \<and> \<not> unlinked r"
  proof (cases "link_of a = Some (i, l) \<and> m = n")
    case True
    then show ?thesis
      using establish_unlinked assms(2) clients_inv [OF assms(1)] unfolding link_of_Some assms(4) by (metis fun_upd_same)
  next
    case False
    then have "owner w l = Some (m, i)"
      using o by (auto simp: assms(5) new_owner_def split: option.splits if_splits prod.splits)
    then obtain r where r: "crelays (machines w m) i = Some r" "cr_link r = l" "\<not> unlinked r"
      using owner_relay [OF assms(1)] by blast
    show ?thesis
    proof (cases "m = n")
      case True
      then obtain r' where r': "crelays t i = Some r'" using client_keeps_relay [OF assms(2)] r(1) by blast
      then have "link_step a i r r'" using client_link_step [OF assms(2) clients_inv [OF assms(1)]] r(1) True by blast
      then show ?thesis using r r' True assms(4) by (simp add: link_step_def)
    qed (use r assms(4) in simp)
  qed
qed

lemma at_client_ok:
  assumes "world_ok w" and "world_step w (AtClient n a) = Some v"
  shows "world_ok v"
proof -
  define s where "s = machines w n"
  obtain t where t: "client_step s a = Some t" "client_may a w"
    "v = w\<lparr>machines := (machines w)(n := t), owner := new_owner n a (owner w),
       up := put_commands (map snd (drop (length (c_commands s)) (c_commands t))) (up w)\<rparr>"
    using assms(2) by (auto simp: s_def split: if_splits option.splits)
  have ok: "clients_ok w" "host_ok w" "\<And>l. up_ok l w" "\<And>l. down_ok l w" using assms(1) by (simp_all add: world_ok_def)
  have fresh: "link_of a = Some (i, l) \<Longrightarrow> owner w l = None" for i l using t(2) by (simp add: client_may_def)
  have "clients_ok v" by (rule clients_ok_step [OF ok(1) t(1) [unfolded s_def]]) (simp_all add: t(3) fresh)
  moreover have "host_ok v"
    using ok(2) by (auto simp: host_ok_def t(3) new_owner_def split: option.split)
  moreover have "up_ok l v" "down_ok l v" for l
    using client_puts [OF ok(1) t(1) [unfolded s_def] t(2) t(3) refl, of l] ok(3,4) [of l] channel_ok_put [of "up w l"]
    by (auto simp: up_ok_def down_ok_def put_commands_def t(3) s_def)
  ultimately show ?thesis by (simp add: world_ok_def)
qed

subsection \<open>A step of the server\<close>

lemma relay_link_kept:
  "server_step s a = Some t \<Longrightarrow> server_inv s \<Longrightarrow> relays s j = Some q \<Longrightarrow> relays t j = Some p \<Longrightarrow> r_link q = r_link p"
  using server_step_links unfolding same_links_def by fastforce

lemma server_does_Some:
  "server_does a w = Some v \<longleftrightarrow>
   (\<exists>t. server_step (host w) a = Some t
     \<and> v = w\<lparr>host := t, met := met w @ met_by a,
             down := put_commands (drop (length (commands (host w))) (commands t)) (down w), host_trace := host_trace w @ [a]\<rparr>)"
  by (auto simp: server_does_def split: option.splits)

lemma met_by_may: "\<forall>now l c. a \<noteq> Route now (LinkData l c) \<Longrightarrow>
   server_may a w \<longleftrightarrow> (\<forall>l\<in>set (met_by a). owner w l \<noteq> None \<and> l \<notin> set (met w))"
  by (cases "(a, w)" rule: server_may.cases) auto

lemma host_ok_step:
  assumes "host_ok w" and "server_does a w = Some v" and "\<forall>l\<in>set (met_by a). owner w l \<noteq> None \<and> l \<notin> set (met w)"
  shows "host_ok v"
proof -
  define s where "s = host w"
  obtain t where t: "server_step s a = Some t" "host v = t" "met v = met w @ met_by a" "owner v = owner w"
    "host_trace v = host_trace w @ [a]"
    using assms(2) by (auto simp: server_does_Some s_def)
  note inv = host_inv [OF assms(1)]
  have old: "\<exists>q. relays s j = Some q \<and> r_link q = r_link p \<or> relays s j = None \<and> j = next_relay s \<and> r_link p \<in> set (met_by a)"
    if "relays t j = Some p" for j p
  proof (cases "relays s j")
    case None
    then show ?thesis using server_new_relay [OF t(1) that None] by auto
  next
    case (Some q)
    then show ?thesis using relay_link_kept [OF t(1) inv [folded s_def] Some that] by blast
  qed
  have one: "i = j" if "relays t i = Some q" "relays t j = Some p" "r_link q = r_link p" for i j q p
    using old [OF that(1)] old [OF that(2)] that(3) assms(1,3) unfolding host_ok_def s_def by metis
  have "\<forall>j q. relays t j = Some q \<longrightarrow> r_link q \<in> set (met w @ met_by a)"
  proof (intro allI impI)
    fix j q assume "relays t j = Some q"
    then show "r_link q \<in> set (met w @ met_by a)" using old [of j q] assms(1) unfolding host_ok_def s_def by force
  qed
  moreover have "server_run server_init (host_trace v) t"
    using assms(1) t(1,5) server_run_snoc unfolding host_ok_def s_def by metis
  ultimately show ?thesis using one assms(1,3) t by (fastforce simp: host_ok_def)
qed

lemma server_puts:
  assumes "server_does a w = Some v"
  shows "down_ok l w \<Longrightarrow> down_ok l v"
proof -
  obtain t where step: "server_step (host w) a = Some t" and
    v: "v = w\<lparr>host := t, met := met w @ met_by a,
             down := put_commands (drop (length (commands (host w))) (commands t)) (down w), host_trace := host_trace w @ [a]\<rparr>"
    using assms by (auto simp: server_does_Some)
  obtain cmds where t: "commands t = commands (host w) @ cmds" "[] \<notin> set (payloads cmds)"
    using server_step_commands [OF step] by blast
  have "set (sends_to l cmds) \<subseteq> set (payloads cmds)"
    unfolding sends_to_def by (induction cmds rule: payloads.induct) auto
  then show "down_ok l w \<Longrightarrow> down_ok l v"
    using t channel_ok_put [of "down w l" "sends_to l cmds"] owned_cong [of v w l]
    by (auto simp: down_ok_def v put_commands_def)
qed

lemma at_server_ok:
  assumes "world_ok w" and "world_step w (AtServer a) = Some v"
  shows "world_ok v"
proof -
  have v: "server_may a w" "server_does a w = Some v" using assms(2) by (auto split: if_splits)
  obtain t where t: "server_step (host w) a = Some t" "host v = t" "met v = met w @ met_by a" "owner v = owner w"
    "machines v = machines w" "up v = up w"
    using v(2) by (auto simp: server_does_Some)
  have ok: "clients_ok w" "host_ok w" "\<And>l. up_ok l w" "\<And>l. down_ok l w" using assms(1) by (simp_all add: world_ok_def)
  have nodata: "\<forall>now l c. a \<noteq> Route now (LinkData l c)" using v(1) by auto
  have may: "\<forall>l\<in>set (met_by a). owner w l \<noteq> None \<and> l \<notin> set (met w)" using v(1) met_by_may [OF nodata] by blast
  note host = host_ok_step [OF ok(2) v(2) may]
  have "clients_ok v" using ok(1) by (simp add: clients_ok_def owns_ok_def t)
  moreover have "up_ok l v" for l
  proof -
    have "got (up w l) = nonempty (of_id j (accepted t))" if j: "relays t j = Some q" "r_link q = l" for j q
    proof (cases "relays (host w) j")
      case None
      then have "l \<in> set (met_by a)" using server_new_relay [OF t(1) j(1)] j(2) by auto
      then have "got (up w l) = []" using may ok(3) [of l] by (simp add: up_ok_def)
      moreover have "of_id j (accepted (host w)) = []" using None host_inv [OF ok(2)] by (simp add: server_inv_def)
      ultimately show ?thesis using server_accepts_no_data [OF t(1) nodata, of j] by simp
    next
      case (Some p)
      then have "r_link p = l" using relay_link_kept [OF t(1) host_inv [OF ok(2)] Some j(1)] j(2) by simp
      then show ?thesis using ok(3) [of l] Some server_accepts_no_data [OF t(1) nodata, of j] by (simp add: up_ok_def)
    qed
    then show ?thesis using ok(3) [of l] owned_cong [OF t(4,5)] by (simp add: up_ok_def t)
  qed
  ultimately show ?thesis using host server_puts [OF v(2)] ok(4) by (simp add: world_ok_def)
qed

subsection \<open>Arrivals and disturbances\<close>

lemma up_arrives_ok:
  assumes "world_ok w" and "world_step w (UpArrives now l) = Some v"
  shows "world_ok v"
proof -
  have ok: "clients_ok w" "host_ok w" "\<And>l. up_ok l w" "\<And>l. down_ok l w" using assms(1) by (simp_all add: world_ok_def)
  obtain c cs u where u: "flight (up w l) = c # cs" "server_does (Route now (LinkData l c)) w = Some u"
    "v = u\<lparr>up := (up w)(l := channel_take (accepted (host u) \<noteq> accepted (host w)) (up w l))\<rparr>"
    using assms(2) by (auto split: list.splits option.splits)
  obtain t where t: "server_step (host w) (Route now (LinkData l c)) = Some t" "host u = t" "met u = met w" "owner u = owner w"
    "machines u = machines w" "up u = up w"
    using u(2) by (auto simp: server_does_Some)
  have "host_ok u" using host_ok_step [OF ok(2) u(2)] by simp
  then have "host_ok v" by (simp add: u(3) host_ok_def)
  moreover have "clients_ok v" using ok(1) by (simp add: clients_ok_def owns_ok_def t u(3))
  moreover have "down_ok m v" for m
    using server_puts [OF u(2) ok(4) [of m]] owned_cong [of v u m] by (simp add: down_ok_def u(3))
  moreover have "up_ok m v" for m
  proof -
    have c: "c \<noteq> []" using channel_next_data u(1) ok(3) [of l] by (auto simp: up_ok_def)
    have relay: "\<exists>p. relays (host w) j = Some p \<and> r_link p = r_link q" if "relays t j = Some q" for j q
    proof (cases "relays (host w) j")
      case None
      then show ?thesis using server_new_relay [OF t(1) that] by simp
    qed (use relay_link_kept [OF t(1) host_inv [OF ok(2)] _ that] in auto)
    have unique: "j = i" if "relays (host w) j = Some p" "relays (host w) i = Some q" "r_link p = r_link q" for i j p q
      using that ok(2) unfolding host_ok_def by blast
    consider "accepted t = accepted (host w)"
      | i r where "accepted t = accepted (host w) @ [(i, c)]" "relays (host w) i = Some r" "r_link r = l"
      using server_arrival [OF host_inv [OF ok(2)] t(1)] by blast
    then show ?thesis
    proof cases
      case 1
      then have "up v m = (if m = l then channel_take False (up w l) else up w m)" by (simp add: u(3) t)
      then show ?thesis
        using ok(3) [of m] channel_ok_take [of "up w m" False] u(1) relay owned_cong [of v w m] 1
        by (auto simp: up_ok_def u(3) t)
    next
      case (2 i r)
      then have up: "up v m = (if m = l then channel_take True (up w l) else up w m)" by (simp add: u(3) t)
      have "l \<in> set (met w)" using 2 ok(2) by (auto simp: host_ok_def)
      moreover have "got (up v m) = nonempty (of_id j (accepted t))" if j: "relays t j = Some q" "r_link q = m" for j q
      proof -
        obtain p where p: "relays (host w) j = Some p" "r_link p = m" using relay [OF j(1)] j(2) by auto
        have "j = i \<longleftrightarrow> m = l" using unique [OF p(1) 2(2)] p 2(2,3) by auto
        moreover have "got (up w m) = nonempty (of_id j (accepted (host w)))" using ok(3) [of m] p by (simp add: up_ok_def)
        ultimately show ?thesis using u(1) 2(1) c up by (cases "m = l") (simp_all add: nonempty_def)
      qed
      ultimately show ?thesis
        using ok(3) [of m] channel_ok_take [of "up w m" True] owned_cong [of v w m] up
        by (auto simp: up_ok_def u(3) t)
    qed
  qed
  ultimately show ?thesis by (simp add: world_ok_def)
qed

lemma down_arrives_ok:
  assumes "world_ok w" and "world_step w (DownArrives now l) = Some v"
  shows "world_ok v"
proof -
  have ok: "clients_ok w" "host_ok w" "\<And>l. up_ok l w" "\<And>l. down_ok l w" using assms(1) by (simp_all add: world_ok_def)
  define u where "u = (\<lambda>n c. client_route now (LinkData l c) (machines w n))"
  obtain n i c cs where d: "owner w l = Some (n, i)" "flight (down w l) = c # cs"
    "v = w\<lparr>machines := (machines w)(n := u n c),
           down := (down w)(l := channel_take (taken_down (u n c) \<noteq> taken_down (machines w n)) (down w l))\<rparr>"
    using assms(2) by (auto simp: u_def Let_def split: list.splits option.splits)
  define s where "s = machines w n"
  define t where "t = u n c"
  have t: "t = client_route now (LinkData l c) s" by (simp add: t_def u_def s_def)
  have step: "client_step s (CRoute now (LinkData l c)) = Some t" by (simp add: t)
  have v: "machines v = (machines w)(n := t)" "owner v = owner w" "host v = host w" "met v = met w" "up v = up w"
    "host_trace v = host_trace w" "down v = (down w)(l := channel_take (taken_down t \<noteq> taken_down s) (down w l))"
    by (simp_all add: d(3) t_def s_def)
  have "clients_ok v"
    by (rule clients_ok_step [OF ok(1) step [unfolded s_def]]) (simp_all add: v new_owner_def)
  moreover have "host_ok v" using ok(2) by (simp add: host_ok_def v)
  moreover have "up_ok m v" for m
  proof -
    have "c_commands t = c_commands (machines w n)" unfolding t s_def by (rule relay_silent(9))
    then have "owned_up m v = owned_up m w" by (auto simp: owned_up_def v split: option.split)
    then show ?thesis using ok(3) [of m] by (simp add: up_ok_def v)
  qed
  moreover have "down_ok m v" for m
  proof -
    consider "taken_down t = taken_down s" | "taken_down t = taken_down s @ [(i, c)]"
    proof -
      have "j = i" if "crelays s j = Some r" "cr_link r = l" "\<not> pre_registered r" "cr_recv r" for j r
        using relay_owns [OF ok(1) that(1) [unfolded s_def]] that d(1)
        by (auto simp: owns_ok_def unlinked_def pre_registered_def)
      then show thesis using that client_arrival [OF clients_inv [OF ok(1), of n] t [unfolded s_def]] unfolding s_def by blast
    qed
    then show ?thesis
    proof cases
      case 1
      then have "owned_down m v = owned_down m w" by (auto simp: owned_down_def v s_def split: option.split)
      moreover have "down v m = (if m = l then channel_take False (down w m) else down w m)" using 1 by (simp add: v(7))
      ultimately show ?thesis using ok(4) [of m] channel_ok_take [of "down w m" False] d(2)
        by (cases "m = l") (simp_all add: down_ok_def v(3))
    next
      case 2
      have other: "m = l" if "owner w m = Some (n, i)"
        using owner_relay [OF ok(1) that] owner_relay [OF ok(1) d(1)] by auto
      have "owned_down m v = (if m = l then owned_down m w @ [c] else owned_down m w)"
      proof (cases "m = l")
        case True
        then show ?thesis using d(1) 2 by (simp add: owned_down_def v(1,2) s_def)
      next
        case False
        then show ?thesis using other 2 by (auto simp: owned_down_def v(1,2) s_def split: option.split)
      qed
      moreover have "down v m = (if m = l then channel_take True (down w m) else down w m)" using 2 by (simp add: v(7))
      ultimately show ?thesis using ok(4) [of m] channel_ok_take [of "down w m" True] d(2)
        by (cases "m = l") (simp_all add: down_ok_def v(3))
    qed
  qed
  ultimately show ?thesis by (simp add: world_ok_def)
qed

lemma disturbed_ok:
  assumes "world_ok w"
  shows "world_step w (UpDisturbed l cs) = Some v \<Longrightarrow> world_ok v"
    and "world_step w (DownDisturbed l cs) = Some v \<Longrightarrow> world_ok v"
proof -
  have frame: "clients_ok v \<and> host_ok v \<and> owned_up m v = owned_up m w \<and> owned_down m v = owned_down m w"
    if "machines v = machines w" "owner v = owner w" "host v = host w" "met v = met w" "host_trace v = host_trace w" for v m
    using assms that owned_cong [OF that(2,1)] by (simp add: world_ok_def clients_ok_def host_ok_def owns_ok_def)
  show "world_ok v" if "world_step w (UpDisturbed l cs) = Some v"
  proof -
    obtain k where k: "channel_disturb cs (up w l) = Some k" "v = w\<lparr>up := (up w)(l := k)\<rparr>"
      using \<open>world_step w (UpDisturbed l cs) = Some v\<close> by (auto split: option.splits)
    then show ?thesis
      using assms channel_ok_disturb [OF k(1)] channel_disturb_sel [OF k(1)] frame [of v]
      by (auto simp: world_ok_def up_ok_def down_ok_def)
  qed
  show "world_ok v" if "world_step w (DownDisturbed l cs) = Some v"
  proof -
    obtain k where k: "channel_disturb cs (down w l) = Some k" "v = w\<lparr>down := (down w)(l := k)\<rparr>"
      using \<open>world_step w (DownDisturbed l cs) = Some v\<close> by (auto split: option.splits)
    then show ?thesis
      using assms channel_ok_disturb [OF k(1)] channel_disturb_sel [OF k(1)] frame [of v]
      by (auto simp: world_ok_def up_ok_def down_ok_def)
  qed
qed

lemma world_step_ok: "world_step w e = Some v \<Longrightarrow> world_ok w \<Longrightarrow> world_ok v"
proof (cases e)
  case (AtClient n a)
  then show "world_step w e = Some v \<Longrightarrow> world_ok w \<Longrightarrow> world_ok v" using at_client_ok by metis
next
  case (AtServer a)
  then show "world_step w e = Some v \<Longrightarrow> world_ok w \<Longrightarrow> world_ok v" using at_server_ok by metis
next
  case (UpArrives now l)
  then show "world_step w e = Some v \<Longrightarrow> world_ok w \<Longrightarrow> world_ok v" using up_arrives_ok by metis
next
  case (DownArrives now l)
  then show "world_step w e = Some v \<Longrightarrow> world_ok w \<Longrightarrow> world_ok v" using down_arrives_ok by metis
next
  case (UpDisturbed l cs)
  then show "world_step w e = Some v \<Longrightarrow> world_ok w \<Longrightarrow> world_ok v" using disturbed_ok(1) by metis
next
  case (DownDisturbed l cs)
  then show "world_step w e = Some v \<Longrightarrow> world_ok w \<Longrightarrow> world_ok v" using disturbed_ok(2) by metis
qed

lemma world_run_ok: "world_run w es v \<Longrightarrow> world_ok w \<Longrightarrow> world_ok v"
  by (induction rule: world_run.induct) (auto dest: world_step_ok)

subsection \<open>What the ends of a link have\<close>

text \<open>The facts of the nodes at the two ends of a link, from the invariant.\<close>

lemma world_link:
  assumes "world_run (world_init targets) es w" and "owner w l = Some (n, i)" and "crelays (machines w n) i = Some r"
    and "relays (host w) j = Some q" and "r_link q = l"
  obtains target as ds where "client_run (client_init target) as (machines w n)" "cr_link r = l"
    "subseq (cr_pkt r # ds) (of_id (cr_src r) (heard (machines w n)))"
    "prefix (put (up w l)) (concat (map frame (cr_pkt r # ds)))" "channel_ok (up w l)" "channel_ok (down w l)"
    "got (up w l) = nonempty (of_id j (accepted (host w)))" "got (down w l) = of_id i (taken_down (machines w n))"
    "prefix (put (down w l)) (concat (map frame (replies j (host_trace w))))"
    "server_run server_init (host_trace w) (host w)"
proof -
  have ok: "clients_ok w" "host_ok w" "up_ok l w" "down_ok l w"
    using world_run_ok [OF assms(1) world_ok_init] by (simp_all add: world_ok_def)
  obtain target as where c: "client_run (client_init target) as (machines w n)" using ok(1) unfolding clients_ok_def by blast
  obtain ds where ds: "subseq (cr_pkt r # ds) (of_id (cr_src r) (heard (machines w n)))"
    "prefix (payloads (of_id i (c_commands (machines w n)))) (concat (map frame (cr_pkt r # ds)))"
    using client_uplink [OF c assms(3)] by blast
  have s: "server_run server_init (host_trace w) (host w)" using ok(2) by (simp add: host_ok_def)
  have "only_relay (r_link q) j (host w)" using ok(2) assms(4) unfolding only_relay_def host_ok_def by metis
  note down = downlink_issued [OF s assms(4) this]
  show thesis
    using that [OF c owned_by_other [OF assms(2) ok(1) assms(3)] ds(1)] ds(2) down s ok(3,4) assms(2,4,5)
    by (simp add: up_ok_def down_ok_def owned_up_def owned_down_def)
qed

lemma heard_short:
  assumes "client_run (client_init target) as s" and "subseq (p # ds) (of_id src (heard s))"
  shows "\<forall>d\<in>set (p # ds). length d \<le> 65535"
  using client_heard_short [OF assms(1)] list_emb_set [OF assms(2)] by metis

lemma subseq_mset: "subseq xs ys \<Longrightarrow> mset xs \<subseteq># mset ys"
  by (induction rule: list_emb.induct) (auto intro: subset_mset.order_trans)

lemma list_data: "[] \<notin> set cs \<Longrightarrow> nonempty cs = cs"
  by (induction cs) (auto simp: nonempty_def)

end
