(* ===== verification/Bridge_Delivery.thy ===== *)
theory Bridge_Delivery
  imports Bridge_World
begin

text \<open>
  What players and the Sven Co-op server get out of the whole system, in every state it can reach,
  and a run of it to look at.
\<close>

subsection \<open>A run\<close>

text \<open>Two packets of a player and one reply; the events of the engine are still to come.\<close>

definition demo_start :: "world_event list" where
  "demo_start = map (AtClient 0)
       [UdpRecv (Some (client_demo_src, [104])), Establish 0 (Some client_demo_link), Identify 0 True, Register 0 5,
        Attach 0, UdpRecv (Some (client_demo_src, [105])), SendTask 0 5]
     @ map AtServer [Route 0 (LinkEstablished client_demo_link), RelayBind 0 True, RelayConnect 0 True, FromSc 0 (UdpOk [65]) 5]"

lemmas world_defs = server_does_def client_may_def new_owner_def put_commands_def sends_to_def
  channel_new_def channel_take_def channel_disturb_def channel_put_def

definition demo_world :: world where
  "demo_world = the (world_exec (world_init (\<lambda>n. Some [1])) demo_start)"

lemma demo_started:
  "world_exec (world_init (\<lambda>n. Some [1])) demo_start = Some demo_world"
  "owner demo_world client_demo_link = Some (0, 0)"
  "\<exists>r. crelays (machines demo_world 0) 0 = Some r \<and> cr_src r = client_demo_src \<and> cr_pkt r = [104] \<and> cr_link r = client_demo_link
     \<and> cr_phase r = Running \<and> cr_recv r \<and> cr_down r = [] \<and> cr_reasm r = reassembler_default"
  "link_data_map (machines demo_world 0) client_demo_link = Some 0" "udp_out (machines demo_world 0) = []"
  "taken_down (machines demo_world 0) = []"
  "heard (machines demo_world 0) = [(client_demo_src, [104]), (client_demo_src, [105])]"
  "\<exists>q. relays (host demo_world) 0 = Some q \<and> r_link q = client_demo_link \<and> r_phase q = Joined \<and> r_to_sc q \<and> r_queue q = []
     \<and> r_reasm q = reassembler_default"
  "senders (host demo_world) client_demo_link = Some 0"
  "router (host demo_world) = RouterIdle" "accepted (host demo_world) = []" "sc_sent (host demo_world) = []"
  "up demo_world client_demo_link = \<lparr>put = [[1, 104], [1, 105]], flight = [[1, 104], [1, 105]], got = [], intact = True\<rparr>"
  "down demo_world client_demo_link = \<lparr>put = [[1, 65]], flight = [[1, 65]], got = [], intact = True\<rparr>"
  "replies 0 (host_trace demo_world) = [[65]]"
  by (simp_all add: demo_world_def demo_start_def world_init_def client_defs server_defs world_defs Let_def
      client_demo_src_def issue_one_byte reassembler_default_def)

lemma demo_world_run: "world_exec demo_world es = Some w \<Longrightarrow> world_run (world_init (\<lambda>n. Some [1])) (demo_start @ es) w"
  by (rule world_exec_run) (simp add: world_exec_append demo_started(1))

lemmas demo_step_defs = client_route_def recv_task_def with_crelay_def route_def enqueue_def to_sc_def with_relay_def
  set_relay_def world_defs RELAY_QUEUE_def push_def reassembler_default_def FLAG_FINAL_def

lemma demo_arrives:
  "\<exists>w r q. world_exec demo_world
       [UpArrives 1 client_demo_link, AtServer (ToSc 0 True), DownArrives 1 client_demo_link, AtClient 0 (RecvTask 0 True)] = Some w
     \<and> owner w client_demo_link = Some (0, 0) \<and> crelays (machines w 0) 0 = Some r \<and> cr_src r = client_demo_src \<and> cr_pkt r = [104]
     \<and> relays (host w) 0 = Some q \<and> r_link q = client_demo_link
     \<and> intact (up w client_demo_link) \<and> intact (down w client_demo_link)
     \<and> sc_sent (host w) = [(0, [104])] \<and> udp_out (machines w 0) = [(0, [65])] \<and> replies 0 (host_trace w) = [[65]]"
  using demo_started(2-) by (auto simp: demo_step_defs Let_def replies_append)

lemma demo_disturbed:
  "\<exists>w r q. world_exec demo_world
       [UpDisturbed client_demo_link [[1, 105], [1, 104]], UpArrives 1 client_demo_link, AtServer (ToSc 0 True),
        UpDisturbed client_demo_link [], DownDisturbed client_demo_link []] = Some w
     \<and> owner w client_demo_link = Some (0, 0) \<and> crelays (machines w 0) 0 = Some r \<and> cr_src r = client_demo_src
     \<and> relays (host w) 0 = Some q \<and> r_link q = client_demo_link \<and> heard (machines w 0) = heard (machines demo_world 0)
     \<and> sc_sent (host w) = [(0, [105])] \<and> udp_out (machines w 0) = [] \<and> replies 0 (host_trace w) = [[65]]"
  using demo_started(2-) by (auto simp: demo_step_defs Let_def replies_append)

subsection \<open>What is delivered\<close>

text \<open>
  C1: along the link of a player, in every state that client machines, the server and the engine
  between them can reach: as long as no chunk on its way to the server has been lost, reordered or refused,
  what the server has sent to the Sven Co-op server through the link's relay is an initial part of
  packets received from this player's game, in order and beginning with the packet that opened the link; and as long
  as none on the way back has, what the game has got is an initial part of the datagrams the
  Sven Co-op server sent to this relay.
\<close>

theorem world_delivers:
  assumes "world_run (world_init targets) es w" and "owner w l = Some (n, i)" and "crelays (machines w n) i = Some r"
    and "relays (host w) j = Some q" and "r_link q = l"
  shows "(intact (up w l) \<longrightarrow> (\<exists>ds. subseq (cr_pkt r # ds) (of_id (cr_src r) (heard (machines w n)))
            \<and> prefix (of_id j (sc_sent (host w))) (cr_pkt r # ds)))
     \<and> (intact (down w l) \<longrightarrow> prefix (of_id i (udp_out (machines w n))) (replies j (host_trace w)))"
proof -
  obtain target as ds where f: "client_run (client_init target) as (machines w n)"
    "subseq (cr_pkt r # ds) (of_id (cr_src r) (heard (machines w n)))"
    "prefix (put (up w l)) (concat (map frame (cr_pkt r # ds)))" "channel_ok (up w l)" "channel_ok (down w l)"
    "got (up w l) = nonempty (of_id j (accepted (host w)))" "got (down w l) = of_id i (taken_down (machines w n))"
    "prefix (put (down w l)) (concat (map frame (replies j (host_trace w))))"
    "server_run server_init (host_trace w) (host w)"
    using world_link [OF assms] by metis
  have "prefix (of_id j (sc_sent (host w))) (cr_pkt r # ds)" if "intact (up w l)"
  proof (rule pump_stream [OF sent_of_accepted [OF f(9)] _ heard_short [OF f(1,2)]])
    show "prefix (nonempty (of_id j (accepted (host w)))) (concat (map frame (cr_pkt r # ds)))"
      using channel_got_prefix [OF f(4) that] f(3) unfolding f(6) by (rule prefix_order.trans)
  qed
  moreover have "prefix (of_id i (udp_out (machines w n))) (replies j (host_trace w))" if "intact (down w l)"
  proof (rule pump_stream [OF client_sent_of_taken [OF f(1) assms(3)]])
    show "prefix (nonempty (of_id i (taken_down (machines w n)))) (concat (map frame (replies j (host_trace w))))"
      using channel_got_prefix [OF f(5) that] f(8) list_data [OF channel_got_data [OF f(5)]] unfolding f(7)
      by (metis prefix_order.trans)
  qed (use replies_short in blast)
  ultimately show ?thesis using f(2) by blast
qed

theorem world_delivers_witness:
  "\<exists>w es. world_run (world_init (\<lambda>n. Some [1])) es w \<and> sc_sent (host w) = [(0, [104])] \<and> udp_out (machines w 0) = [(0, [65])]
     \<and> (\<exists>ds. subseq ([104] # ds) (of_id client_demo_src (heard (machines w 0))) \<and> prefix [[104]] ([104] # ds))
     \<and> prefix [[65]] (replies 0 (host_trace w))"
proof -
  obtain w :: world and r :: crelay and q :: relay where w: "world_exec demo_world
       [UpArrives 1 client_demo_link, AtServer (ToSc 0 True), DownArrives 1 client_demo_link, AtClient 0 (RecvTask 0 True)] = Some w"
    "owner w client_demo_link = Some (0, 0)" "crelays (machines w 0) 0 = Some r" "cr_src r = client_demo_src" "cr_pkt r = [104]"
    "relays (host w) 0 = Some q" "r_link q = client_demo_link" "intact (up w client_demo_link)" "intact (down w client_demo_link)"
    "sc_sent (host w) = [(0, [104])]" "udp_out (machines w 0) = [(0, [65])]"
    using demo_arrives by blast
  note d = world_delivers [OF demo_world_run [OF w(1)] w(2,3,6,7)]
  obtain ds where ds: "subseq ([104] # ds) (of_id client_demo_src (heard (machines w 0)))" "prefix [[104]] ([104] # ds)"
    using d w(8) by (auto simp: w(4,5,10))
  have "prefix [[65]] (replies 0 (host_trace w))" using d w(9) by (simp add: w(11))
  then show ?thesis using ds w(10,11) demo_world_run [OF w(1)] by blast
qed

text \<open>
  C2: whatever the engine loses and reorders on a link, and whatever the other end refuses, packets of at most one chunk
  (1900 bytes, chosen in \<open>framing.rs\<close> to hold a typical datagram) are only lost or reordered as a whole: each datagram sent to the
  Sven Co-op server is a packet of this player, at most as often as it came, and each
  datagram the game gets is one the Sven Co-op server sent to this player's relay.
\<close>

theorem world_loses_whole:
  assumes "world_run (world_init targets) es w" and "owner w l = Some (n, i)" and "crelays (machines w n) i = Some r"
    and "relays (host w) j = Some q" and "r_link q = l"
  shows "((\<forall>d\<in>set (of_id (cr_src r) (heard (machines w n))). length d \<le> MAX_CHUNK) \<longrightarrow>
            mset (of_id j (sc_sent (host w))) \<subseteq># mset (of_id (cr_src r) (heard (machines w n))))
     \<and> ((\<forall>d\<in>set (replies j (host_trace w)). length d \<le> MAX_CHUNK) \<longrightarrow>
            mset (of_id i (udp_out (machines w n))) \<subseteq># mset (replies j (host_trace w)))"
proof -
  obtain target as ds where f: "client_run (client_init target) as (machines w n)"
    "subseq (cr_pkt r # ds) (of_id (cr_src r) (heard (machines w n)))"
    "prefix (put (up w l)) (concat (map frame (cr_pkt r # ds)))" "channel_ok (up w l)" "channel_ok (down w l)"
    "got (up w l) = nonempty (of_id j (accepted (host w)))" "got (down w l) = of_id i (taken_down (machines w n))"
    "prefix (put (down w l)) (concat (map frame (replies j (host_trace w))))"
    "server_run server_init (host_trace w) (host w)"
    using world_link [OF assms] by metis
  have sub: "mset (got k) \<subseteq># mset cs" if "channel_ok k" "prefix (put k) cs" for k cs
    using channel_got_mset [OF that(1)] subseq_mset [OF prefix_imp_subseq [OF that(2)]] by (rule subset_mset.order_trans)
  have "mset (of_id j (sc_sent (host w))) \<subseteq># mset (of_id (cr_src r) (heard (machines w n)))"
    if "\<forall>d\<in>set (of_id (cr_src r) (heard (machines w n))). length d \<le> MAX_CHUNK"
  proof -
    have "\<forall>d\<in>set (cr_pkt r # ds). length d \<le> MAX_CHUNK" using that list_emb_set [OF f(2)] by metis
    then have "mset (of_id j (sc_sent (host w))) \<subseteq># mset (cr_pkt r # ds)"
      using pump_lossy [OF sent_of_accepted [OF f(9)]] sub [OF f(4,3)] unfolding f(6) by blast
    then show ?thesis using subseq_mset [OF f(2)] by (rule subset_mset.order_trans)
  qed
  moreover have "mset (of_id i (udp_out (machines w n))) \<subseteq># mset (replies j (host_trace w))"
    if "\<forall>d\<in>set (replies j (host_trace w)). length d \<le> MAX_CHUNK"
    using pump_lossy [OF client_sent_of_taken [OF f(1) assms(3)] _ that] sub [OF f(5,8)]
      list_data [OF channel_got_data [OF f(5)]] unfolding f(7) by simp
  ultimately show ?thesis by blast
qed

theorem world_loses_whole_witness:
  "\<exists>w es. world_run (world_init (\<lambda>n. Some [1])) es w \<and> sc_sent (host w) = [(0, [105])]
     \<and> mset [[105]] \<subseteq># mset (of_id client_demo_src (heard (machines w 0)))
     \<and> mset (of_id 0 (udp_out (machines w 0))) \<subseteq># mset (replies 0 (host_trace w))"
proof -
  obtain w :: world and r :: crelay and q :: relay where w: "world_exec demo_world
       [UpDisturbed client_demo_link [[1, 105], [1, 104]], UpArrives 1 client_demo_link, AtServer (ToSc 0 True),
        UpDisturbed client_demo_link [], DownDisturbed client_demo_link []] = Some w"
    "owner w client_demo_link = Some (0, 0)" "crelays (machines w 0) 0 = Some r" "cr_src r = client_demo_src"
    "relays (host w) 0 = Some q" "r_link q = client_demo_link" "heard (machines w 0) = heard (machines demo_world 0)"
    "sc_sent (host w) = [(0, [105])]" "replies 0 (host_trace w) = [[65]]"
    using demo_disturbed by blast
  show ?thesis
    using world_loses_whole [OF demo_world_run [OF w(1)] w(2,3,5,6)] w(4,7-9) demo_world_run [OF w(1)]
    by (intro exI conjI) (auto simp: demo_started(7) MAX_CHUNK_def)
qed

end
