(* ===== verification/Uplink_Progress.thy ===== *)
theory Uplink_Progress
  imports Server_Relay Client_Relay
begin

text \<open>
  That packets do get through: the runs of a client and a server in which every call succeeds, and
  what they deliver.
\<close>

subsection \<open>The server\<close>

text \<open>A relay that is up, with nothing queued and nothing half received.\<close>

definition relay_ready :: "link_id \<Rightarrow> nat \<Rightarrow> server_state \<Rightarrow> bool" where
  "relay_ready l rid s \<longleftrightarrow> router s = RouterIdle \<and> senders s l = Some rid
     \<and> (\<exists>r. relays s rid = Some r \<and> r_link r = l \<and> r_phase r = Joined \<and> r_to_sc r \<and> r_from_sc r \<and> r_queue r = []
          \<and> r_reasm r = reassembler_default)"

definition accept_actions :: "link_id \<Rightarrow> nat \<Rightarrow> server_action list" where
  "accept_actions l rid = [Route 0 (LinkEstablished l), RelayBind rid True, RelayConnect rid True]"

definition chunk_actions :: "link_id \<Rightarrow> nat \<Rightarrow> bytes list \<Rightarrow> server_action list" where
  "chunk_actions l rid cs = concat (map (\<lambda>c. [Route 0 (LinkData l c), ToSc rid True]) cs)"

lemma server_exec_append:
  "server_exec s (as @ bs) = Option.bind (server_exec s as) (\<lambda>t. server_exec t bs)"
  by (induction as arbitrary: s) (simp_all split: option.split)

lemma server_accepts:
  assumes "router s = RouterIdle" and "senders s l = None"
  shows "\<exists>t. server_exec s (accept_actions l (next_relay s)) = Some t \<and> relay_ready l (next_relay s) t
    \<and> sc_sent t = sc_sent s"
  using assms by (simp add: accept_actions_def server_defs relay_ready_def)

text \<open>Chunk by chunk, what the reassembler completes is sent.\<close>

lemma server_pumps:
  assumes "router s = RouterIdle" and "senders s l = Some rid"
    and "relays s rid = Some r" and "r_link r = l" and "r_phase r = Joined" and "r_to_sc r" and "r_queue r = []"
    and "\<forall>c\<in>set cs. c \<noteq> []" and "push_all (r_reasm r) cs = (reasm, ds)"
  shows "\<exists>t. server_exec s (chunk_actions l rid cs) = Some t \<and> router t = RouterIdle \<and> senders t l = Some rid
    \<and> relays t rid = Some (r\<lparr>r_queue := [], r_reasm := reasm\<rparr>) \<and> sc_sent t = sc_sent s @ map (Pair rid) ds"
  using assms
proof (induction cs arbitrary: s r ds)
  case Nil
  then have "r\<lparr>r_queue := [], r_reasm := reasm\<rparr> = r" by (cases r) simp
  then show ?case using Nil by (simp add: chunk_actions_def)
next
  case (Cons c cs)
  obtain q out where q: "push (r_reasm r) c = (q, out)" by fastforce
  obtain ds' where ds: "push_all q cs = (reasm, ds')" "ds = (case out of None \<Rightarrow> ds' | Some d \<Rightarrow> d # ds')"
    using Cons.prems(9) q by (auto split: prod.splits)
  let ?r = "r\<lparr>r_queue := [], r_reasm := q\<rparr>"
  have "\<exists>t. server_exec s [Route 0 (LinkData l c), ToSc rid True] = Some t \<and> router t = RouterIdle
      \<and> senders t l = Some rid \<and> relays t rid = Some ?r
      \<and> sc_sent t = sc_sent s @ map (Pair rid) (case out of None \<Rightarrow> [] | Some d \<Rightarrow> [d])"
    using Cons.prems q by (cases out) (auto simp: server_defs Let_def)
  then obtain t where t: "server_exec s [Route 0 (LinkData l c), ToSc rid True] = Some t" "router t = RouterIdle"
    "senders t l = Some rid" "relays t rid = Some ?r"
    "sc_sent t = sc_sent s @ map (Pair rid) (case out of None \<Rightarrow> [] | Some d \<Rightarrow> [d])"
    by blast
  obtain u where u: "server_exec t (chunk_actions l rid cs) = Some u" "router u = RouterIdle"
    "senders u l = Some rid" "relays u rid = Some (?r\<lparr>r_queue := [], r_reasm := reasm\<rparr>)"
    "sc_sent u = sc_sent t @ map (Pair rid) ds'"
    using Cons.IH [of t ?r ds'] t Cons.prems ds(1) by auto
  have "chunk_actions l rid (c # cs) = [Route 0 (LinkData l c), ToSc rid True] @ chunk_actions l rid cs"
    by (simp add: chunk_actions_def)
  then have "server_exec s (chunk_actions l rid (c # cs)) = Some u"
    by (simp only: server_exec_append t(1) bind.bind_lunit u(1))
  then show ?case using u t(5) ds(2) by (auto split: option.split)
qed

lemma server_takes_datagrams:
  assumes "relay_ready l rid s" and "\<forall>d\<in>set ds. length d \<le> 65535"
  shows "\<exists>t. server_exec s (chunk_actions l rid (concat (map frame ds))) = Some t \<and> relay_ready l rid t
    \<and> sc_sent t = sc_sent s @ map (Pair rid) ds"
proof -
  obtain r where r: "router s = RouterIdle" "senders s l = Some rid" "relays s rid = Some r" "r_link r = l"
    "r_phase r = Joined" "r_to_sc r" "r_queue r = []" "r_reasm r = reassembler_default" "r_from_sc r"
    using assms(1) by (auto simp: relay_ready_def)
  have "\<forall>c\<in>set (concat (map frame ds)). c \<noteq> []" using frame_chunk_bounds by fastforce
  moreover have "push_all (r_reasm r) (concat (map frame ds)) = (reassembler_default, ds)"
    unfolding r(8) using framing.run_stream [of ds] assms(2) by blast
  ultimately obtain t where "server_exec s (chunk_actions l rid (concat (map frame ds))) = Some t"
    "router t = RouterIdle" "senders t l = Some rid" "relays t rid = Some (r\<lparr>r_queue := [], r_reasm := reassembler_default\<rparr>)"
    "sc_sent t = sc_sent s @ map (Pair rid) ds"
    using server_pumps [OF r(1-7)] by blast
  then show ?thesis using r by (auto simp: relay_ready_def)
qed

subsection \<open>The client\<close>

text \<open>The first packet of a source opens the link and is sent on it.\<close>

definition open_actions :: "socket_addr \<Rightarrow> link_id \<Rightarrow> nat \<Rightarrow> bytes \<Rightarrow> client_action list" where
  "open_actions src l rid p =
     [UdpRecv (Some (src, p)), Establish rid (Some l), Identify rid True, Register rid (length (frame p)), Attach rid]"

text \<open>Every further one goes through the relay's channel.\<close>

definition packet_actions :: "socket_addr \<Rightarrow> nat \<Rightarrow> bytes list \<Rightarrow> client_action list" where
  "packet_actions src rid ds = concat (map (\<lambda>d. [UdpRecv (Some (src, d)), SendTask rid (length (frame d))]) ds)"

definition client_ready :: "socket_addr \<Rightarrow> link_id \<Rightarrow> nat \<Rightarrow> client_state \<Rightarrow> bool" where
  "client_ready src l rid s \<longleftrightarrow> udp_task s = UdpReady \<and> udp_links s src = Some rid \<and> link_data_map s l = Some rid
     \<and> (\<exists>r. crelays s rid = Some r \<and> cr_src r = src \<and> cr_link r = l \<and> cr_phase r = Running \<and> cr_send r \<and> cr_up r = []
          \<and> cr_recv r \<and> cr_down r = [] \<and> cr_reasm r = reassembler_default)"

lemma client_opens:
  assumes "udp_task s = UdpReady" and "udp_links s src = None" and "server_target s = Some target"
    and "length p \<le> UDP_READ_BUF"
  shows "\<exists>t. client_exec s (open_actions src l (next_crelay s) p) = Some t \<and> client_ready src l (next_crelay s) t
    \<and> c_commands t = c_commands s @ map (Pair (next_crelay s)) (map (SendToLink l) (frame p)) \<and> udp_out t = udp_out s"
  using assms
  by (simp add: open_actions_def udp_recv_def udp_packet_def Let_def with_crelay_def new_crelay_def c_establish_def
      c_identify_def c_register_def c_attach_def udp_links_free_def set_crelay_def issue_frame client_ready_def)

lemma client_sends:
  assumes "client_ready src l rid s" and "\<forall>d\<in>set ds. d \<noteq> [] \<and> length d \<le> UDP_READ_BUF"
  shows "\<exists>t. client_exec s (packet_actions src rid ds) = Some t \<and> client_ready src l rid t
    \<and> c_commands t = c_commands s @ map (Pair rid) (map (SendToLink l) (concat (map frame ds))) \<and> udp_out t = udp_out s"
  using assms
proof (induction ds arbitrary: s)
  case (Cons d ds)
  have "\<exists>t. client_exec s [UdpRecv (Some (src, d)), SendTask rid (length (frame d))] = Some t \<and> client_ready src l rid t
      \<and> c_commands t = c_commands s @ map (Pair rid) (map (SendToLink l) (frame d)) \<and> udp_out t = udp_out s"
    using Cons.prems
    by (auto simp: client_ready_def udp_recv_def udp_packet_def udp_send_def Let_def with_crelay_def send_task_def
        set_crelay_def issue_frame RELAY_QUEUE_def)
  then obtain t where t: "client_exec s [UdpRecv (Some (src, d)), SendTask rid (length (frame d))] = Some t"
    "client_ready src l rid t" "c_commands t = c_commands s @ map (Pair rid) (map (SendToLink l) (frame d))" "udp_out t = udp_out s"
    by blast
  obtain u where u: "client_exec t (packet_actions src rid ds) = Some u" "client_ready src l rid u"
    "c_commands u = c_commands t @ map (Pair rid) (map (SendToLink l) (concat (map frame ds)))" "udp_out u = udp_out t"
    using Cons.IH [OF t(2)] Cons.prems(2) by auto
  have split: "packet_actions src rid (d # ds) =
      [UdpRecv (Some (src, d)), SendTask rid (length (frame d))] @ packet_actions src rid ds"
    by (simp add: packet_actions_def)
  have "client_exec s (packet_actions src rid (d # ds)) = Some u"
    unfolding split client_exec_append t(1) using u(1) by simp
  then show ?case using u(2-4) t(3,4) by simp
qed (simp add: packet_actions_def)


subsection \<open>Both together\<close>

text \<open>
  Fact: when a new source sends packets to a client that knows its server, and every call
  succeeds, the client opens a link and issues, and the server, given these payloads on the link,
  hands exactly these packets to the Sven Co-op server, in order.  (An empty packet after the
  first would end the relay.)
\<close>

theorem packets_arrive:
  assumes "udp_task c = UdpReady" and "udp_links c src = None" and "server_target c = Some target"
    and "router s = RouterIdle" and "senders s l = None"
    and "length p \<le> UDP_READ_BUF" and "\<forall>d\<in>set ds. d \<noteq> [] \<and> length d \<le> UDP_READ_BUF"
  shows "\<exists>c' s' cmds.
     client_exec c (open_actions src l (next_crelay c) p @ packet_actions src (next_crelay c) ds) = Some c'
     \<and> c_commands c' = c_commands c @ map (Pair (next_crelay c)) cmds
     \<and> server_exec s (accept_actions l (next_relay s) @ chunk_actions l (next_relay s) (payloads cmds)) = Some s'
     \<and> sc_sent s' = sc_sent s @ map (Pair (next_relay s)) (p # ds)"
proof -
  let ?cmds = "map (SendToLink l) (concat (map frame (p # ds)))"
  obtain t where t: "client_exec c (open_actions src l (next_crelay c) p) = Some t" "client_ready src l (next_crelay c) t"
    "c_commands t = c_commands c @ map (Pair (next_crelay c)) (map (SendToLink l) (frame p))"
    using client_opens [OF assms(1-3,6)] by blast
  obtain c' where c: "client_exec t (packet_actions src (next_crelay c) ds) = Some c'"
    "c_commands c' = c_commands t @ map (Pair (next_crelay c)) (map (SendToLink l) (concat (map frame ds)))"
    using client_sends [OF t(2) assms(7)] by blast
  obtain u where u: "server_exec s (accept_actions l (next_relay s)) = Some u" "relay_ready l (next_relay s) u"
    "sc_sent u = sc_sent s"
    using server_accepts [OF assms(4,5)] by blast
  have "\<forall>d\<in>set (p # ds). length d \<le> 65535" using assms(6,7) by (auto simp: UDP_READ_BUF_def)
  from server_takes_datagrams [OF u(2) this] obtain s' where
    s: "server_exec u (chunk_actions l (next_relay s) (concat (map frame (p # ds)))) = Some s'"
    "sc_sent s' = sc_sent u @ map (Pair (next_relay s)) (p # ds)"
    by blast
  have "client_exec c (open_actions src l (next_crelay c) p @ packet_actions src (next_crelay c) ds) = Some c'"
    by (simp only: client_exec_append t(1) bind.bind_lunit c(1))
  moreover have "c_commands c' = c_commands c @ map (Pair (next_crelay c)) ?cmds" by (simp add: c(2) t(3))
  moreover have "server_exec s (accept_actions l (next_relay s) @ chunk_actions l (next_relay s) (payloads ?cmds)) = Some s'"
    by (simp only: server_exec_append u(1) bind.bind_lunit payloads_sends s(1))
  ultimately show ?thesis using s(2) u(3) by metis
qed

theorem packets_arrive_witness:
  "\<exists>s' cmds. server_exec server_init
       (accept_actions client_demo_link 0 @ chunk_actions client_demo_link 0 (payloads cmds)) = Some s'
     \<and> sc_sent s' = [(0, replicate 4000 7), (0, [1]), (0, [2])]"
proof -
  let ?c = "client_init (Some [1])" and ?p = "replicate 4000 7 :: bytes" and ?ds = "[[1], [2]] :: bytes list"
  have c: "udp_task ?c = UdpReady" "udp_links ?c (1, 2) = None" "server_target ?c = Some [1]"
    by (simp_all add: client_init_def)
  have s: "router server_init = RouterIdle" "senders server_init client_demo_link = None" by (simp_all add: server_init_def)
  have next_0: "next_relay server_init = 0" "sc_sent server_init = []" by (simp_all add: server_init_def)
  have short: "length ?p \<le> UDP_READ_BUF" "\<forall>d\<in>set ?ds. d \<noteq> [] \<and> length d \<le> UDP_READ_BUF"
    by (simp_all add: UDP_READ_BUF_def)
  obtain s' cmds where "server_exec server_init
      (accept_actions client_demo_link 0 @ chunk_actions client_demo_link 0 (payloads cmds)) = Some s'"
    "sc_sent s' = map (Pair 0) (?p # ?ds)"
    using packets_arrive [OF c s short] unfolding next_0 by auto
  then show ?thesis by auto
qed

end
