(* ===== verification/Conversation.thy ===== *)
theory Conversation
  imports Bridge_World Uplink_Progress
begin

text \<open>
  That the whole system works: a run in which every call succeeds and the engine delivers what it
  is given carries a player's packets to the Sven Co-op server and the replies back.
\<close>

subsection \<open>The way back, node by node\<close>

definition reply_actions :: "nat \<Rightarrow> bytes list \<Rightarrow> server_action list" where
  "reply_actions j rs = map (\<lambda>d. FromSc j (UdpOk d) (length (frame d))) rs"

lemma server_replies:
  assumes "relay_ready l j s" and "\<forall>d\<in>set rs. d \<noteq> [] \<and> length d \<le> UDP_READ_BUF"
  shows "\<exists>t. server_exec s (reply_actions j rs) = Some t \<and> relay_ready l j t \<and> sc_sent t = sc_sent s
    \<and> commands t = commands s @ map (SendToLink l) (concat (map frame rs))"
  using assms
proof (induction rs arbitrary: s)
  case (Cons d rs)
  let ?t = "s\<lparr>commands := commands s @ map (SendToLink l) (frame d)\<rparr>"
  have step: "server_step s (FromSc j (UdpOk d) (length (frame d))) = Some ?t"
    using Cons.prems by (auto simp: relay_ready_def with_relay_def from_sc_def Let_def issue_frame)
  have "relay_ready l j ?t" using Cons.prems(1) by (auto simp: relay_ready_def)
  then obtain u where "server_exec ?t (reply_actions j rs) = Some u" "relay_ready l j u" "sc_sent u = sc_sent ?t"
    "commands u = commands ?t @ map (SendToLink l) (concat (map frame rs))"
    using Cons.IH [of ?t] Cons.prems(2) by auto
  then show ?case using step by (simp add: reply_actions_def)
qed (simp add: reply_actions_def)

definition take_actions :: "link_id \<Rightarrow> nat \<Rightarrow> bytes list \<Rightarrow> client_action list" where
  "take_actions l i cs = concat (map (\<lambda>c. [CRoute 0 (LinkData l c), RecvTask i True]) cs)"

lemma client_pumps:
  assumes "link_data_map s l = Some i" and "crelays s i = Some r" and "cr_phase r = Running" and "cr_recv r" and "cr_down r = []"
    and "push_all (cr_reasm r) cs = (reasm, ds)"
  shows "\<exists>t. client_exec s (take_actions l i cs) = Some t \<and> udp_out t = udp_out s @ map (Pair i) ds"
  using assms
proof (induction cs arbitrary: s r ds)
  case Nil
  then show ?case by (simp add: take_actions_def)
next
  case (Cons c cs)
  obtain q out where q: "push (cr_reasm r) c = (q, out)" by fastforce
  obtain ds' where ds: "push_all q cs = (reasm, ds')" "ds = (case out of None \<Rightarrow> ds' | Some d \<Rightarrow> d # ds')"
    using Cons.prems(6) q by (auto split: prod.splits)
  let ?r = "r\<lparr>cr_down := [], cr_reasm := q\<rparr>"
  have "\<exists>t. client_exec s [CRoute 0 (LinkData l c), RecvTask i True] = Some t \<and> link_data_map t l = Some i
      \<and> crelays t i = Some ?r \<and> udp_out t = udp_out s @ map (Pair i) (case out of None \<Rightarrow> [] | Some d \<Rightarrow> [d])"
    using Cons.prems q by (cases out) (auto simp: client_route_def with_crelay_def recv_task_def Let_def RELAY_QUEUE_def)
  then obtain t where t: "client_exec s [CRoute 0 (LinkData l c), RecvTask i True] = Some t" "link_data_map t l = Some i"
    "crelays t i = Some ?r" "udp_out t = udp_out s @ map (Pair i) (case out of None \<Rightarrow> [] | Some d \<Rightarrow> [d])"
    by blast
  obtain u where u: "client_exec t (take_actions l i cs) = Some u" "udp_out u = udp_out t @ map (Pair i) ds'"
    using Cons.IH [of t ?r ds'] t Cons.prems ds(1) by auto
  have "take_actions l i (c # cs) = [CRoute 0 (LinkData l c), RecvTask i True] @ take_actions l i cs"
    by (simp add: take_actions_def)
  then have "client_exec s (take_actions l i (c # cs)) = Some u"
    by (simp only: client_exec_append t(1) bind.bind_lunit u(1))
  then show ?case using u t(4) ds(2) by (auto split: option.split)
qed

lemma client_takes_datagrams:
  assumes "client_ready src l i s" and "\<forall>d\<in>set ds. length d \<le> 65535"
  shows "\<exists>t. client_exec s (take_actions l i (concat (map frame ds))) = Some t \<and> udp_out t = udp_out s @ map (Pair i) ds"
proof -
  have run: "push_all reassembler_default (concat (map frame ds)) = (reassembler_default, ds)"
    using framing.run_stream [of ds] assms(2) by blast
  show ?thesis using assms(1) client_pumps [of s l i _ "concat (map frame ds)"] run by (auto simp: client_ready_def)
qed

subsection \<open>Runs of one node as runs of the system\<close>

lemma put_commands_append: "put_commands ys (put_commands xs k) = put_commands (xs @ ys) k"
  by (simp add: put_commands_def channel_put_def fun_eq_iff)

lemma put_commands_Nil [simp]: "put_commands [] k = k"
  by (simp add: put_commands_def)

lemma commands_grow:
  "client_step s a = Some t \<Longrightarrow> \<exists>new. c_commands t = c_commands s @ new"
  "client_exec s as = Some u \<Longrightarrow> \<exists>new. c_commands u = c_commands s @ new"
proof -
  show one: "client_step s a = Some t \<Longrightarrow> \<exists>new. c_commands t = c_commands s @ new" for s a t
    using client_step_issues unfolding issues_for_one_def by blast
  show "client_exec s as = Some u \<Longrightarrow> \<exists>new. c_commands u = c_commands s @ new"
    by (induction as arbitrary: s) (force split: option.splits dest: one)+
qed

lemma server_commands_grow: "server_exec s as = Some u \<Longrightarrow> \<exists>new. commands u = commands s @ new"
  by (induction as arbitrary: s) (force split: option.splits dest: server_step_commands)+

lemma world_client_exec:
  assumes "client_exec (machines w n) as = Some t"
    and "\<forall>a\<in>set as. \<not> is_client_arrival a \<and> link_of a = None"
  shows "world_exec w (map (AtClient n) as) = Some (w\<lparr>machines := (machines w)(n := t),
    up := put_commands (map snd (drop (length (c_commands (machines w n))) (c_commands t))) (up w)\<rparr>)"
  using assms
proof (induction as arbitrary: w)
  case (Cons a as)
  then obtain s where s: "client_step (machines w n) a = Some s" "client_exec s as = Some t"
    by (auto split: option.splits)
  let ?v = "w\<lparr>machines := (machines w)(n := s),
    up := put_commands (map snd (drop (length (c_commands (machines w n))) (c_commands s))) (up w)\<rparr>"
  have step: "world_step w (AtClient n a) = Some ?v"
    using s(1) Cons.prems(2) by (simp add: client_may_def new_owner_def)
  obtain x y where "c_commands s = c_commands (machines w n) @ x" "c_commands t = c_commands s @ y"
    using commands_grow s by metis
  then show ?case using Cons.IH [of ?v] s(2) Cons.prems(2) step
    by (simp add: put_commands_append fun_upd_same del: world_step.simps fun_upd_apply)
qed (simp add: fun_upd_idem)

lemma world_establish:
  assumes "client_step (machines w n) (Establish i (Some l)) = Some t" and "owner w l = None" and "clients_ok w"
  shows "world_step w (AtClient n (Establish i (Some l))) = Some (w\<lparr>machines := (machines w)(n := t), owner := (owner w)(l \<mapsto> (n, i))\<rparr>)"
proof -
  have "c_commands t = c_commands (machines w n)"
    using establish_unlinked [OF assms(1) clients_inv [OF assms(3)]] by metis
  then show ?thesis using assms(1,2) by (simp add: client_may_def new_owner_def)
qed

lemma world_server_step:
  assumes "server_step (host w) a = Some t" and "server_may a w"
  shows "world_step w (AtServer a) = Some (w\<lparr>host := t, met := met w @ met_by a,
    down := put_commands (drop (length (commands (host w))) (commands t)) (down w), host_trace := host_trace w @ [a]\<rparr>)"
  using assms by (simp add: server_does_def)

fun is_server_local :: "server_action \<Rightarrow> bool" where
  "is_server_local (Route _ _) = False"
| "is_server_local _ = True"

lemma server_local: "is_server_local a \<Longrightarrow> server_may a w \<and> met_by a = []"
  by (cases a) simp_all

lemma world_server_exec:
  assumes "server_exec (host w) as = Some t" and "\<forall>a\<in>set as. is_server_local a"
  shows "world_exec w (map AtServer as) = Some (w\<lparr>host := t,
    down := put_commands (drop (length (commands (host w))) (commands t)) (down w), host_trace := host_trace w @ as\<rparr>)"
  using assms
proof (induction as arbitrary: w)
  case (Cons a as)
  then obtain s where s: "server_step (host w) a = Some s" "server_exec s as = Some t"
    by (auto split: option.splits)
  obtain x y where "commands s = commands (host w) @ x" "commands t = commands s @ y"
    using server_step_commands s(1) server_commands_grow [OF s(2)] by metis
  then show ?case
    using world_server_step [OF s(1)] server_local [of a w] Cons.IH s(2) Cons.prems(2) by (simp add: put_commands_append)
qed simp

subsection \<open>Delivery\<close>

definition up_events :: "link_id \<Rightarrow> nat \<Rightarrow> bytes list \<Rightarrow> world_event list" where
  "up_events l j cs = concat (map (\<lambda>c. [UpArrives 0 l, AtServer (ToSc j True)]) cs)"

definition down_events :: "nat \<Rightarrow> link_id \<Rightarrow> nat \<Rightarrow> bytes list \<Rightarrow> world_event list" where
  "down_events n l i cs = concat (map (\<lambda>c. [DownArrives 0 l, AtClient n (RecvTask i True)]) cs)"

lemma quiet_commands:
  "server_step s (Route now ev) = Some t \<Longrightarrow> commands t = commands s"
  "server_step s (ToSc j ok) = Some t \<Longrightarrow> commands t = commands s"
  by (auto simp: router_commands with_relay_eq to_sc_def set_relay_def split: if_splits list.splits prod.splits option.splits)

lemma world_up:
  assumes "server_exec (host w) (chunk_actions l j cs) = Some t" and "flight (up w l) = cs @ rest"
  shows "\<exists>v. world_exec w (up_events l j cs) = Some v \<and> host v = t \<and> machines v = machines w \<and> owner v = owner w
    \<and> met v = met w \<and> down v = down w"
  using assms
proof (induction cs arbitrary: w)
  case Nil
  then show ?case by (simp add: up_events_def chunk_actions_def)
next
  case (Cons c cs)
  obtain s u where s: "server_step (host w) (Route 0 (LinkData l c)) = Some s" "server_step s (ToSc j True) = Some u"
    "server_exec u (chunk_actions l j cs) = Some t"
    using Cons.prems(1) by (auto simp: chunk_actions_def split: option.splits simp del: server_step.simps)
  let ?k = "channel_take (accepted s \<noteq> accepted (host w)) (up w l)"
  let ?w1 = "w\<lparr>host := s, host_trace := host_trace w @ [Route 0 (LinkData l c)], up := (up w)(l := ?k)\<rparr>"
  let ?w2 = "?w1\<lparr>host := u, host_trace := host_trace ?w1 @ [ToSc j True]\<rparr>"
  have "world_step w (UpArrives 0 l) = Some ?w1"
    using Cons.prems(2) s(1) quiet_commands(1) [OF s(1)] by (simp add: server_does_def del: server_step.simps)
  moreover have "world_step ?w1 (AtServer (ToSc j True)) = Some ?w2"
    using s(2) quiet_commands(2) [OF s(2)] by (simp add: server_does_def del: server_step.simps)
  moreover obtain v where "world_exec ?w2 (up_events l j cs) = Some v" "host v = t" "machines v = machines w" "owner v = owner w"
    "met v = met w" "down v = down w"
    using Cons.IH [of ?w2] s(3) Cons.prems(2) by auto
  ultimately show ?case by (simp add: up_events_def del: world_step.simps)
qed

lemma recv_task_commands: "client_step s (RecvTask i ok) = Some t \<Longrightarrow> c_commands t = c_commands s"
  using relay_silent(5) by (auto simp: with_crelay_eq)

lemma world_down:
  assumes "client_exec (machines w n) (take_actions l i cs) = Some t" and "flight (down w l) = cs @ rest" and "owner w l = Some (n, i)"
  shows "\<exists>v. world_exec w (down_events n l i cs) = Some v \<and> machines v = (machines w)(n := t) \<and> host v = host w \<and> owner v = owner w"
  using assms
proof (induction cs arbitrary: w)
  case Nil
  then show ?case by (auto simp: down_events_def take_actions_def)
next
  case (Cons c cs)
  define s where "s = client_route 0 (LinkData l c) (machines w n)"
  obtain u where u: "client_step s (RecvTask i True) = Some u" "client_exec u (take_actions l i cs) = Some t"
    using Cons.prems(1) by (auto simp: take_actions_def s_def split: option.splits)
  let ?k = "channel_take (taken_down s \<noteq> taken_down (machines w n)) (down w l)"
  let ?w1 = "w\<lparr>machines := (machines w)(n := s), down := (down w)(l := ?k)\<rparr>"
  let ?w2 = "?w1\<lparr>machines := (machines w)(n := u)\<rparr>"
  have "world_step w (DownArrives 0 l) = Some ?w1"
    using Cons.prems(2,3) by (simp add: s_def Let_def)
  moreover have "world_step ?w1 (AtClient n (RecvTask i True)) = Some ?w2"
    using u(1) recv_task_commands [OF u(1)] by (simp add: client_may_def new_owner_def del: client_step.simps)
  moreover obtain v where "world_exec ?w2 (down_events n l i cs) = Some v" "machines v = (machines ?w2)(n := t)" "host v = host w"
    "owner v = owner w"
    using Cons.IH [of ?w2] u(2) Cons.prems(2,3) by (auto simp: fun_upd_same simp del: fun_upd_apply)
  ultimately show ?case by (simp add: down_events_def del: world_step.simps fun_upd_apply)
qed

subsection \<open>A link nobody has used\<close>

lemma server_run_serves:
  "server_run s as t \<Longrightarrow> server_inv s \<Longrightarrow> (sends_to l (commands s) \<noteq> [] \<longrightarrow> (\<exists>j q. relays s j = Some q \<and> r_link q = l)) \<Longrightarrow>
   sends_to l (commands t) \<noteq> [] \<Longrightarrow> \<exists>j q. relays t j = Some q \<and> r_link q = l"
proof (induction rule: server_run.induct)
  case (run_Cons s a t as u)
  have "\<exists>j q. relays t j = Some q \<and> r_link q = l" if "sends_to l (commands t) \<noteq> []"
  proof -
    have "sends_to l (commands s) \<noteq> [] \<or> issued l s a \<noteq> []" using that server_step_sends [OF run_Cons.hyps(1), of l] by auto
    then have "\<exists>j q. relays s j = Some q \<and> r_link q = l"
      using run_Cons.prems(2) by (cases "(l, s, a)" rule: issued.cases) (auto split: option.splits if_splits)
    then show ?thesis using server_step_links [OF run_Cons.hyps(1) run_Cons.prems(1)] unfolding same_links_def by metis
  qed
  then show ?case using run_Cons.IH run_Cons.prems(3) server_step_inv [OF run_Cons.hyps(1) run_Cons.prems(1)] by blast
qed blast

lemma unused_link:
  assumes "world_ok w" and "owner w l = None"
  shows "l \<notin> set (met w)" and "senders (host w) l = None" and "flight (up w l) = []" and "flight (down w l) = []"
proof -
  have ok: "clients_ok w" "host_ok w" "up_ok l w" "down_ok l w" using assms(1) by (simp_all add: world_ok_def)
  show met: "l \<notin> set (met w)" using ok(2) assms(2) by (auto simp: host_ok_def)
  have none: "\<nexists>j q. relays (host w) j = Some q \<and> r_link q = l" using met ok(2) by (auto simp: host_ok_def)
  then show "senders (host w) l = None" using host_inv [OF ok(2)] unfolding server_inv_def by (metis not_None_eq)
  have empty: "flight k = []" if "channel_ok k" "put k = []" for k using that by (auto simp: channel_ok_def)
  show "flight (up w l) = []" using ok(3) assms(2) by (intro empty) (auto simp: up_ok_def owned_up_def)
  have "server_run server_init (host_trace w) (host w)" using ok(2) by (simp add: host_ok_def)
  moreover have "sends_to l (commands server_init) = []" by (simp add: server_init_def)
  ultimately have "sends_to l (commands (host w)) = []" using server_run_serves [OF _ server_inv_init] none by metis
  then show "flight (down w l) = []" using ok(4) by (intro empty) (auto simp: down_ok_def)
qed

subsection \<open>Packets there and replies back\<close>

definition conversation :: "nat \<Rightarrow> socket_addr \<Rightarrow> link_id \<Rightarrow> nat \<Rightarrow> nat \<Rightarrow> bytes list \<Rightarrow> bytes list \<Rightarrow> world_event list" where
  "conversation n src l i j ps rs =
     map (AtClient n) (open_actions src l i (hd ps) @ packet_actions src i (tl ps))
     @ map AtServer (accept_actions l j) @ up_events l j (concat (map frame ps))
     @ map AtServer (reply_actions j rs) @ down_events n l i (concat (map frame rs))"

lemma packet_actions_plain: "\<forall>a\<in>set (packet_actions src i ds). \<not> is_client_arrival a \<and> link_of a = None"
  by (auto simp: packet_actions_def)

text \<open>The client opens its link and sends.\<close>

lemma world_sends:
  assumes "clients_ok w" and "owner w l = None" and "udp_task (machines w n) = UdpReady" and "udp_links (machines w n) src = None"
    and "server_target (machines w n) = Some target"
    and "length p \<le> UDP_READ_BUF" and "\<forall>d\<in>set ds. d \<noteq> [] \<and> length d \<le> UDP_READ_BUF" and "i = next_crelay (machines w n)"
  shows "\<exists>v t. world_exec w (map (AtClient n) (open_actions src l i p @ packet_actions src i ds)) = Some v
    \<and> client_ready src l i t \<and> machines v = (machines w)(n := t) \<and> udp_out t = udp_out (machines w n) \<and> host v = host w \<and> met v = met w
    \<and> owner v = (owner w)(l \<mapsto> (n, i)) \<and> down v = down w \<and> flight (up v l) = flight (up w l) @ concat (map frame (p # ds))"
proof -
  let ?s = "machines w n"
  obtain t where t: "client_exec ?s (open_actions src l i p) = Some t" "client_ready src l i t"
    "c_commands t = c_commands ?s @ map (Pair i) (map (SendToLink l) (frame p))" "udp_out t = udp_out ?s"
    using client_opens [OF assms(3-6)] assms(8) by blast
  obtain u where u: "client_exec t (packet_actions src i ds) = Some u" "client_ready src l i u"
    "c_commands u = c_commands t @ map (Pair i) (map (SendToLink l) (concat (map frame ds)))" "udp_out u = udp_out t"
    using client_sends [OF t(2) assms(7)] by blast
  let ?rest = "[Identify i True, Register i (length (frame p)), Attach i]"
  obtain a b where ab: "client_step ?s (UdpRecv (Some (src, p))) = Some a" "client_step a (Establish i (Some l)) = Some b"
    "client_exec b ?rest = Some t"
    using t(1) unfolding open_actions_def by (auto split: option.splits simp del: client_step.simps)
  have silent: "c_commands a = c_commands ?s" "c_commands b = c_commands a"
    using ab(1,2) relay_silent(1,7) by (auto simp: with_crelay_eq)
  let ?w1 = "w\<lparr>machines := (machines w)(n := a)\<rparr>"
  let ?w2 = "w\<lparr>machines := (machines w)(n := b), owner := (owner w)(l \<mapsto> (n, i))\<rparr>"
  have w1: "world_exec w [AtClient n (UdpRecv (Some (src, p)))] = Some ?w1"
    using world_client_exec [of w n "[UdpRecv (Some (src, p))]" a] ab(1) silent(1) by (simp del: client_step.simps)
  have "clients_ok ?w1" by (rule clients_ok_step [OF assms(1) ab(1)]) (simp_all add: new_owner_def)
  then have w2: "world_step ?w1 (AtClient n (Establish i (Some l))) = Some ?w2"
    using world_establish [of ?w1 n i l b] ab(2) assms(2) by (simp del: client_step.simps world_step.simps)
  have plain: "\<forall>a\<in>set (?rest @ packet_actions src i ds). \<not> is_client_arrival a \<and> link_of a = None"
    using packet_actions_plain by auto
  have "client_exec b (?rest @ packet_actions src i ds) = Some u"
    by (simp only: client_exec_append ab(3) bind.bind_lunit u(1))
  then have run: "client_exec (machines ?w2 n) (?rest @ packet_actions src i ds) = Some u" by (simp del: client_exec.simps)
  let ?v = "?w2\<lparr>machines := (machines w)(n := u),
    up := put_commands (map (SendToLink l) (concat (map frame (p # ds)))) (up w)\<rparr>"
  have w3: "world_exec ?w2 (map (AtClient n) (?rest @ packet_actions src i ds)) = Some ?v"
    using world_client_exec [OF run plain] t(3) u(3) silent by (simp add: comp_def)
  have "map (AtClient n) (open_actions src l i p @ packet_actions src i ds)
      = [AtClient n (UdpRecv (Some (src, p)))] @ [AtClient n (Establish i (Some l))] @ map (AtClient n) (?rest @ packet_actions src i ds)"
    by (simp add: open_actions_def)
  then have "world_exec w (map (AtClient n) (open_actions src l i p @ packet_actions src i ds)) = Some ?v"
    using w1 w2 w3 by (simp only: world_exec_append bind.bind_lunit world_exec.simps option.case)
  then show ?thesis using u(2,4) t(4)
    by (intro exI [of _ ?v] exI [of _ u]) (simp add: put_commands_def)
qed

text \<open>The server accepts the link.\<close>

lemma world_accepts:
  assumes "router (host w) = RouterIdle" and "senders (host w) l = None" and "owner w l \<noteq> None" and "l \<notin> set (met w)"
    and "j = next_relay (host w)"
  shows "\<exists>v. world_exec w (map AtServer (accept_actions l j)) = Some v \<and> relay_ready l j (host v)
    \<and> sc_sent (host v) = sc_sent (host w) \<and> machines v = machines w \<and> owner v = owner w \<and> up v = up w \<and> down v = down w"
proof -
  obtain t where t: "server_exec (host w) (accept_actions l j) = Some t" "relay_ready l j t" "sc_sent t = sc_sent (host w)"
    using server_accepts [OF assms(1,2)] assms(5) by blast
  obtain s where s: "server_step (host w) (Route 0 (LinkEstablished l)) = Some s"
    "server_exec s [RelayBind j True, RelayConnect j True] = Some t"
    using t(1) by (auto simp: accept_actions_def split: option.splits simp del: server_step.simps)
  let ?w1 = "w\<lparr>host := s, met := met w @ [l], host_trace := host_trace w @ [Route 0 (LinkEstablished l)]\<rparr>"
  have w1: "world_step w (AtServer (Route 0 (LinkEstablished l))) = Some ?w1"
    using world_server_step [OF s(1)] assms(3,4) quiet_commands(1) [OF s(1)] by (simp del: server_step.simps world_step.simps)
  have "commands t = commands s"
    using s(2) by (auto simp: with_relay_eq relay_bind_def relay_connect_def set_relay_def split: option.splits if_splits)
  then have "world_exec ?w1 (map AtServer [RelayBind j True, RelayConnect j True])
      = Some (?w1\<lparr>host := t, host_trace := host_trace ?w1 @ [RelayBind j True, RelayConnect j True]\<rparr>)"
    using world_server_exec [of ?w1 "[RelayBind j True, RelayConnect j True]" t] s(2) by (simp del: server_step.simps world_step.simps)
  then show ?thesis using w1 t(2,3) by (simp add: accept_actions_def del: world_step.simps)
qed

lemma packets_short:
  fixes p :: bytes
  assumes "length p \<le> UDP_READ_BUF" and "\<forall>d\<in>set ds. d \<noteq> [] \<and> length d \<le> UDP_READ_BUF"
  shows "\<forall>d\<in>set (p # ds). length d \<le> 65535"
proof -
  have "length d \<le> UDP_READ_BUF \<Longrightarrow> length d \<le> 65535" for d :: bytes by (simp add: UDP_READ_BUF_def)
  then show ?thesis using assms by auto
qed

text \<open>The packets get there.\<close>

lemma world_uplink:
  assumes "world_ok w" and "owner w l = None" and "udp_task (machines w n) = UdpReady" and "udp_links (machines w n) src = None"
    and "server_target (machines w n) = Some target" and "router (host w) = RouterIdle"
    and "length p \<le> UDP_READ_BUF" and "\<forall>d\<in>set ds. d \<noteq> [] \<and> length d \<le> UDP_READ_BUF"
    and "i = next_crelay (machines w n)" and "j = next_relay (host w)"
  shows "\<exists>v t. world_exec w (map (AtClient n) (open_actions src l i p @ packet_actions src i ds)
       @ map AtServer (accept_actions l j) @ up_events l j (concat (map frame (p # ds)))) = Some v
     \<and> client_ready src l i t \<and> machines v = (machines w)(n := t) \<and> udp_out t = udp_out (machines w n) \<and> owner v l = Some (n, i)
     \<and> relay_ready l j (host v) \<and> sc_sent (host v) = sc_sent (host w) @ map (Pair j) (p # ds) \<and> flight (down v l) = []"
proof -
  have clients: "clients_ok w" using assms(1) by (simp add: world_ok_def)
  note unused = unused_link [OF assms(1,2)]
  obtain w1 t where w1: "world_exec w (map (AtClient n) (open_actions src l i p @ packet_actions src i ds)) = Some w1"
    "client_ready src l i t" "machines w1 = (machines w)(n := t)" "udp_out t = udp_out (machines w n)" "host w1 = host w" "met w1 = met w"
    "owner w1 = (owner w)(l \<mapsto> (n, i))" "down w1 = down w" "flight (up w1 l) = flight (up w l) @ concat (map frame (p # ds))"
    using world_sends [OF clients assms(2-5,7-9)] by blast
  have "router (host w1) = RouterIdle" "senders (host w1) l = None" "owner w1 l \<noteq> None" "l \<notin> set (met w1)" "j = next_relay (host w1)"
    using assms(6,10) unused(1,2) by (simp_all add: w1)
  then obtain w2 where w2: "world_exec w1 (map AtServer (accept_actions l j)) = Some w2" "relay_ready l j (host w2)"
    "sc_sent (host w2) = sc_sent (host w1)" "machines w2 = machines w1" "owner w2 = owner w1" "up w2 = up w1" "down w2 = down w1"
    using world_accepts by blast
  obtain s where s: "server_exec (host w2) (chunk_actions l j (concat (map frame (p # ds)))) = Some s" "relay_ready l j s"
    "sc_sent s = sc_sent (host w2) @ map (Pair j) (p # ds)"
    using server_takes_datagrams [OF w2(2)] packets_short [OF assms(7,8)] by blast
  have "flight (up w2 l) = concat (map frame (p # ds)) @ []" using unused(3) by (simp add: w2(6) w1(9))
  then obtain v where v: "world_exec w2 (up_events l j (concat (map frame (p # ds)))) = Some v" "host v = s"
    "machines v = machines w2" "owner v = owner w2" "down v = down w2"
    using world_up [OF s(1)] by blast
  have "world_exec w (map (AtClient n) (open_actions src l i p @ packet_actions src i ds)
       @ map AtServer (accept_actions l j) @ up_events l j (concat (map frame (p # ds)))) = Some v"
    by (simp only: world_exec_append w1(1) w2(1) v(1) bind.bind_lunit)
  then show ?thesis
    using v w1 w2 s(2,3) unused(4) by (intro exI [of _ v] exI [of _ t] conjI) simp_all
qed

text \<open>The replies get back.\<close>

lemma world_downlink:
  assumes "client_ready src l i (machines w n)" and "relay_ready l j (host w)" and "owner w l = Some (n, i)" and "flight (down w l) = []"
    and "\<forall>d\<in>set rs. d \<noteq> [] \<and> length d \<le> UDP_READ_BUF"
  shows "\<exists>v. world_exec w (map AtServer (reply_actions j rs) @ down_events n l i (concat (map frame rs))) = Some v
     \<and> owner v = owner w \<and> sc_sent (host v) = sc_sent (host w) \<and> udp_out (machines v n) = udp_out (machines w n) @ map (Pair i) rs"
proof -
  obtain u where u: "server_exec (host w) (reply_actions j rs) = Some u" "sc_sent u = sc_sent (host w)"
    "commands u = commands (host w) @ map (SendToLink l) (concat (map frame rs))"
    using server_replies [OF assms(2,5)] by blast
  have "\<forall>a\<in>set (reply_actions j rs). is_server_local a" by (auto simp: reply_actions_def)
  then obtain x where x: "world_exec w (map AtServer (reply_actions j rs)) = Some x" "host x = u" "machines x = machines w"
    "owner x = owner w" "down x = put_commands (map (SendToLink l) (concat (map frame rs))) (down w)"
    using world_server_exec [OF u(1)] u(3) by simp
  obtain t where t: "client_exec (machines x n) (take_actions l i (concat (map frame rs))) = Some t"
    "udp_out t = udp_out (machines w n) @ map (Pair i) rs"
    using client_takes_datagrams [OF assms(1), of rs] packets_short [of "[]" rs] assms(5) unfolding x(3) by auto
  have "flight (down x l) = concat (map frame rs) @ []" using assms(4) by (simp add: x(5) put_commands_def)
  then obtain v where "world_exec x (down_events n l i (concat (map frame rs))) = Some v" "machines v = (machines x)(n := t)"
    "host v = host x" "owner v = owner x"
    using world_down [OF t(1)] assms(3) x(4) by metis
  then show ?thesis using x t(2) u(2) by (simp add: world_exec_append)
qed

text \<open>
  C3: in every reachable state in which the listener of a machine is ready, its target is known,
  a source has no link yet and the server's router is idle, the run in which every call succeeds and
  the engine delivers takes the packets of the source to the Sven Co-op server and the replies of
  it back to the source: exactly these, in order.  The packets fit the read buffer of 8192 bytes,
  and so do the replies; all are non-empty but perhaps the first packet (an empty one
  later would end the relay, and an empty reply is not passed on).
\<close>

theorem conversation_succeeds:
  assumes "world_run (world_init targets) es w" and "owner w l = None"
    and "udp_task (machines w n) = UdpReady" and "udp_links (machines w n) src = None"
    and "server_target (machines w n) = Some target" and "router (host w) = RouterIdle"
    and "ps \<noteq> []" and "length (hd ps) \<le> UDP_READ_BUF" and "\<forall>d\<in>set (tl ps) \<union> set rs. d \<noteq> [] \<and> length d \<le> UDP_READ_BUF"
    and "i = next_crelay (machines w n)" and "j = next_relay (host w)"
  shows "\<exists>v. world_exec w (conversation n src l i j ps rs) = Some v
     \<and> owner v l = Some (n, i)
     \<and> sc_sent (host v) = sc_sent (host w) @ map (Pair j) ps
     \<and> udp_out (machines v n) = udp_out (machines w n) @ map (Pair i) rs"
proof -
  have ok: "world_ok w" using world_run_ok [OF assms(1) world_ok_init] .
  obtain p ds where ps: "ps = p # ds" using assms(7) by (cases ps) auto
  have data: "length p \<le> UDP_READ_BUF" "\<forall>d\<in>set ds. d \<noteq> [] \<and> length d \<le> UDP_READ_BUF"
    "\<forall>d\<in>set rs. d \<noteq> [] \<and> length d \<le> UDP_READ_BUF"
    using assms(8,9) by (auto simp: ps)
  obtain x t where x: "world_exec w (map (AtClient n) (open_actions src l i p @ packet_actions src i ds)
       @ map AtServer (accept_actions l j) @ up_events l j (concat (map frame ps))) = Some x"
    "client_ready src l i t" "machines x = (machines w)(n := t)" "udp_out t = udp_out (machines w n)" "owner x l = Some (n, i)"
    "relay_ready l j (host x)" "sc_sent (host x) = sc_sent (host w) @ map (Pair j) ps" "flight (down x l) = []"
    using world_uplink [OF ok assms(2-6) data(1,2) assms(10,11)] unfolding ps by blast
  have "client_ready src l i (machines x n)" using x(2,3) by simp
  then obtain v where v: "world_exec x (map AtServer (reply_actions j rs) @ down_events n l i (concat (map frame rs))) = Some v"
    "owner v = owner x" "sc_sent (host v) = sc_sent (host x)" "udp_out (machines v n) = udp_out (machines x n) @ map (Pair i) rs"
    using world_downlink [OF _ x(6,5,8) data(3)] by blast
  have "conversation n src l i j ps rs = (map (AtClient n) (open_actions src l i p @ packet_actions src i ds)
       @ map AtServer (accept_actions l j) @ up_events l j (concat (map frame ps)))
     @ map AtServer (reply_actions j rs) @ down_events n l i (concat (map frame rs))"
    by (simp add: conversation_def ps)
  then have "world_exec w (conversation n src l i j ps rs) = Some v"
    using x(1) v(1) by (simp only: world_exec_append [of w] bind.bind_lunit)
  then show ?thesis using v x by simp
qed

theorem conversation_succeeds_witness:
  "\<exists>v. world_exec (world_init (\<lambda>n. Some [1]))
        (conversation 2 client_demo_src client_demo_link 0 0 [replicate 4000 7, [1]] [[65], replicate 3000 66]) = Some v
     \<and> sc_sent (host v) = [(0, replicate 4000 7), (0, [1])] \<and> udp_out (machines v 2) = [(0, [65]), (0, replicate 3000 66)]"
proof -
  let ?w = "world_init (\<lambda>n. Some [1])"
  have w: "world_run ?w [] ?w" "owner ?w client_demo_link = None" "udp_task (machines ?w 2) = UdpReady"
    "udp_links (machines ?w 2) client_demo_src = None" "server_target (machines ?w 2) = Some [1]" "router (host ?w) = RouterIdle"
    "next_crelay (machines ?w 2) = 0" "next_relay (host ?w) = 0" "sc_sent (host ?w) = []" "udp_out (machines ?w 2) = []"
    by (simp_all add: world_Nil world_init_def client_init_def server_init_def)
  have short: "length (hd [replicate 4000 7, [1]]) \<le> UDP_READ_BUF"
    "\<forall>d\<in>set (tl [replicate 4000 7, [1]]) \<union> set [[65], replicate 3000 66]. d \<noteq> [] \<and> length d \<le> UDP_READ_BUF"
    by (simp_all add: UDP_READ_BUF_def)
  show ?thesis using conversation_succeeds [OF w(1-6) _ short w(7,8) [symmetric]] unfolding w(9,10) by fastforce
qed

end
