(* ===== verification/Bridge_Session.thy ===== *)
theory Bridge_Session
  imports Server_Relay Client_Relay
begin

text \<open>
  The life of a bridge session (\<open>BridgeSession\<close> and \<open>spawn_bridge_node\<close> in
  \<open>src/relay.rs\<close>): what \<open>start_server\<close> and \<open>start_client\<close> set up and in which order they
  can fail, how the node thread hands the session over, and how it stops.

  The engine, the identity files and the sockets are outside the repository's own code;
  \<open>bridge_env\<close> holds their answers.  The identity file is read twice per start (once by
  the caller, once by the node thread), so its answer depends on the number of the call.
\<close>

record bridge_env =
  be_load_identity :: "nat \<Rightarrow> path \<Rightarrow> string + bytes"
  be_destination_hash :: "string \<Rightarrow> string \<Rightarrow> bytes \<Rightarrow> string + destination_hash"
  be_parse_addr :: "string \<Rightarrow> string + socket_addr"
  be_udp_bind :: "socket_addr \<Rightarrow> string + unit"
  be_hex_decode :: "string \<Rightarrow> string + bytes"
  be_thread_spawn :: "string + unit"
  be_build_runtime :: "string + unit"

definition load_identity :: "bridge_env \<Rightarrow> nat \<Rightarrow> path \<Rightarrow> bytes result" where
  "load_identity env n p = with_context (''loading identity at '' @ p) (be_load_identity env n p)"

text \<open>The hash of the node's own destination; the announced data does not enter it.\<close>

definition own_destination :: "bridge_env \<Rightarrow> nat \<Rightarrow> string \<Rightarrow> path \<Rightarrow> destination_hash result" where
  "own_destination env n aspect p =
     rbind (load_identity env n p) (\<lambda>identity.
       map_err (\<lambda>e. ''invalid destination name: '' @ e)
         (be_destination_hash env SC_APP_NAME aspect identity))"

subsection \<open>What the two sides set up\<close>

record server_setup =
  ss_hash :: destination_hash
  ss_registered_data :: bytes
  ss_sc_addr :: socket_addr
  ss_attached :: "attachment list"
  ss_announce_data :: bytes
  ss_period :: u64

definition build_server :: "bridge_env \<Rightarrow> server_args \<Rightarrow> server_setup result" where
  "build_server env args =
     rbind (own_destination env 1 SC_ASPECT_SERVER (sa_identity args)) (\<lambda>h.
     rbind (with_context (''invalid --sc-host/--sc-port: '' @ sc_addr_text args)
              (be_parse_addr env (sc_addr_text args))) (\<lambda>addr.
       Inr \<lparr>ss_hash = h, ss_registered_data = server_announce_name_bytes (sa_name args),
            ss_sc_addr = addr, ss_attached = fst (attach_interfaces (sa_tcp args) (sa_auto args)),
            ss_announce_data = server_announce_app_data (sa_name args),
            ss_period = announcer_period args\<rparr>))"

record client_setup =
  cs_identity :: bytes
  cs_listen :: socket_addr
  cs_target :: "destination_hash option"
  cs_attached :: "attachment list"
  cs_state :: client_state

text \<open>The target is parsed before the UDP port is bound.\<close>

definition build_client :: "bridge_env \<Rightarrow> client_args \<Rightarrow> client_setup result" where
  "build_client env args =
     rbind (load_identity env 1 (ca_identity args)) (\<lambda>identity.
     rbind (with_context (''invalid --listen-port: '' @ show_nat (unat (listen_port args)))
              (be_parse_addr env (listen_addr_text args))) (\<lambda>addr.
     rbind (case server_hash args of
              None \<Rightarrow> Inr None
            | Some hex \<Rightarrow> rbind (with_context ''invalid --server-hash''
                (parse_destination_hash (be_hex_decode env) hex)) (\<lambda>h. Inr (Some h))) (\<lambda>target.
     rbind (with_context (''binding UDP listener on '' @ listen_addr_text args) (be_udp_bind env addr)) (\<lambda>_.
       Inr \<lparr>cs_identity = identity, cs_listen = addr, cs_target = target,
            cs_attached = fst (attach_interfaces (ca_tcp args) (ca_auto args)),
            cs_state = client_init target\<rparr>))))"

subsection \<open>The node thread and the session\<close>

text \<open>
  Where the node thread is: in \<open>select!\<close>, before \<open>drop(rt)\<close>, before \<open>done_tx.send\<close>, at its end.
  Dropping the runtime releases every socket of the node.
\<close>

datatype node_thread = NodeRunning | TearingDown | RuntimeDropped | NodeDone

fun thread_rank :: "node_thread \<Rightarrow> nat" where
  "thread_rank NodeRunning = 0"
| "thread_rank TearingDown = 1"
| "thread_rank RuntimeDropped = 2"
| "thread_rank NodeDone = 3"

lemma thread_rank_inj: "thread_rank a = thread_rank b \<Longrightarrow> a = b"
  by (cases a; cases b) simp_all

text \<open>The order in which a node thread goes through its life.\<close>

instantiation node_thread :: linorder
begin

definition less_eq_node_thread :: "node_thread \<Rightarrow> node_thread \<Rightarrow> bool" where
  "less_eq_node_thread a b \<longleftrightarrow> thread_rank a \<le> thread_rank b"

definition less_node_thread :: "node_thread \<Rightarrow> node_thread \<Rightarrow> bool" where
  "less_node_thread a b \<longleftrightarrow> thread_rank a < thread_rank b"

instance
  by standard (auto simp: less_eq_node_thread_def less_node_thread_def dest: thread_rank_inj)

end

record bridge_session =
  bs_role :: bridge_role
  bs_own_hash :: "destination_hash option"
  bs_stop_tx :: bool
  bs_done :: bool
  bs_stop_signalled :: bool
  bs_thread :: node_thread
  bs_sockets_held :: bool
  bs_done_sent :: bool

text \<open>
  \<open>bs_stop_tx\<close> and \<open>bs_done\<close> say that the session still has its two channel ends, \<open>bs_stop_signalled\<close>
  and \<open>bs_done_sent\<close> what has been sent through the channels.
\<close>

text \<open>
  The error the caller gets is the one of the thread; a thread that dies before it reports
  (\<open>None\<close>) is an error too.
\<close>

definition spawn_bridge_node ::
  "bridge_env \<Rightarrow> bridge_role \<Rightarrow> destination_hash option \<Rightarrow> 'a result option \<Rightarrow>
   (bridge_session \<times> 'a) result" where
  "spawn_bridge_node env r own build =
     rbind (with_context ''failed to spawn bridge node thread'' (be_thread_spawn env)) (\<lambda>_.
     rbind (map_err (\<lambda>e. ''build runtime: '' @ e) (be_build_runtime env)) (\<lambda>_.
       case build of
         None \<Rightarrow> Inl ''bridge node thread died before starting''
       | Some res \<Rightarrow> rbind res (\<lambda>su.
           Inr (\<lparr>bs_role = r, bs_own_hash = own, bs_stop_tx = True, bs_done = True,
                 bs_stop_signalled = False, bs_thread = NodeRunning, bs_sockets_held = True, bs_done_sent = False\<rparr>,
                su))))"

definition start_server :: "bridge_env \<Rightarrow> server_args \<Rightarrow> (bridge_session \<times> server_setup) result" where
  "start_server env args =
     rbind (own_destination env 0 SC_ASPECT_SERVER (sa_identity args)) (\<lambda>precomputed_hash.
       spawn_bridge_node env Server (Some precomputed_hash) (Some (build_server env args)))"

definition start_client :: "bridge_env \<Rightarrow> client_args \<Rightarrow> (bridge_session \<times> client_setup) result" where
  "start_client env args =
     rbind (own_destination env 0 SC_ASPECT_CLIENT (ca_identity args)) (\<lambda>precomputed_hash.
       spawn_bridge_node env Client (Some precomputed_hash) (Some (build_client env args)))"

text \<open>
  \<open>stop\<close> is two actions: it sends the stop signal, then waits for \<open>done\<close>; each half is
  skipped when its channel end has been taken by an earlier call.
\<close>

definition stop_signal :: "bridge_session \<Rightarrow> bridge_session" where
  "stop_signal b =
     (if bs_stop_tx b then b\<lparr>bs_stop_tx := False, bs_stop_signalled := True\<rparr> else b)"

definition await_done :: "bridge_session \<Rightarrow> bridge_session option" where
  "await_done b =
     (if \<not> bs_done b then Some b
      else if bs_done_sent b then Some (b\<lparr>bs_done := False\<rparr>) else None)"

text \<open>
  The thread: \<open>select!\<close> ends with the node's run future or the stop signal, then the
  runtime is dropped and \<open>done\<close> is sent.
\<close>

definition thread_select :: "bool \<Rightarrow> bridge_session \<Rightarrow> bridge_session option" where
  "thread_select run_ended b =
     (if bs_thread b = NodeRunning \<and> (run_ended \<or> bs_stop_signalled b)
      then Some (b\<lparr>bs_thread := TearingDown\<rparr>) else None)"

definition thread_drop_runtime :: "bridge_session \<Rightarrow> bridge_session option" where
  "thread_drop_runtime b =
     (if bs_thread b = TearingDown
      then Some (b\<lparr>bs_thread := RuntimeDropped, bs_sockets_held := False\<rparr>) else None)"

definition thread_signal_done :: "bridge_session \<Rightarrow> bridge_session option" where
  "thread_signal_done b =
     (if bs_thread b = RuntimeDropped
      then Some (b\<lparr>bs_thread := NodeDone, bs_done_sent := True\<rparr>) else None)"

text \<open>Dropping the session closes the stop channel, which also ends \<open>select!\<close>.\<close>

definition drop_session :: "bridge_session \<Rightarrow> bridge_session" where
  "drop_session b = b\<lparr>bs_stop_tx := False, bs_done := False, bs_stop_signalled := True\<rparr>"

inductive session_step :: "bridge_session \<Rightarrow> bridge_session \<Rightarrow> bool" where
  step_select: "thread_select ended b = Some c \<Longrightarrow> session_step b c"
| step_drop: "thread_drop_runtime b = Some c \<Longrightarrow> session_step b c"
| step_signal: "thread_signal_done b = Some c \<Longrightarrow> session_step b c"

lemmas thread_defs = thread_select_def thread_drop_runtime_def thread_signal_done_def

inductive_cases session_stepE: "session_step b c"

inductive session_steps :: "bridge_session \<Rightarrow> bridge_session \<Rightarrow> bool" where
  steps_refl: "session_steps b b"
| steps_step: "session_step b c \<Longrightarrow> session_steps c d \<Longrightarrow> session_steps b d"

text \<open>One call of \<open>stop\<close>, with whatever the thread does between its halves.\<close>

definition stops :: "bridge_session \<Rightarrow> bridge_session \<Rightarrow> bool" where
  "stops b d \<longleftrightarrow> (\<exists>c. session_steps (stop_signal b) c \<and> await_done c = Some d)"

text \<open>\<open>await_completion\<close> keeps the stop sender and waits.\<close>

definition await_completion :: "bridge_session \<Rightarrow> bridge_session \<Rightarrow> bool" where
  "await_completion b d \<longleftrightarrow> (\<exists>c. session_steps b c \<and> await_done c = Some d)"

definition announce_now ::
  "(destination_hash \<Rightarrow> bytes \<Rightarrow> string + unit) \<Rightarrow> bridge_session \<Rightarrow> bytes \<Rightarrow> unit result" where
  "announce_now announce b app_data =
     rbind (ok_or ''this session has no destination to announce'' (bs_own_hash b)) (\<lambda>destination.
       map_err (\<lambda>e. ''announce failed: '' @ e) (announce destination app_data))"

text \<open>\<open>run_bridge\<close> up to the point where the session runs.\<close>

definition run_bridge :: "bridge_env \<Rightarrow> bridge_config \<Rightarrow> bridge_session result" where
  "run_bridge env cfg =
     (case cfg of
        ConfigServer args \<Rightarrow> rbind (start_server env args) (\<lambda>p. Inr (fst p))
      | ConfigClient args \<Rightarrow> rbind (start_client env args) (\<lambda>p. Inr (fst p)))"

subsection \<open>Stopping releases the sockets\<close>

definition session_inv :: "bridge_session \<Rightarrow> bool" where
  "session_inv b \<longleftrightarrow> (bs_sockets_held b \<longleftrightarrow> bs_thread b \<in> {NodeRunning, TearingDown})
     \<and> (bs_done_sent b \<longleftrightarrow> bs_thread b = NodeDone)
     \<and> (\<not> bs_done b \<longrightarrow> bs_stop_signalled b) \<and> (\<not> bs_stop_tx b \<longrightarrow> bs_stop_signalled b)"

lemma spawn_session_inv:
  "spawn_bridge_node env r own build = Inr (b, su) \<Longrightarrow>
   session_inv b \<and> bs_done b \<and> bs_stop_tx b \<and> bs_own_hash b = own \<and> bs_role b = r
   \<and> build = Some (Inr su)"
  by (auto simp: spawn_bridge_node_def rbind_eq_Inr session_inv_def split: option.splits)

lemma session_step_inv:
  "session_step b c \<Longrightarrow> session_inv b \<Longrightarrow>
   session_inv c \<and> bs_done c = bs_done b \<and> bs_stop_tx c = bs_stop_tx b
   \<and> bs_stop_signalled c = bs_stop_signalled b"
  by (auto simp: session_inv_def thread_defs elim!: session_stepE split: if_splits)

lemma session_steps_inv:
  "session_steps b c \<Longrightarrow> session_inv b \<Longrightarrow>
   session_inv c \<and> bs_done c = bs_done b \<and> bs_stop_tx c = bs_stop_tx b
   \<and> bs_stop_signalled c = bs_stop_signalled b"
  by (induction rule: session_steps.induct) (auto dest: session_step_inv)

text \<open>A node thread never goes back, and every step brings it forward: it takes at most three.\<close>

lemma session_step_forward: "session_step b c \<Longrightarrow> bs_thread b < bs_thread c"
  by (auto simp: less_node_thread_def thread_defs elim!: session_stepE split: if_splits)

lemma session_steps_forward: "session_steps b c \<Longrightarrow> bs_thread b \<le> bs_thread c"
  by (induction rule: session_steps.induct) (auto dest: session_step_forward)

lemma stop_signal_inv: "session_inv b \<Longrightarrow> session_inv (stop_signal b) \<and> bs_done (stop_signal b) = bs_done b"
  by (auto simp: session_inv_def stop_signal_def)

lemma stop_signal_signalled: "session_inv b \<Longrightarrow> bs_stop_signalled (stop_signal b)"
  by (auto simp: session_inv_def stop_signal_def)

text \<open>Once the stop signal is sent the thread is never stuck before its end.\<close>

lemma signalled_progress:
  assumes "session_inv b" and "bs_stop_signalled b" and "\<not> bs_done_sent b"
  shows "\<exists>c. session_step b c"
proof (cases "bs_thread b")
  case NodeRunning
  then show ?thesis using assms(2) by (auto simp: thread_select_def intro!: exI step_select [of False])
next
  case TearingDown
  then show ?thesis by (auto simp: thread_drop_runtime_def intro!: exI step_drop)
next
  case RuntimeDropped
  then show ?thesis by (auto simp: thread_signal_done_def intro!: exI step_signal)
qed (use assms in \<open>simp add: session_inv_def\<close>)

lemma signalled_reaches_done:
  assumes "session_inv b" and "bs_stop_signalled b"
  shows "\<exists>c. session_steps b c \<and> bs_done_sent c"
  using assms
proof (induction "3 - thread_rank (bs_thread b)" arbitrary: b rule: less_induct)
  case less
  show ?case
  proof (cases "bs_done_sent b")
    case True
    then show ?thesis using steps_refl by blast
  next
    case False
    then obtain c where c: "session_step b c" using signalled_progress less.prems by blast
    have "thread_rank (bs_thread b) < thread_rank (bs_thread c)"
      using session_step_forward [OF c] by (simp add: less_node_thread_def)
    moreover have "thread_rank (bs_thread c) \<le> 3" by (cases "bs_thread c") simp_all
    ultimately obtain d where "session_steps c d" "bs_done_sent d"
      using less.hyps [of c] session_step_inv [OF c] less.prems by fastforce
    then show ?thesis using steps_step [OF c] by blast
  qed
qed

lemma stops_done:
  assumes "session_inv b" and "bs_done b" and "stops b d"
  shows "bs_thread d = NodeDone \<and> \<not> bs_sockets_held d \<and> \<not> bs_done d \<and> \<not> bs_stop_tx d"
proof -
  obtain c where c: "session_steps (stop_signal b) c" "await_done c = Some d"
    using assms(3) by (auto simp: stops_def)
  have "session_inv c" "bs_done c" "\<not> bs_stop_tx c"
    using session_steps_inv [OF c(1)] stop_signal_inv [OF assms(1)] assms(2)
    by (auto simp: stop_signal_def)
  then show ?thesis using c(2) by (auto simp: await_done_def session_inv_def split: if_splits)
qed

text \<open>Whatever the thread has done since the signal, it gets to where \<open>stop\<close> can return.\<close>

lemma stops_reachable:
  assumes "session_inv b" and "session_steps (stop_signal b) c"
  shows "\<exists>d e. session_steps c d \<and> await_done d = Some e"
proof -
  have "session_inv c" "bs_stop_signalled c"
    using session_steps_inv [OF assms(2)] stop_signal_inv [OF assms(1)] stop_signal_signalled [OF assms(1)] by simp_all
  then obtain d where "session_steps c d" "bs_done_sent d" using signalled_reaches_done by blast
  then show ?thesis by (cases "bs_done d") (auto simp: await_done_def)
qed

lemma stops_exists: "session_inv b \<Longrightarrow> \<exists>d. stops b d"
  using stops_reachable [OF _ steps_refl] unfolding stops_def by blast

text \<open>A session as \<open>start_server\<close> or \<open>start_client\<close> hands it over.\<close>

definition started :: "bridge_env \<Rightarrow> bridge_session \<Rightarrow> bool" where
  "started env b \<longleftrightarrow> (\<exists>args su. start_server env args = Inr (b, su)) \<or> (\<exists>args su. start_client env args = Inr (b, su))"

text \<open>
  C14: whatever the node thread of a started session, server or client, has done so far and does after
  the stop signal, it can still get to the point where \<open>stop\<close> returns.  Once \<open>done\<close> has been signalled no
  socket of the node is held any more, and so when \<open>stop\<close> returns the port can be bound again; a
  second \<open>stop\<close> returns at once and changes nothing.
\<close>

theorem stop_releases_sockets:
  assumes "started env b" and "session_steps b c"
  shows "(\<forall>e. session_steps (stop_signal c) e \<longrightarrow> (\<exists>f d. session_steps e f \<and> await_done f = Some d))
     \<and> (bs_done_sent c \<longrightarrow> \<not> bs_sockets_held c)
     \<and> (\<forall>d. stops c d \<longrightarrow> bs_thread d = NodeDone \<and> \<not> bs_sockets_held d \<and> await_done (stop_signal d) = Some d)"
proof -
  have "session_inv b" "bs_done b"
    using assms(1) by (auto simp: started_def start_server_def start_client_def rbind_eq_Inr dest: spawn_session_inv)
  then have c: "session_inv c" "bs_done c" using session_steps_inv [OF assms(2)] by auto
  have "bs_thread d = NodeDone \<and> \<not> bs_sockets_held d \<and> await_done (stop_signal d) = Some d"
    if "stops c d" for d
    using stops_done [OF c that] by (simp add: stop_signal_def await_done_def)
  moreover have "bs_done_sent c \<longrightarrow> \<not> bs_sockets_held c" using c(1) by (auto simp: session_inv_def)
  ultimately show ?thesis using stops_reachable [OF c(1)] by blast
qed

text \<open>An environment in which everything succeeds.\<close>

definition demo_env :: bridge_env where
  "demo_env =
     \<lparr>be_load_identity = (\<lambda>_ p. Inr (bytes_of p)),
      be_destination_hash = (\<lambda>app aspect i. Inr (take 16 (i @ bytes_of aspect @ replicate 16 0))),
      be_parse_addr = (\<lambda>s. Inr (0x7F000001, 27015)), be_udp_bind = (\<lambda>a. Inr ()),
      be_hex_decode = (\<lambda>s. Inr (bytes_of s)), be_thread_spawn = Inr (), be_build_runtime = Inr ()\<rparr>"

theorem stop_releases_sockets_witness:
  "\<exists>b d. started demo_env b \<and> bs_role b = Server \<and> stops b d \<and> bs_sockets_held b \<and> \<not> bs_sockets_held d"
proof -
  have "\<exists>b su. start_server demo_env server_args_default = Inr (b, su) \<and> bs_sockets_held b \<and> bs_role b = Server"
    by (simp add: start_server_def own_destination_def load_identity_def demo_env_def with_context_def
        spawn_bridge_node_def build_server_def server_args_default_def)
  then obtain b where b: "started demo_env b" "bs_sockets_held b" "bs_role b = Server"
    unfolding started_def by blast
  note stop = stop_releases_sockets [OF b(1) steps_refl]
  obtain f d where "session_steps (stop_signal b) f" "await_done f = Some d" using stop steps_refl by blast
  then have "stops b d" by (auto simp: stops_def)
  then show ?thesis using stop b by blast
qed

text \<open>
  C29: if reading the identity file twice gives the same identity,
  the hash a started server session shows to its user is the destination its announcer
  announces, the announced data fits the wire budget, and both places that build it agree.
\<close>

theorem server_own_hash_is_announced:
  assumes "start_server env args = Inr (b, su)"
    and "be_load_identity env 0 (sa_identity args) = be_load_identity env 1 (sa_identity args)"
  shows "bs_own_hash b = Some (ss_hash su) \<and> bs_role b = role (ConfigServer args)
     \<and> ss_announce_data su = ss_registered_data su
     \<and> length (ss_announce_data su) \<le> MAX_ANNOUNCE_APP_DATA_LEN
     \<and> 0 < ss_period su"
proof -
  have same: "own_destination env 0 SC_ASPECT_SERVER (sa_identity args)
      = own_destination env 1 SC_ASPECT_SERVER (sa_identity args)"
    using assms(2) by (simp add: own_destination_def load_identity_def)
  obtain h where h: "own_destination env 0 SC_ASPECT_SERVER (sa_identity args) = Inr h"
    "bs_own_hash b = Some h" "bs_role b = Server" "build_server env args = Inr su"
    using assms(1) by (auto simp: start_server_def rbind_eq_Inr dest: spawn_session_inv)
  then have "ss_hash su = h" "ss_announce_data su = server_announce_app_data (sa_name args)"
    "ss_registered_data su = server_announce_name_bytes (sa_name args)"
    "ss_period su = announcer_period args"
    using same by (auto simp: build_server_def rbind_eq_Inr)
  moreover have "0 < announcer_period args"
    by (auto simp: announcer_period_def max_def word_gt_0)
  ultimately show ?thesis
    using h name_bytes_length [of "sa_name args"] app_data_is_name_bytes [of "sa_name args"]
    by (simp add: role_def)
qed

theorem server_own_hash_is_announced_witness:
  "\<exists>b su. start_server demo_env server_args_default = Inr (b, su)
     \<and> bs_own_hash b = Some (ss_hash su) \<and> ss_period su = 15"
proof -
  have "\<exists>b su. start_server demo_env server_args_default = Inr (b, su) \<and> ss_period su = 15"
    by (simp add: start_server_def own_destination_def load_identity_def demo_env_def with_context_def
        spawn_bridge_node_def build_server_def server_args_default_def announcer_period_def)
  then obtain b su where b: "start_server demo_env server_args_default = Inr (b, su)"
    "ss_period su = 15" by blast
  have "be_load_identity demo_env 0 (sa_identity server_args_default)
      = be_load_identity demo_env 1 (sa_identity server_args_default)" by (simp add: demo_env_def)
  then show ?thesis using server_own_hash_is_announced [OF b(1)] b by blast
qed

end
