(* ===== verification/A2s_Query.thy ===== *)
theory A2s_Query
  imports Rust_Str "HOL-Library.Sublist"
begin

text \<open>
  The A2S client of the controller (\<open>controller/src/a2s.rs\<close>): the primitive readers over
  a cursor, the parsers of the two info formats and of the player list, and the request
  sequence of \<open>query\<close>.  A cursor is the list of bytes it still has; a reader returns the
  value and the rest.  The interface of a reader is the locale \<open>cursor_reader\<close>, that of a
  reader with its writer \<open>wire_codec\<close>.  An \<open>f32\<close> is its 32 bits, an \<open>i16\<close> or \<open>i32\<close> the
  word whose signed value it is.
\<close>

type_synonym 'a reader = "bytes \<Rightarrow> ('a \<times> bytes) result"

definition rseq :: "'a reader \<Rightarrow> ('a \<Rightarrow> 'b reader) \<Rightarrow> 'b reader" where
  "rseq r f = (\<lambda>c. rbind (r c) (\<lambda>(x, c'). f x c'))"

definition rret :: "'a \<Rightarrow> 'a reader" where
  "rret x = (\<lambda>c. Inr (x, c))"

lemma rseq_simp [simp]: "rseq r f c = rbind (r c) (\<lambda>(x, c'). f x c')"
  by (simp add: rseq_def)

lemma rret_simp [simp]: "rret x c = Inr (x, c)"
  by (simp add: rret_def)

subsection \<open>Primitive readers\<close>

definition read_exact :: "nat \<Rightarrow> bytes reader" where
  "read_exact n c = (if length c < n then Inl ''unexpected end of A2S response''
                     else Inr (take n c, drop n c))"

definition le_word16 :: "bytes \<Rightarrow> u16" where
  "le_word16 b = word_of_nat (unat (b ! 0) + 256 * unat (b ! 1))"

definition le_word32 :: "bytes \<Rightarrow> u32" where
  "le_word32 b = word_of_nat
     (unat (b ! 0) + 256 * unat (b ! 1) + 65536 * unat (b ! 2) + 16777216 * unat (b ! 3))"

definition read_u8 :: "u8 reader" where
  "read_u8 c = rbind (read_exact 1 c) (\<lambda>(b, c'). Inr (b ! 0, c'))"

definition read_i16le :: "u16 reader" where
  "read_i16le c = rbind (read_exact 2 c) (\<lambda>(b, c'). Inr (le_word16 b, c'))"

definition read_i32le :: "u32 reader" where
  "read_i32le c = rbind (read_exact 4 c) (\<lambda>(b, c'). Inr (le_word32 b, c'))"

definition read_f32le :: "u32 reader" where
  "read_f32le c = rbind (read_exact 4 c) (\<lambda>(b, c'). Inr (le_word32 b, c'))"

text \<open>The loop of \<open>read_cstring\<close>: it ends with the first zero byte or at the end of input.\<close>

fun cstring_loop :: "bytes \<Rightarrow> bytes reader" where
  "cstring_loop acc [] = Inl ''unexpected end of A2S response''"
| "cstring_loop acc (b # c) = (if b = 0 then Inr (acc, c) else cstring_loop (acc @ [b]) c)"

definition read_cstring :: "string reader" where
  "read_cstring c = rbind (cstring_loop [] c) (\<lambda>(bs, c'). Inr (from_utf8_lossy bs, c'))"

subsection \<open>Replies\<close>

record a2s_info =
  server_name :: string
  ai_map :: string
  game_dir :: string
  game_description :: string
  ai_players :: u8
  max_players :: u8
  bots :: u8
  server_type :: string
  environment :: string
  password_protected :: bool
  vac_secured :: bool
  ai_version :: string

record a2s_player =
  ap_index :: u8
  ap_name :: string
  ap_score :: u32
  ap_duration :: u32

record a2s_stats =
  st_info :: a2s_info
  players_list :: "a2s_player list"

definition ascii :: "char \<Rightarrow> u8" where
  "ascii ch = word_of_nat (of_char ch)"

definition decode_server_type :: "u8 \<Rightarrow> string" where
  "decode_server_type b =
     (if b = ascii (CHR ''d'') then ''dedicated''
      else if b = ascii (CHR ''l'') then ''listen''
      else if b = ascii (CHR ''p'') then ''proxy''
      else show_hex_byte b)"

definition decode_environment :: "u8 \<Rightarrow> string" where
  "decode_environment b =
     (if b = ascii (CHR ''l'') then ''linux''
      else if b = ascii (CHR ''w'') then ''windows''
      else if b = ascii (CHR ''m'') \<or> b = ascii (CHR ''o'') then ''mac''
      else show_hex_byte b)"

definition OOB_HEADER :: bytes where
  "OOB_HEADER = [0xFF, 0xFF, 0xFF, 0xFF]"

text \<open>The modern format, after the type byte \<open>I\<close>.\<close>

definition read_info_modern :: "a2s_info reader" where
  "read_info_modern =
     rseq read_u8 (\<lambda>protocol.
     rseq read_cstring (\<lambda>name.
     rseq read_cstring (\<lambda>map_name.
     rseq read_cstring (\<lambda>dir.
     rseq read_cstring (\<lambda>description.
     rseq read_i16le (\<lambda>app_id.
     rseq read_u8 (\<lambda>players.
     rseq read_u8 (\<lambda>maxp.
     rseq read_u8 (\<lambda>nbots.
     rseq read_u8 (\<lambda>ty.
     rseq read_u8 (\<lambda>env.
     rseq read_u8 (\<lambda>password.
     rseq read_u8 (\<lambda>vac.
     rseq read_cstring (\<lambda>version.
       rret \<lparr>server_name = name, ai_map = map_name, game_dir = dir, game_description = description,
             ai_players = players, max_players = maxp, bots = nbots,
             server_type = decode_server_type ty, environment = decode_environment env,
             password_protected = (password \<noteq> 0), vac_secured = (vac \<noteq> 0),
             ai_version = version\<rparr>))))))))))))))"

text \<open>The legacy GoldSrc format, after the type byte \<open>m\<close>; the mod part is optional.\<close>

definition read_mod_info :: "unit reader" where
  "read_mod_info =
     rseq read_cstring (\<lambda>url_info. rseq read_cstring (\<lambda>url_dl. rseq read_u8 (\<lambda>sep.
     rseq read_i32le (\<lambda>version. rseq read_i32le (\<lambda>size. rseq read_u8 (\<lambda>svonly.
     rseq read_u8 (\<lambda>cldll. rret ())))))))"

definition read_info_legacy :: "a2s_info reader" where
  "read_info_legacy =
     rseq read_cstring (\<lambda>address.
     rseq read_cstring (\<lambda>name.
     rseq read_cstring (\<lambda>map_name.
     rseq read_cstring (\<lambda>dir.
     rseq read_cstring (\<lambda>description.
     rseq read_u8 (\<lambda>version.
     rseq read_u8 (\<lambda>players.
     rseq read_u8 (\<lambda>maxp.
     rseq read_u8 (\<lambda>protocol.
     rseq read_u8 (\<lambda>ty.
     rseq read_u8 (\<lambda>env.
     rseq read_u8 (\<lambda>password.
     rseq read_u8 (\<lambda>is_mod.
     rseq (if is_mod \<noteq> 0 then read_mod_info else rret ()) (\<lambda>_.
     rseq read_u8 (\<lambda>vac.
     rseq read_u8 (\<lambda>nbots.
       rret \<lparr>server_name = name, ai_map = map_name, game_dir = dir, game_description = description,
             ai_players = players, max_players = maxp, bots = nbots,
             server_type = decode_server_type ty, environment = decode_environment env,
             password_protected = (password \<noteq> 0), vac_secured = (vac \<noteq> 0),
             ai_version = []\<rparr>))))))))))))))))"

definition read_info :: "a2s_info reader" where
  "read_info =
     rseq read_u8 (\<lambda>header.
       if header = ascii (CHR ''I'') then read_info_modern
       else if header = ascii (CHR ''m'') then read_info_legacy
       else (\<lambda>c. Inl (''unrecognized A2S_INFO response type '' @ show_hex_byte header)))"

definition parse_info :: "bytes \<Rightarrow> a2s_info result" where
  "parse_info resp =
     (if length resp < 6 \<or> take 4 resp \<noteq> OOB_HEADER then Inl ''not an A2S response (bad header)''
      else rbind (read_info (drop 4 resp)) (\<lambda>(i, _). Inr i))"

definition read_player :: "a2s_player reader" where
  "read_player =
     rseq read_u8 (\<lambda>index. rseq read_cstring (\<lambda>name. rseq read_i32le (\<lambda>score.
     rseq read_f32le (\<lambda>duration.
       rret \<lparr>ap_index = index, ap_name = name, ap_score = score, ap_duration = duration\<rparr>))))"

fun read_many :: "'a reader \<Rightarrow> nat \<Rightarrow> 'a list reader" where
  "read_many r 0 = rret []"
| "read_many r (Suc n) = rseq r (\<lambda>x. rseq (read_many r n) (\<lambda>xs. rret (x # xs)))"

definition read_players :: "a2s_player list reader" where
  "read_players = rseq read_u8 (\<lambda>count. read_many read_player (unat count))"

definition parse_players :: "bytes \<Rightarrow> a2s_player list result" where
  "parse_players resp =
     (if length resp < 6 \<or> take 4 resp \<noteq> OOB_HEADER \<or> resp ! 4 \<noteq> ascii (CHR ''D'')
      then Inl ''not an A2S_PLAYER response''
      else rbind (read_players (drop 5 resp)) (\<lambda>(ps, _). Inr ps))"

subsection \<open>The requests\<close>

text \<open>
  The network answers the last of the requests sent so far; a send error, a timeout after
  \<open>QUERY_TIMEOUT\<close> and a receive error are the error side.  The requests sent are the state.
\<close>

type_synonym network = "bytes list \<Rightarrow> bytes result"

definition A2S_RECV_BUF :: nat where
  "A2S_RECV_BUF = 4096"

definition send_recv :: "network \<Rightarrow> bytes \<Rightarrow> bytes list \<Rightarrow> bytes result \<times> bytes list" where
  "send_recv net payload sent =
     (rbind (net (sent @ [payload])) (\<lambda>buf. Inr (take A2S_RECV_BUF buf)), sent @ [payload])"

definition INFO_REQUEST :: bytes where
  "INFO_REQUEST = OOB_HEADER @ [ascii (CHR ''T'')] @ bytes_of ''Source Engine Query'' @ [0]"

definition is_challenge :: "bytes \<Rightarrow> bool" where
  "is_challenge resp \<longleftrightarrow> 5 \<le> length resp \<and> take 4 resp = OOB_HEADER \<and> resp ! 4 = ascii (CHR ''A'')"

definition query_info :: "network \<Rightarrow> bytes list \<Rightarrow> a2s_info result \<times> bytes list" where
  "query_info net sent =
     (case send_recv net INFO_REQUEST sent of
        (Inl e, sent) \<Rightarrow> (Inl e, sent)
      | (Inr resp, sent) \<Rightarrow>
          (if is_challenge resp then
             (if length resp < 9 then (Inl ''truncated A2S challenge'', sent)
              else case send_recv net (INFO_REQUEST @ take 4 (drop 5 resp)) sent of
                (Inl e, sent) \<Rightarrow> (Inl e, sent)
              | (Inr resp, sent) \<Rightarrow> (parse_info resp, sent))
           else (parse_info resp, sent)))"

definition PLAYER_REQUEST :: "bytes \<Rightarrow> bytes" where
  "PLAYER_REQUEST challenge = OOB_HEADER @ [ascii (CHR ''U'')] @ challenge"

definition query_players :: "network \<Rightarrow> bytes list \<Rightarrow> a2s_player list result \<times> bytes list" where
  "query_players net sent =
     (case send_recv net (PLAYER_REQUEST [0xFF, 0xFF, 0xFF, 0xFF]) sent of
        (Inl e, sent) \<Rightarrow> (Inl e, sent)
      | (Inr resp, sent) \<Rightarrow>
          (if length resp < 9 \<or> take 4 resp \<noteq> OOB_HEADER
           then (Inl ''not an A2S response (bad header)'', sent)
           else if resp ! 4 = ascii (CHR ''A'') then
             (case send_recv net (PLAYER_REQUEST (take 4 (drop 5 resp))) sent of
                (Inl e, sent) \<Rightarrow> (Inl e, sent)
              | (Inr resp, sent) \<Rightarrow> (parse_players resp, sent))
           else if resp ! 4 = ascii (CHR ''D'') then (parse_players resp, sent)
           else (Inl (''unexpected A2S_PLAYER reply type '' @ show_hex_byte (resp ! 4)), sent)))"

text \<open>The player list is best effort; the socket calls before the first request can fail.\<close>

definition query ::
  "network \<Rightarrow> unit result \<Rightarrow> unit result \<Rightarrow> a2s_stats result \<times> bytes list" where
  "query net bind connect =
     (case rbind bind (\<lambda>_. connect) of
        Inl e \<Rightarrow> (Inl e, [])
      | Inr _ \<Rightarrow>
          (case query_info net [] of
             (Inl e, sent) \<Rightarrow> (Inl e, sent)
           | (Inr info, sent) \<Rightarrow>
               (case query_players net sent of (ps, sent) \<Rightarrow>
                  (Inr \<lparr>st_info = info, players_list = unwrap_or [] ps\<rparr>, sent))))"

subsection \<open>Readers consume a prefix\<close>

locale cursor_reader =
  fixes rd :: "bytes \<Rightarrow> string + ('a \<times> bytes)"
  assumes rd_split: "rd c = Inr (x, rest) \<Longrightarrow> \<exists>used. c = used @ rest \<and> (\<forall>ext. rd (used @ ext) = Inr (x, ext))"
begin

text \<open>What a reader accepts does not depend on the bytes it leaves.\<close>

lemma extend: "rd c = Inr (x, rest) \<Longrightarrow> rd (c @ ext) = Inr (x, rest @ ext)"
  using rd_split by fastforce

lemma consumes: "rd c = Inr (x, rest) \<Longrightarrow> \<exists>used. c = used @ rest"
  using rd_split by blast

lemma shorter: "rd c = Inr (x, rest) \<Longrightarrow> length rest \<le> length c"
  using consumes by fastforce

end

lemma cursor_reader_rret: "cursor_reader (rret x)"
  by unfold_locales (auto intro: exI [of _ "[]"])

lemma cursor_reader_fail: "cursor_reader (\<lambda>c. Inl e)"
  by unfold_locales simp

lemma cursor_reader_rseq:
  assumes "cursor_reader r" and "\<And>x. cursor_reader (f x)"
  shows "cursor_reader (rseq r f)"
proof
  fix c y rest
  assume "rseq r f c = Inr (y, rest)"
  then obtain x mid where x: "r c = Inr (x, mid)" "f x mid = Inr (y, rest)"
    by (auto simp: rbind_eq_Inr)
  obtain u where u: "c = u @ mid" "\<forall>ext. r (u @ ext) = Inr (x, ext)"
    using cursor_reader.rd_split [OF assms(1) x(1)] by blast
  obtain v where v: "mid = v @ rest" "\<forall>ext. f x (v @ ext) = Inr (y, ext)"
    using cursor_reader.rd_split [OF assms(2) x(2)] by blast
  show "\<exists>used. c = used @ rest \<and> (\<forall>ext. rseq r f (used @ ext) = Inr (y, ext))"
    by (intro exI [of _ "u @ v"]) (simp add: u v)
qed

lemma cursor_reader_exact: "cursor_reader (\<lambda>c. rbind (read_exact n c) (\<lambda>(b, c'). Inr (g b, c')))"
proof
  fix c x rest
  assume "rbind (read_exact n c) (\<lambda>(b, c'). Inr (g b, c')) = Inr (x, rest)"
  then have "n \<le> length c" "x = g (take n c)" "rest = drop n c"
    by (auto simp: read_exact_def split: if_splits)
  then show "\<exists>used. c = used @ rest
      \<and> (\<forall>ext. rbind (read_exact n (used @ ext)) (\<lambda>(b, c'). Inr (g b, c')) = Inr (x, ext))"
    by (intro exI [of _ "take n c"]) (simp add: read_exact_def)
qed

lemma cstring_loop_split:
  "cstring_loop acc c = Inr (bs, rest) \<Longrightarrow>
   \<exists>s. bs = acc @ s \<and> 0 \<notin> set s \<and> c = s @ 0 # rest"
proof (induction acc c rule: cstring_loop.induct)
  case (2 acc b c)
  show ?case
  proof (cases "b = 0")
    case True
    then show ?thesis using 2 by (intro exI [of _ "[]"]) simp
  next
    case False
    then obtain s where "bs = (acc @ [b]) @ s" "0 \<notin> set s" "c = s @ 0 # rest"
      using 2 by auto
    then show ?thesis using False by (intro exI [of _ "b # s"]) simp
  qed
qed simp

lemma cstring_loop_done: "0 \<notin> set s \<Longrightarrow> cstring_loop acc (s @ 0 # rest) = Inr (acc @ s, rest)"
  by (induction s arbitrary: acc) auto

lemma cursor_reader_cstring: "cursor_reader read_cstring"
proof
  fix c x rest
  assume "read_cstring c = Inr (x, rest)"
  then obtain bs where bs: "cstring_loop [] c = Inr (bs, rest)" "x = from_utf8_lossy bs"
    by (auto simp: read_cstring_def rbind_eq_Inr)
  then obtain s where "bs = s" "0 \<notin> set s" "c = s @ 0 # rest" using cstring_loop_split by fastforce
  then show "\<exists>used. c = used @ rest \<and> (\<forall>ext. read_cstring (used @ ext) = Inr (x, ext))"
    using bs(2) by (intro exI [of _ "s @ [0]"]) (simp add: read_cstring_def cstring_loop_done)
qed

lemma cursor_reader_prims:
  "cursor_reader read_u8" "cursor_reader read_i16le" "cursor_reader read_i32le" "cursor_reader read_f32le"
  using cursor_reader_exact [of 1 "\<lambda>b. b ! 0"] cursor_reader_exact [of 2 le_word16]
    cursor_reader_exact [of 4 le_word32]
  unfolding read_u8_def [abs_def] read_i16le_def [abs_def] read_i32le_def [abs_def]
    read_f32le_def [abs_def] by simp_all

lemmas cursor_readers =
  cursor_reader_rseq cursor_reader_rret cursor_reader_fail cursor_reader_cstring cursor_reader_prims

lemma cursor_reader_many: "cursor_reader r \<Longrightarrow> cursor_reader (read_many r n)"
  by (induction n) (auto intro: cursor_readers)

lemma cursor_reader_if: "cursor_reader r \<Longrightarrow> cursor_reader q \<Longrightarrow> cursor_reader (if b then r else q)"
  by simp

lemma cursor_reader_modern: "cursor_reader read_info_modern"
  unfolding read_info_modern_def by (intro cursor_readers)

lemma cursor_reader_legacy: "cursor_reader read_info_legacy"
  unfolding read_info_legacy_def read_mod_info_def by (intro cursor_readers cursor_reader_if)

interpretation info: cursor_reader read_info
  unfolding read_info_def
  by (intro cursor_readers cursor_reader_if cursor_reader_modern cursor_reader_legacy)

interpretation players: cursor_reader read_players
  unfolding read_players_def read_player_def
  by (intro cursor_readers cursor_reader_many)

subsection \<open>Readers and their writers\<close>

text \<open>
  The wire format as the sender writes it; the readers are the inverses of these writers on
  the values that can be written.
\<close>

locale wire_codec = cursor_reader rd
  for rd :: "bytes \<Rightarrow> string + ('a \<times> bytes)" +
  fixes wr :: "'a \<Rightarrow> bytes"
    and writable :: "'a \<Rightarrow> bool"
  assumes rd_wr: "writable x \<Longrightarrow> rd (wr x @ rest) = Inr (x, rest)"
begin

lemma read_many_write:
  "list_all writable xs \<Longrightarrow> read_many rd (length xs) (concat (map wr xs) @ rest) = Inr (xs, rest)"
  by (induction xs) (simp_all add: rd_wr)

lemma wr_injective: "writable x \<Longrightarrow> writable y \<Longrightarrow> wr x = wr y \<Longrightarrow> x = y"
  using rd_wr [of x "[]"] rd_wr [of y "[]"] by simp

text \<open>A proper prefix of what a writer writes is never accepted as the same value.\<close>

lemma truncated:
  assumes "writable x" and "wr x = part @ rest" and "rest \<noteq> []"
  shows "rd part \<noteq> Inr (x, [])"
proof
  assume "rd part = Inr (x, [])"
  then have "rd (part @ rest) = Inr (x, rest)" using extend by fastforce
  then show False using rd_wr [OF assms(1), of "[]"] assms(2,3) by simp
qed

end

definition write_le16 :: "u16 \<Rightarrow> bytes" where
  "write_le16 w = [word_of_nat (unat w mod 256), word_of_nat (unat w div 256)]"

definition write_le32 :: "u32 \<Rightarrow> bytes" where
  "write_le32 w = [word_of_nat (unat w mod 256), word_of_nat (unat w div 256 mod 256),
     word_of_nat (unat w div 65536 mod 256), word_of_nat (unat w div 16777216)]"

definition write_cstring :: "string \<Rightarrow> bytes" where
  "write_cstring s = bytes_of s @ [0]"

definition cstring_ok :: "string \<Rightarrow> bool" where
  "cstring_ok s \<longleftrightarrow> utf8_valid (bytes_of s) \<and> 0 \<notin> set (bytes_of s)"

lemma unat_byte [simp]: "n < 256 \<Longrightarrow> unat (word_of_nat n :: u8) = n"
  by (simp add: unat_of_nat)

lemma le_write16: "le_word16 (write_le16 w) = w"
proof -
  have "unat w < 2 ^ 16" using unsigned_less [of w] by simp
  then have "unat w div 256 < 256" by (simp add: div_less_iff_less_mult)
  then show ?thesis
    by (simp add: le_word16_def write_le16_def)
qed

lemma le_write32: "le_word32 (write_le32 w) = w"
proof -
  have w: "unat w < 2 ^ 32" using unsigned_less [of w] by simp
  then have d: "unat w div 16777216 < 256" by (simp add: div_less_iff_less_mult)
  have "unat w div 256 div 256 = unat w div 65536" "unat w div 65536 div 256 = unat w div 16777216"
    by (simp_all flip: div_mult2_eq)
  then have "unat w mod 256 + 256 * (unat w div 256 mod 256) + 65536 * (unat w div 65536 mod 256)
      + 16777216 * (unat w div 16777216) = unat w"
    using div_mult_mod_eq [of "unat w" 256] div_mult_mod_eq [of "unat w div 256" 256]
      div_mult_mod_eq [of "unat w div 65536" 256] by linarith
  then show ?thesis
    using d by (simp add: le_word32_def write_le32_def)
qed

interpretation u8: wire_codec read_u8 "\<lambda>b. [b]" "\<lambda>_. True"
  by (intro wire_codec.intro cursor_reader_prims wire_codec_axioms.intro)
    (simp add: read_u8_def read_exact_def)

interpretation i16: wire_codec read_i16le write_le16 "\<lambda>_. True"
proof (intro wire_codec.intro cursor_reader_prims wire_codec_axioms.intro)
  fix x rest
  have "length (write_le16 x) = 2" by (simp add: write_le16_def)
  then show "read_i16le (write_le16 x @ rest) = Inr (x, rest)"
    by (simp add: read_i16le_def read_exact_def le_write16)
qed

lemma read_write_le32:
  "read_exact 4 (write_le32 x @ rest) = Inr (write_le32 x, rest)"
  by (simp add: read_exact_def write_le32_def)

interpretation i32: wire_codec read_i32le write_le32 "\<lambda>_. True"
  by (intro wire_codec.intro cursor_reader_prims wire_codec_axioms.intro)
    (simp add: read_i32le_def read_write_le32 le_write32)

interpretation f32: wire_codec read_f32le write_le32 "\<lambda>_. True"
  by (intro wire_codec.intro cursor_reader_prims wire_codec_axioms.intro)
    (simp add: read_f32le_def read_write_le32 le_write32)

interpretation cstring: wire_codec read_cstring write_cstring cstring_ok
  by (intro wire_codec.intro cursor_reader_cstring wire_codec_axioms.intro)
    (simp add: read_cstring_def write_cstring_def cstring_ok_def cstring_loop_done from_utf8_lossy_def
      utf8_lossy_id)

lemmas wire_reads = u8.rd_wr [simplified] i16.rd_wr [simplified] i32.rd_wr [simplified] f32.rd_wr [simplified] cstring.rd_wr

definition write_player :: "a2s_player \<Rightarrow> bytes" where
  "write_player p =
     [ap_index p] @ write_cstring (ap_name p) @ write_le32 (ap_score p) @ write_le32 (ap_duration p)"

interpretation player: wire_codec read_player write_player "\<lambda>p. cstring_ok (ap_name p)"
proof (intro wire_codec.intro wire_codec_axioms.intro)
  show "cursor_reader read_player" unfolding read_player_def by (intro cursor_readers)
  show "read_player (write_player p @ rest) = Inr (p, rest)" if "cstring_ok (ap_name p)" for p rest
    using that by (simp add: read_player_def write_player_def wire_reads)
qed

subsection \<open>Replies as a server writes them\<close>

definition write_bool :: "bool \<Rightarrow> bytes" where
  "write_bool b = [if b then 1 else 0]"

definition info_strings_ok :: "a2s_info \<Rightarrow> bool" where
  "info_strings_ok i \<longleftrightarrow> cstring_ok (server_name i) \<and> cstring_ok (ai_map i) \<and> cstring_ok (game_dir i)
     \<and> cstring_ok (game_description i) \<and> cstring_ok (ai_version i)"

text \<open>The bytes \<open>ty\<close> and \<open>env\<close> stand for the server type and the environment.\<close>

definition write_info_modern :: "u8 \<Rightarrow> u16 \<Rightarrow> u8 \<Rightarrow> u8 \<Rightarrow> a2s_info \<Rightarrow> bytes" where
  "write_info_modern protocol app_id ty env i =
     OOB_HEADER @ [ascii (CHR ''I''), protocol] @ write_cstring (server_name i) @ write_cstring (ai_map i)
     @ write_cstring (game_dir i) @ write_cstring (game_description i) @ write_le16 app_id
     @ [ai_players i, max_players i, bots i, ty, env]
     @ write_bool (password_protected i) @ write_bool (vac_secured i) @ write_cstring (ai_version i)"

record mod_info =
  mi_url_info :: string
  mi_url_dl :: string
  mi_version :: u32
  mi_size :: u32
  mi_svonly :: u8
  mi_cldll :: u8

definition write_mod_info :: "mod_info \<Rightarrow> bytes" where
  "write_mod_info m =
     write_cstring (mi_url_info m) @ write_cstring (mi_url_dl m) @ [0] @ write_le32 (mi_version m)
     @ write_le32 (mi_size m) @ [mi_svonly m, mi_cldll m]"

definition mod_ok :: "mod_info option \<Rightarrow> bool" where
  "mod_ok m = (case m of None \<Rightarrow> True | Some v \<Rightarrow> cstring_ok (mi_url_info v) \<and> cstring_ok (mi_url_dl v))"

text \<open>
  The legacy reply as the protocol page lays it out: after the type byte the address and four texts,
  then the numbers of players and of places, the protocol, the server type and the environment, the
  password flag, the mod flag with its block, and at the end the VAC flag and the number of bots.
\<close>

definition legacy_reply ::
  "string \<Rightarrow> u8 \<Rightarrow> u8 \<Rightarrow> u8 \<Rightarrow> mod_info option \<Rightarrow> a2s_info \<Rightarrow> bytes" where
  "legacy_reply address protocol ty env m i =
     OOB_HEADER @ [ascii (CHR ''m'')] @ write_cstring address @ write_cstring (server_name i)
     @ write_cstring (ai_map i) @ write_cstring (game_dir i) @ write_cstring (game_description i)
     @ [ai_players i, max_players i, protocol, ty, env] @ write_bool (password_protected i)
     @ (case m of None \<Rightarrow> [0] | Some v \<Rightarrow> 1 # write_mod_info v)
     @ write_bool (vac_secured i) @ [bots i]"

definition write_players :: "a2s_player list \<Rightarrow> bytes" where
  "write_players ps =
     OOB_HEADER @ [ascii (CHR ''D''), word_of_nat (length ps)] @ concat (map write_player ps)"

lemma ascii_type_bytes [simp]:
  "ascii (CHR ''I'') \<noteq> ascii (CHR ''m'')" "ascii (CHR ''m'') \<noteq> ascii (CHR ''I'')"
  "ascii (CHR ''D'') \<noteq> ascii (CHR ''A'')" "ascii (CHR ''A'') \<noteq> ascii (CHR ''D'')"
  by (simp_all add: ascii_def)

lemma parse_info_written:
  assumes "info_strings_ok i"
  shows "parse_info (write_info_modern protocol app_id ty env i @ ext) =
      Inr (i\<lparr>server_type := decode_server_type ty, environment := decode_environment env\<rparr>)"
  using assms
  by (simp add: parse_info_def write_info_modern_def OOB_HEADER_def read_info_def
      read_info_modern_def wire_reads info_strings_ok_def write_bool_def)

text \<open>
  C22: a reply to the info query in the modern format, all of whose texts are valid UTF-8 without zero
  bytes, is parsed back into the values the server wrote, the bytes for the server type and
  the environment decoded; trailing bytes are ignored.
\<close>

theorem a2s_info_round_trip:
  assumes "info_strings_ok i"
  shows "parse_info (write_info_modern protocol app_id ty env i @ ext) =
      Inr (i\<lparr>server_type := decode_server_type ty, environment := decode_environment env\<rparr>)"
  using parse_info_written [OF assms] .

definition demo_info :: a2s_info where
  "demo_info =
     \<lparr>server_name = ''Srv'', ai_map = ''svencoop1'', game_dir = ''svencoop'', game_description = ''SC'',
      ai_players = 3, max_players = 12, bots = 0, server_type = ''dedicated'', environment = ''linux'',
      password_protected = False, vac_secured = True, ai_version = []\<rparr>"

lemma cstring_ok_ascii:
  "\<forall>b\<in>set (bytes_of s). b \<noteq> 0 \<and> b < 0x80 \<Longrightarrow> cstring_ok s"
  using utf8_valid_ascii [of "bytes_of s"] by (auto simp: cstring_ok_def)

lemma demo_info_ok: "info_strings_ok demo_info"
  by (simp add: info_strings_ok_def demo_info_def cstring_ok_ascii bytes_of_def)

theorem a2s_info_round_trip_witness:
  "parse_info (write_info_modern 48 225 (ascii (CHR ''d'')) (ascii (CHR ''l'')) demo_info) = Inr demo_info"
  using a2s_info_round_trip [OF demo_info_ok, of 48 225 "ascii (CHR ''d'')" "ascii (CHR ''l'')" "[]"]
  by (simp add: decode_server_type_def decode_environment_def) (simp add: demo_info_def)

lemma no_bytes_left: "read_u8 [] = Inl ''unexpected end of A2S response''"
  by (simp add: read_u8_def read_exact_def)

lemma mod_info_short: "\<not> is_ok (read_mod_info [b])"
  by (simp add: read_mod_info_def read_cstring_def is_ok_def)

lemma mod_info_shifted:
  assumes "cstring_ok (mi_url_info v)" and "cstring_ok (mi_url_dl v)" and "bytes_of (mi_url_info v) = b # bs"
  shows "read_mod_info (bs @ [0] @ write_cstring (mi_url_dl v) @ [0] @ write_le32 (mi_version v)
     @ write_le32 (mi_size v) @ [mi_svonly v, mi_cldll v] @ rest) = Inr ((), rest)"
proof -
  have "0 \<notin> set bs" using assms(1,3) by (auto simp: cstring_ok_def)
  then show ?thesis using assms(2)
    by (simp add: read_mod_info_def read_cstring_def [of "bs @ _"] cstring_loop_done wire_reads)
qed

text \<open>
  C36: a reply in the documented legacy layout is not understood as it was meant, because the parser
  reads a version byte the layout does not have.  Without mod block it is rejected; with the
  block of a mod that has a web address it is accepted, but the players shown are the places,
  the places are the protocol byte, the environment stands in the place of the server type and
  every server counts as protected by a password.
\<close>

theorem legacy_reply_misread:
  assumes "info_strings_ok i" and "cstring_ok address"
  shows "\<not> is_ok (parse_info (legacy_reply address protocol ty env None i))
    \<and> (mod_ok (Some v) \<and> mi_url_info v \<noteq> [] \<longrightarrow>
        parse_info (legacy_reply address protocol ty env (Some v) i) =
          Inr (i\<lparr>ai_players := max_players i, max_players := protocol, server_type := decode_server_type env,
            environment := decode_environment (if password_protected i then 1 else 0),
            password_protected := True, ai_version := []\<rparr>))"
proof (intro conjI impI)
  obtain e where e: "read_mod_info [bots i] = Inl e"
    using mod_info_short [of "bots i"] by (cases "read_mod_info [bots i]") (auto simp: is_ok_def)
  show "\<not> is_ok (parse_info (legacy_reply address protocol ty env None i))" using assms
    by (simp add: parse_info_def legacy_reply_def OOB_HEADER_def read_info_def
        read_info_legacy_def wire_reads info_strings_ok_def write_bool_def no_bytes_left is_ok_def e)
  assume v: "mod_ok (Some v) \<and> mi_url_info v \<noteq> []"
  then obtain b bs where b: "bytes_of (mi_url_info v) = b # bs"
    by (cases "bytes_of (mi_url_info v)") (auto simp: bytes_of_def)
  moreover have "b \<noteq> 0" using v b by (auto simp: mod_ok_def cstring_ok_def)
  moreover have "read_mod_info (bs @ 0 # write_cstring (mi_url_dl v) @ 0 # write_le32 (mi_version v)
     @ write_le32 (mi_size v) @ mi_svonly v # mi_cldll v # rest) = Inr ((), rest)" for rest
    using mod_info_shifted [OF _ _ b, of rest] v by (simp add: mod_ok_def)
  ultimately show "parse_info (legacy_reply address protocol ty env (Some v) i) =
        Inr (i\<lparr>ai_players := max_players i, max_players := protocol, server_type := decode_server_type env,
          environment := decode_environment (if password_protected i then 1 else 0),
          password_protected := True, ai_version := []\<rparr>)"
    using assms
    by (simp add: parse_info_def legacy_reply_def OOB_HEADER_def read_info_def write_mod_info_def write_cstring_def [of "mi_url_info v"]
        read_info_legacy_def wire_reads info_strings_ok_def write_bool_def)
qed

definition demo_mod :: mod_info where
  "demo_mod = \<lparr>mi_url_info = ''svencoop.com'', mi_url_dl = [], mi_version = 5, mi_size = 1, mi_svonly = 0, mi_cldll = 1\<rparr>"

theorem legacy_reply_misread_witness:
  "\<exists>j. parse_info (legacy_reply ''1.2.3.4'' 47 (ascii (CHR ''d'')) (ascii (CHR ''l'')) (Some demo_mod) demo_info) = Inr j
     \<and> ai_players demo_info = 3 \<and> ai_players j = 12 \<and> max_players j = 47 \<and> server_type j = ''listen''"
proof -
  have "cstring_ok ''1.2.3.4''" by (simp add: cstring_ok_ascii bytes_of_def)
  moreover have "mod_ok (Some demo_mod) \<and> mi_url_info demo_mod \<noteq> []"
    by (simp add: mod_ok_def demo_mod_def cstring_ok_ascii bytes_of_def)
  ultimately show ?thesis
    using legacy_reply_misread [OF demo_info_ok, of "''1.2.3.4''" 47 "ascii (CHR ''d'')" "ascii (CHR ''l'')" demo_mod]
    by (simp add: demo_info_def decode_server_type_def ascii_def)
qed

lemma parse_players_written:
  assumes "length ps \<le> 255" and "list_all (\<lambda>p. cstring_ok (ap_name p)) ps"
  shows "parse_players (write_players ps @ ext) = Inr ps"
proof -
  have n: "unat (word_of_nat (length ps) :: u8) = length ps" using assms(1) by simp
  show ?thesis
    using player.read_many_write [OF assms(2), of ext] n
    by (simp add: parse_players_def write_players_def OOB_HEADER_def read_players_def
        read_u8_def read_exact_def)
qed

text \<open>
  C23: a player list of at most 255 entries is parsed back entry by
  entry, scores and durations with all their bits.
\<close>

theorem a2s_players_round_trip:
  assumes "length ps \<le> 255" and "list_all (\<lambda>p. cstring_ok (ap_name p)) ps"
  shows "parse_players (write_players ps @ ext) = Inr ps"
  using parse_players_written [OF assms] .

theorem a2s_players_round_trip_witness:
  "parse_players (write_players
     [\<lparr>ap_index = 0, ap_name = ''gordon'', ap_score = -2, ap_duration = 0x42280000\<rparr>])
   = Inr [\<lparr>ap_index = 0, ap_name = ''gordon'', ap_score = -2, ap_duration = 0x42280000\<rparr>]"
proof -
  have "cstring_ok ''gordon''" by (simp add: cstring_ok_ascii bytes_of_def)
  then show ?thesis
    using a2s_players_round_trip
      [of "[\<lparr>ap_index = 0, ap_name = ''gordon'', ap_score = -2, ap_duration = 0x42280000\<rparr>]" "[]"]
    by simp
qed

lemma parse_info_extend: "parse_info resp = Inr i \<Longrightarrow> parse_info (resp @ ext) = Inr i"
  by (auto simp: parse_info_def rbind_eq_Inr dest: info.extend split: if_splits)

lemma parse_players_extend: "parse_players resp = Inr ps \<Longrightarrow> parse_players (resp @ ext) = Inr ps"
  by (auto simp: parse_players_def rbind_eq_Inr nth_append dest: players.extend split: if_splits)

lemma read_many_length: "read_many r n c = Inr (xs, rest) \<Longrightarrow> length xs = n"
  by (induction n arbitrary: c xs rest) (auto simp: rbind_eq_Inr)

lemma parse_players_count:
  assumes "parse_players resp = Inr ps"
  shows "length ps = unat (resp ! 5)"
proof -
  obtain b where b: "read_u8 (drop 5 resp) = Inr (b, drop 6 resp)" "b = resp ! 5"
    using assms by (auto simp: parse_players_def read_u8_def read_exact_def split: if_splits)
  then show ?thesis
    using assms read_many_length
    by (auto simp: parse_players_def read_players_def rbind_eq_Inr split: if_splits)
qed

lemma read_cstring_valid: "read_cstring c = Inr (s, rest) \<Longrightarrow> utf8_valid (bytes_of s)"
  by (auto simp: read_cstring_def rbind_eq_Inr from_utf8_lossy_def utf8_lossy_valid)

lemma read_many_all:
  "(\<And>c x rest. r c = Inr (x, rest) \<Longrightarrow> P x) \<Longrightarrow> read_many r n c = Inr (xs, rest) \<Longrightarrow> list_all P xs"
  by (induction n arbitrary: c xs rest) (auto simp: rbind_eq_Inr)

lemma read_player_valid: "read_player c = Inr (p, rest) \<Longrightarrow> utf8_valid (bytes_of (ap_name p))"
  by (auto simp: read_player_def rbind_eq_Inr dest: read_cstring_valid)

text \<open>The texts of a reply, the two that are decoded from one byte included.\<close>

definition info_texts :: "a2s_info \<Rightarrow> string list" where
  "info_texts i = [server_name i, ai_map i, game_dir i, game_description i, server_type i, environment i, ai_version i]"

lemma hex_digit_ascii: "d < 16 \<Longrightarrow> word_of_nat (of_char (hex_digit d)) < (0x80 :: u8)"
proof -
  assume "d < 16"
  then have "of_char (hex_digit d) < (128 :: nat)" by (simp add: hex_digit_def)
  then show ?thesis by (simp add: word_less_nat_alt unat_of_nat)
qed

lemma show_hex_byte_ascii: "\<forall>x\<in>set (bytes_of (show_hex_byte b)). x < 0x80"
proof -
  have "unat b < 256" using unsigned_less [of b] by simp
  then have "unat b div 16 < 16" "unat b mod 16 < 16" by auto
  then show ?thesis by (simp add: show_hex_byte_def bytes_of_def hex_digit_ascii)
qed

lemma decoded_valid:
  "utf8_valid (bytes_of (decode_server_type b))" "utf8_valid (bytes_of (decode_environment b))"
  "utf8_valid (bytes_of [])"
proof -
  have "utf8_valid (bytes_of (show_hex_byte b))"
    by (rule utf8_valid_ascii) (rule show_hex_byte_ascii)
  moreover have "utf8_valid (bytes_of ''dedicated'')" "utf8_valid (bytes_of ''listen'')" "utf8_valid (bytes_of ''proxy'')"
    "utf8_valid (bytes_of ''linux'')" "utf8_valid (bytes_of ''windows'')" "utf8_valid (bytes_of ''mac'')"
    by (rule utf8_valid_ascii; simp add: bytes_of_def)+
  ultimately show "utf8_valid (bytes_of (decode_server_type b))" "utf8_valid (bytes_of (decode_environment b))"
    by (simp_all add: decode_server_type_def decode_environment_def)
  show "utf8_valid (bytes_of [])" by (rule utf8_valid_ascii) (simp add: bytes_of_def)
qed

text \<open>
  C24: a reply that parses has been understood completely: whatever follows it
  changes nothing, a player list has exactly as many entries as its count byte says, and
  every text in the result (name, map, directory, description, type, environment and version of the server
  and the name of every player) is valid UTF-8.
\<close>

theorem a2s_parse_stable:
  assumes "parse_info resp = Inr i" and "parse_players presp = Inr ps"
  shows "parse_info (resp @ ext) = Inr i \<and> parse_players (presp @ ext) = Inr ps
     \<and> length ps = unat (presp ! 5)
     \<and> list_all (\<lambda>p. utf8_valid (bytes_of (ap_name p))) ps
     \<and> list_all (\<lambda>s. utf8_valid (bytes_of s)) (info_texts i)"
proof -
  have "list_all (\<lambda>p. utf8_valid (bytes_of (ap_name p))) ps"
    using assms(2) read_many_all [of read_player "\<lambda>p. utf8_valid (bytes_of (ap_name p))"] read_player_valid
    by (auto simp: parse_players_def read_players_def rbind_eq_Inr split: if_splits)
  moreover have "list_all (\<lambda>s. utf8_valid (bytes_of s)) (info_texts i)"
    using assms(1)
    by (auto simp: parse_info_def read_info_def read_info_modern_def read_info_legacy_def rbind_eq_Inr info_texts_def
        decoded_valid dest: read_cstring_valid split: if_splits)
  ultimately show ?thesis
    using parse_info_extend [OF assms(1)] parse_players_extend [OF assms(2)]
      parse_players_count [OF assms(2)] by simp
qed

definition demo_info_reply :: bytes where
  "demo_info_reply = write_info_modern 48 225 (ascii (CHR ''d'')) (ascii (CHR ''l'')) demo_info"

definition demo_player :: a2s_player where
  "demo_player = \<lparr>ap_index = 0, ap_name = ''gordon'', ap_score = -2, ap_duration = 0x42280000\<rparr>"

lemma demo_info_reply_parses: "parse_info demo_info_reply = Inr demo_info"
  using parse_info_written [OF demo_info_ok, of 48 225 "ascii (CHR ''d'')" "ascii (CHR ''l'')" "[]"]
  by (simp add: decode_server_type_def decode_environment_def demo_info_reply_def) (simp add: demo_info_def)

lemma demo_players_parse: "parse_players (write_players [demo_player]) = Inr [demo_player]"
proof -
  have "cstring_ok (ap_name demo_player)" by (simp add: demo_player_def cstring_ok_ascii bytes_of_def)
  then show ?thesis using parse_players_written [of "[demo_player]" "[]"] by simp
qed

theorem a2s_parse_stable_witness:
  "parse_info (demo_info_reply @ [1, 2]) = Inr demo_info
   \<and> parse_players (write_players [demo_player] @ [1, 2]) = Inr [demo_player]"
  using a2s_parse_stable [OF demo_info_reply_parses demo_players_parse, of "[1, 2]"] by blast

subsection \<open>The conversation\<close>

text \<open>
  What a client of the protocol has to send, as a specification of its own.  A challenge is the
  header, the letter \<open>A\<close> and four bytes; it is answered by the request with these four bytes.
\<close>

fun challenge_of :: "bytes \<Rightarrow> bytes option" where
  "challenge_of (h0 # h1 # h2 # h3 # t # a # b # c # d # rest) =
     (if [h0, h1, h2, h3] = OOB_HEADER \<and> t = ascii (CHR ''A'') then Some [a, b, c, d] else None)"
| "challenge_of _ = None"

definition asked_again :: "network \<Rightarrow> bytes list \<Rightarrow> (bytes \<Rightarrow> bytes) \<Rightarrow> bytes list" where
  "asked_again net sent request =
     (case net sent of
        Inl _ \<Rightarrow> []
      | Inr reply \<Rightarrow> (case challenge_of (take A2S_RECV_BUF reply) of None \<Rightarrow> [] | Some ch \<Rightarrow> [request ch]))"

definition info_requests :: "network \<Rightarrow> bytes list" where
  "info_requests net = INFO_REQUEST # asked_again net [INFO_REQUEST] (\<lambda>ch. INFO_REQUEST @ ch)"

definition player_requests :: "network \<Rightarrow> bytes list" where
  "player_requests net =
     (let first = OOB_HEADER @ bytes_of ''U'' @ [0xFF, 0xFF, 0xFF, 0xFF]
      in first # asked_again net (info_requests net @ [first]) (\<lambda>ch. OOB_HEADER @ bytes_of ''U'' @ ch))"

text \<open>The value of the reply to the last of the requests.\<close>

definition final_reply :: "network \<Rightarrow> bytes list \<Rightarrow> (bytes \<Rightarrow> 'a result) \<Rightarrow> 'a option" where
  "final_reply net sent parse = ok_opt (rbind (net sent) (\<lambda>reply. parse (take A2S_RECV_BUF reply)))"

lemma challenge_of_Some:
  "challenge_of resp = Some ch \<longleftrightarrow> is_challenge resp \<and> 9 \<le> length resp \<and> ch = take 4 (drop 5 resp)"
  by (cases resp rule: challenge_of.cases) (auto simp: is_challenge_def OOB_HEADER_def)

lemma parse_info_challenge: "is_challenge resp \<Longrightarrow> ok_opt (parse_info resp) = None"
proof -
  assume c: "is_challenge resp"
  then have "drop 4 resp = ascii (CHR ''A'') # drop 5 resp" using Cons_nth_drop_Suc [of 4 resp] by (simp add: is_challenge_def)
  moreover have "ascii (CHR ''A'') \<noteq> ascii (CHR ''I'')" "ascii (CHR ''A'') \<noteq> ascii (CHR ''m'')" by (simp_all add: ascii_def)
  ultimately show ?thesis by (simp add: parse_info_def read_info_def read_u8_def read_exact_def)
qed

lemma query_info_spec:
  assumes "query_info net [] = (r, sent)"
  shows "sent = info_requests net \<and> ok_opt r = final_reply net (info_requests net) parse_info"
proof (cases "net [INFO_REQUEST]")
  case (Inl e)
  then show ?thesis using assms
    by (auto simp: query_info_def send_recv_def info_requests_def asked_again_def final_reply_def)
next
  case (Inr reply)
  let ?resp = "take A2S_RECV_BUF reply"
  show ?thesis
  proof (cases "challenge_of ?resp")
    case None
    then have "is_challenge ?resp \<Longrightarrow> length ?resp < 9" using challenge_of_Some [of ?resp] by (metis not_less option.simps(3))
    then have "ok_opt r = ok_opt (parse_info ?resp) \<and> sent = [INFO_REQUEST]"
      using assms Inr parse_info_challenge [of ?resp]
      by (simp add: query_info_def send_recv_def del: length_take split: if_splits) auto
    then show ?thesis using None Inr by (simp add: info_requests_def asked_again_def final_reply_def)
  next
    case (Some ch)
    then have "is_challenge ?resp" "\<not> length ?resp < 9" "ch = take 4 (drop 5 ?resp)"
      by (auto simp: challenge_of_Some)
    then show ?thesis using assms Inr Some
      by (auto simp: query_info_def send_recv_def info_requests_def asked_again_def final_reply_def rbind_def
          split: sum.splits)
  qed
qed

lemma read_cstring_length: "read_cstring c = Inr (s, rest) \<Longrightarrow> length rest < length c"
  by (auto simp: read_cstring_def rbind_eq_Inr dest!: cstring_loop_split)

lemma read_player_long: "read_player c = Inr (p, rest) \<Longrightarrow> 10 \<le> length c"
  by (auto simp: read_player_def rbind_eq_Inr read_u8_def read_i32le_def read_f32le_def read_exact_def
      dest!: read_cstring_length split: if_splits)

lemma parse_players_short:
  assumes "length resp < 9"
  shows "unwrap_or [] (parse_players resp) = []"
proof (cases "parse_players resp")
  case (Inr ps)
  have "read_many read_player n c = Inr (xs, rest) \<Longrightarrow> length c < 9 \<Longrightarrow> xs = []" for n c xs rest
    by (cases n) (auto simp: rbind_eq_Inr dest: read_player_long)
  then show ?thesis using Inr assms
    by (auto simp: parse_players_def read_players_def rbind_eq_Inr read_u8_def read_exact_def split: if_splits)
qed simp

lemma parse_players_type:
  "resp ! 4 \<noteq> ascii (CHR ''D'') \<or> take 4 resp \<noteq> OOB_HEADER \<Longrightarrow> unwrap_or [] (parse_players resp) = []"
  by (auto simp: parse_players_def)

lemma player_request_text:
  "PLAYER_REQUEST ch = OOB_HEADER @ bytes_of ''U'' @ ch" "PLAYER_REQUEST = (\<lambda>ch. OOB_HEADER @ bytes_of ''U'' @ ch)"
  by (simp_all add: fun_eq_iff PLAYER_REQUEST_def bytes_of_def ascii_def)

lemma query_players_spec:
  assumes "query_players net sent = (r, sent')"
  shows "sent' = sent @ PLAYER_REQUEST [0xFF, 0xFF, 0xFF, 0xFF]
        # asked_again net (sent @ [PLAYER_REQUEST [0xFF, 0xFF, 0xFF, 0xFF]]) PLAYER_REQUEST
     \<and> unwrap_or [] r = (case final_reply net sent' parse_players of None \<Rightarrow> [] | Some ps \<Rightarrow> ps)"
proof (cases "net (sent @ [PLAYER_REQUEST [0xFF, 0xFF, 0xFF, 0xFF]])")
  case (Inl e)
  then show ?thesis using assms
    by (auto simp: query_players_def send_recv_def asked_again_def final_reply_def)
next
  case (Inr reply)
  define first where "first = sent @ [PLAYER_REQUEST [0xFF, 0xFF, 0xFF, 0xFF]]"
  define resp where "resp = take A2S_RECV_BUF reply"
  have reply: "send_recv net (PLAYER_REQUEST [0xFF, 0xFF, 0xFF, 0xFF]) sent = (Inr resp, first)" "net first = Inr reply"
    using Inr by (simp_all add: send_recv_def resp_def first_def)
  have opt: "unwrap_or [] q = (case ok_opt q of None \<Rightarrow> [] | Some ps \<Rightarrow> ps)" for q :: "a2s_player list result"
    by (cases q) simp_all
  have "sent' = first @ asked_again net first PLAYER_REQUEST
     \<and> unwrap_or [] r = (case final_reply net sent' parse_players of None \<Rightarrow> [] | Some ps \<Rightarrow> ps)"
  proof (cases "challenge_of resp")
    case None
    then have "\<not> (9 \<le> length resp \<and> take 4 resp = OOB_HEADER \<and> resp ! 4 = ascii (CHR ''A''))"
      using challenge_of_Some [of resp] by (fastforce simp: is_challenge_def)
    then have "unwrap_or [] r = unwrap_or [] (parse_players resp) \<and> sent' = first"
      using assms parse_players_short [of resp] parse_players_type [of resp]
      by (auto simp: query_players_def reply(1) split: if_splits)
    then show ?thesis using None reply(2) by (simp add: asked_again_def final_reply_def opt resp_def)
  next
    case (Some ch)
    then have c: "9 \<le> length resp" "take 4 resp = OOB_HEADER" "resp ! 4 = ascii (CHR ''A'')" "ch = take 4 (drop 5 resp)"
      by (auto simp: challenge_of_Some is_challenge_def)
    then have q: "(case send_recv net (PLAYER_REQUEST ch) first of
        (Inl e, sent) \<Rightarrow> (Inl e, sent) | (Inr resp, sent) \<Rightarrow> (parse_players resp, sent)) = (r, sent')"
      using assms by (simp add: query_players_def reply(1))
    have again: "asked_again net first PLAYER_REQUEST = [PLAYER_REQUEST ch]"
      using Some reply(2) by (simp add: asked_again_def resp_def)
    show ?thesis using q
      by (cases "net (first @ [PLAYER_REQUEST ch])") (auto simp: again send_recv_def final_reply_def opt)
  qed
  then show ?thesis by (simp add: first_def)
qed

text \<open>
  C21: once the socket is open, a query sends the info request, and if the reply is a challenge
  the request again with the four challenge bytes behind it; the reply to the last of these is the
  info, and without one the query fails.  Then it does the same with the player request,
  the challenge bytes in the place of the four bytes \<open>FF\<close>; the player list is what the reply
  to the last request holds, and empty when there is none.  No other datagram is sent.
\<close>

theorem a2s_conversation:
  "case query net bind connect of (res, sent) \<Rightarrow>
     (if \<not> (is_ok bind \<and> is_ok connect) then sent = [] \<and> \<not> is_ok res
      else case final_reply net (info_requests net) parse_info of
        None \<Rightarrow> sent = info_requests net \<and> \<not> is_ok res
      | Some info \<Rightarrow> sent = info_requests net @ player_requests net
          \<and> res = Inr \<lparr>st_info = info, players_list = (case final_reply net sent parse_players of None \<Rightarrow> [] | Some ps \<Rightarrow> ps)\<rparr>)"
proof (cases "rbind bind (\<lambda>_. connect)")
  case (Inl e)
  then show ?thesis by (auto simp: query_def rbind_eq_Inl is_ok_def)
next
  case (Inr u)
  then have ok: "is_ok bind" "is_ok connect" by (auto simp: rbind_eq_Inr)
  obtain ri si where i: "query_info net [] = (ri, si)" by fastforce
  obtain rp sp where p: "query_players net (info_requests net) = (rp, sp)" by fastforce
  note info = query_info_spec [OF i] and players = query_players_spec [OF p]
  have sp: "sp = info_requests net @ player_requests net"
    using players by (simp add: player_requests_def Let_def player_request_text(2))
  show ?thesis
  proof (cases ri)
    case (Inl e)
    then show ?thesis using ok Inr i info by (simp add: query_def is_ok_def)
  next
    case (Inr v)
    then have a: "final_reply net (info_requests net) parse_info = Some v" and i': "query_info net [] = (Inr v, info_requests net)"
      using info i by simp_all
    have list: "unwrap_or [] rp = (case final_reply net sp parse_players of None \<Rightarrow> [] | Some ps \<Rightarrow> ps)"
      using players by blast
    have "query net bind connect = (Inr \<lparr>st_info = v, players_list = unwrap_or [] rp\<rparr>, sp)"
      using \<open>rbind bind (\<lambda>_. connect) = Inr u\<close> by (simp add: query_def i' p)
    then show ?thesis using ok a sp list by simp
  qed
qed

text \<open>A network with one server: it challenges both queries and then answers.\<close>

definition demo_net :: network where
  "demo_net sent =
     (if last sent = INFO_REQUEST @ [5, 6, 7, 8] then Inr demo_info_reply
      else if last sent = PLAYER_REQUEST [1, 2, 3, 4] then Inr (write_players [demo_player])
      else if last sent = INFO_REQUEST then Inr (OOB_HEADER @ [ascii (CHR ''A''), 5, 6, 7, 8])
      else Inr (OOB_HEADER @ [ascii (CHR ''A''), 1, 2, 3, 4]))"

theorem a2s_conversation_witness:
  "query demo_net (Inr ()) (Inr ()) =
     (Inr \<lparr>st_info = demo_info, players_list = [demo_player]\<rparr>,
      [INFO_REQUEST, INFO_REQUEST @ [5, 6, 7, 8], PLAYER_REQUEST [0xFF, 0xFF, 0xFF, 0xFF], PLAYER_REQUEST [1, 2, 3, 4]])"
proof -
  obtain res sent where q: "query demo_net (Inr ()) (Inr ()) = (res, sent)" by fastforce
  have short: "take A2S_RECV_BUF demo_info_reply = demo_info_reply"
    "take A2S_RECV_BUF (write_players [demo_player]) = write_players [demo_player]"
    by (simp_all add: demo_info_reply_def write_info_modern_def OOB_HEADER_def A2S_RECV_BUF_def write_players_def write_player_def
        demo_player_def demo_info_def write_cstring_def write_le16_def write_le32_def write_bool_def bytes_of_def)
  have ne: "PLAYER_REQUEST xs \<noteq> INFO_REQUEST @ ys" "PLAYER_REQUEST xs \<noteq> INFO_REQUEST" for xs ys
    by (simp_all add: PLAYER_REQUEST_def INFO_REQUEST_def OOB_HEADER_def ascii_def)
  have inj: "PLAYER_REQUEST xs = PLAYER_REQUEST ys \<longleftrightarrow> xs = ys" for xs ys by (simp add: PLAYER_REQUEST_def)
  have i: "info_requests demo_net = [INFO_REQUEST, INFO_REQUEST @ [5, 6, 7, 8]]"
    by (simp add: info_requests_def asked_again_def demo_net_def A2S_RECV_BUF_def OOB_HEADER_def ne [symmetric])
  have p: "player_requests demo_net = [PLAYER_REQUEST [0xFF, 0xFF, 0xFF, 0xFF], PLAYER_REQUEST [1, 2, 3, 4]]"
    unfolding player_requests_def i
    by (simp add: asked_again_def player_request_text(1) [symmetric] demo_net_def ne inj A2S_RECV_BUF_def)
      (simp add: OOB_HEADER_def player_request_text(1))
  have ai: "final_reply demo_net (info_requests demo_net) parse_info = Some demo_info"
    by (simp add: i final_reply_def demo_net_def short demo_info_reply_parses)
  have ap: "final_reply demo_net (info_requests demo_net @ player_requests demo_net) parse_players = Some [demo_player]"
    by (simp add: i p final_reply_def demo_net_def ne inj short demo_players_parse)
  show ?thesis
    using a2s_conversation [of "Inr ()" "Inr ()" demo_net] ai ap by (simp add: q i p is_ok_def)
qed

end
