(* ===== verification/Host.thy ===== *)
theory Host
  imports Bridge_Config Utf8 "HOL-Library.AList" "HOL-Library.Sublist"
begin

text \<open>
  The computer the controller runs on, as far as its sources use the standard library:
  files, directories and child processes.  A system call is a function from the host to a
  result and the host after it; \<open>host_env\<close> says what the outside world answers.  Any
  system call may fail: \<open>he_fault\<close> is asked with the number of the call.  A failed call that
  writes may have done a part of its work first; \<open>he_torn\<close> says how far it got.

  The file system maps path texts to nodes, in the order in which directories list them.
  The separator is the slash of Unix.
\<close>

datatype node = File (content: bytes) (mode_x: bool) | Dir

type_synonym files = "(path \<times> node) list"

text \<open>\<open>cmd_dir\<close> is the working directory, \<open>None\<close> when the child inherits that of the program.\<close>

record command =
  program :: string
  cmd_args :: "string list"
  cmd_dir :: "path option"

record proc_output =
  po_success :: bool
  po_status :: string
  po_stdout :: bytes
  po_stderr :: bytes

datatype http_response = HttpSuccess "string + bytes" | HttpStatus nat | HttpError string

record host_env =
  he_fault :: "nat \<Rightarrow> string option"
  he_torn :: "nat \<Rightarrow> nat option"
  he_http_client :: "string + unit"
  he_http_get :: "nat \<Rightarrow> string \<Rightarrow> http_response"
  he_exec :: "nat \<Rightarrow> command \<Rightarrow> files \<Rightarrow> proc_output \<times> files"
  he_canonicalize :: "path \<Rightarrow> string + path"
  he_var :: "string \<Rightarrow> string option"
  he_home :: "path option"

record host =
  h_files :: files
  h_calls :: nat
  h_urls :: "string list"
  h_commands :: "command list"

text \<open>
  \<open>po_status\<close> is the rendered exit status.
  \<open>h_urls\<close> and \<open>h_commands\<close> record the downloads and the child processes.
\<close>

type_synonym ('a, 's) st = "'s \<Rightarrow> 'a result \<times> 's"
type_synonym 'a io = "('a, host) st"

definition io_ret :: "'a \<Rightarrow> ('a, 's) st" where "io_ret x h = (Inr x, h)"
definition io_of :: "'a result \<Rightarrow> ('a, 's) st" where "io_of r h = (r, h)"

definition io_bind :: "('a, 's) st \<Rightarrow> ('a \<Rightarrow> ('b, 's) st) \<Rightarrow> ('b, 's) st" where
  "io_bind m f h = (case m h of (Inl e, g) \<Rightarrow> (Inl e, g) | (Inr x, g) \<Rightarrow> f x g)"

definition io_context :: "string \<Rightarrow> ('a, 's) st \<Rightarrow> ('a, 's) st" where
  "io_context what m h = (case m h of (r, g) \<Rightarrow> (with_context what r, g))"

text \<open>The outcome as a value: a \<open>match\<close> on the result of a call.\<close>

definition io_try :: "('a, 's) st \<Rightarrow> ('a result, 's) st" where
  "io_try m h = (case m h of (r, g) \<Rightarrow> (Inr r, g))"

subsection \<open>Paths\<close>

fun drop_slashes :: "path \<Rightarrow> path" where
  "drop_slashes [] = []"
| "drop_slashes (c # cs) = (if c = CHR ''/'' then drop_slashes cs else c # cs)"

definition trim_slashes :: "path \<Rightarrow> path" where
  "trim_slashes p = rev (drop_slashes (rev p))"

definition path_parent :: "path \<Rightarrow> path option" where
  "path_parent p =
     (let q = trim_slashes p in
      if q = [] then None
      else case rfind_char (CHR ''/'') q of
        None \<Rightarrow> Some []
      | Some i \<Rightarrow> (let r = trim_slashes (take i q) in Some (if r = [] then ''/'' else r)))"

text \<open>\<open>Path::file_name\<close>, \<open>extension\<close> and \<open>file_stem\<close> of a directory entry's name.\<close>

definition name_extension :: "string \<Rightarrow> string option" where
  "name_extension n =
     (case rfind_char (CHR ''.'') n of None \<Rightarrow> None | Some 0 \<Rightarrow> None | Some i \<Rightarrow> Some (drop (Suc i) n))"

definition name_stem :: "string \<Rightarrow> string" where
  "name_stem n = (case rfind_char (CHR ''.'') n of None \<Rightarrow> n | Some 0 \<Rightarrow> n | Some i \<Rightarrow> take i n)"

subsection \<open>The file system\<close>

definition node_at :: "files \<Rightarrow> path \<Rightarrow> node option" where
  "node_at fs p = (if p = ''/'' then Some Dir else map_of fs p)"

definition dir_ok :: "files \<Rightarrow> path \<Rightarrow> bool" where
  "dir_ok fs p \<longleftrightarrow> (p = [] \<or> node_at fs p = Some Dir)"

definition dir_prefixes :: "path \<Rightarrow> path list" where
  "dir_prefixes p = map (\<lambda>i. take i p) (filter (\<lambda>i. 0 < i \<and> p ! i = CHR ''/'') [0..<length p]) @ [p]"

definition make_dir :: "path \<Rightarrow> files \<Rightarrow> files" where
  "make_dir p fs = (if node_at fs p = None then fs @ [(p, Dir)] else fs)"

definition put_file :: "path \<Rightarrow> bytes \<Rightarrow> files \<Rightarrow> files" where
  "put_file p bs fs =
     (case node_at fs p of
        Some (File _ x) \<Rightarrow> AList.update p (File bs x) fs
      | _ \<Rightarrow> AList.update p (File bs False) fs)"

text \<open>The names under a directory, in the order of the listing.\<close>

definition child_name :: "path \<Rightarrow> path \<Rightarrow> string option" where
  "child_name d p =
     (let n = drop (Suc (length d)) p in
      if n \<noteq> [] \<and> CHR ''/'' \<notin> set n \<and> p = path_join d n then Some n else None)"

definition children :: "path \<Rightarrow> files \<Rightarrow> string list" where
  "children d fs = List.map_filter (\<lambda>(p, _). child_name d p) fs"

subsection \<open>System calls\<close>

definition syscall :: "host_env \<Rightarrow> (files \<Rightarrow> 'a result \<times> files) \<Rightarrow> 'a io" where
  "syscall env f h =
     (let g = h\<lparr>h_calls := Suc (h_calls h)\<rparr> in
      case he_fault env (h_calls h) of
        Some e \<Rightarrow> (Inl e, g)
      | None \<Rightarrow> (case f (h_files h) of (r, fs) \<Rightarrow> (r, g\<lparr>h_files := fs\<rparr>)))"

text \<open>A call that fails half way: \<open>part k\<close> is what \<open>k\<close> steps of it have done.\<close>

definition torn :: "host_env \<Rightarrow> (nat \<Rightarrow> files \<Rightarrow> files) \<Rightarrow> 'a io \<Rightarrow> 'a io" where
  "torn env part m h =
     (case m h of
        (Inr x, g) \<Rightarrow> (Inr x, g)
      | (Inl e, g) \<Rightarrow>
          (case (he_fault env (h_calls h), he_torn env (h_calls h)) of
             (Some _, Some k) \<Rightarrow> (Inl e, g\<lparr>h_files := part k (h_files g)\<rparr>)
           | _ \<Rightarrow> (Inl e, g)))"

lemma torn_eq_Inr [simp]: "torn env part m h = (Inr x, g) \<longleftrightarrow> m h = (Inr x, g)"
  by (auto simp: torn_def split: prod.split sum.split option.split)

lemma torn_no_fault [simp]: "he_fault env (h_calls h) = None \<Longrightarrow> torn env part m h = m h"
  by (auto simp: torn_def split: prod.split sum.split)

lemma torn_frame:
  "h_urls (snd (torn env part m h)) = h_urls (snd (m h))" "h_commands (snd (torn env part m h)) = h_commands (snd (m h))"
  "h_calls (snd (torn env part m h)) = h_calls (snd (m h))"
  by (auto simp: torn_def split: prod.split sum.split option.split)

definition fs_metadata :: "host_env \<Rightarrow> path \<Rightarrow> node io" where
  "fs_metadata env p = syscall env (\<lambda>fs. (ok_or ''not found'' (node_at fs p), fs))"

text \<open>\<open>Path::exists\<close>: an error counts as no.\<close>

definition fs_exists :: "host_env \<Rightarrow> path \<Rightarrow> bool io" where
  "fs_exists env p = io_bind (io_try (fs_metadata env p)) (\<lambda>r. io_ret (is_ok r))"

definition file_on_way :: "path \<Rightarrow> files \<Rightarrow> bool" where
  "file_on_way p fs \<longleftrightarrow> list_ex (\<lambda>q. case node_at fs q of Some (File _ _) \<Rightarrow> True | _ \<Rightarrow> False) (dir_prefixes p)"

definition fs_create_dir_all :: "host_env \<Rightarrow> path \<Rightarrow> unit io" where
  "fs_create_dir_all env p =
     torn env (\<lambda>k fs. if file_on_way p fs then fs else fold make_dir (take k (dir_prefixes p)) fs) (syscall env (\<lambda>fs.
       if file_on_way p fs then (Inl ''not a directory'', fs) else (Inr (), fold make_dir (dir_prefixes p) fs)))"

text \<open>
  \<open>File::create\<close> and \<open>fs::write\<close>: the parent must be there, an existing file keeps its mode.  The file
  is emptied first and then filled, so a failed write can leave an initial part of the text.
\<close>

definition parent_there :: "path \<Rightarrow> files \<Rightarrow> bool" where
  "parent_there p fs \<longleftrightarrow> (case path_parent p of None \<Rightarrow> False | Some d \<Rightarrow> dir_ok fs d)"

definition fs_write :: "host_env \<Rightarrow> path \<Rightarrow> bytes \<Rightarrow> unit io" where
  "fs_write env p bs =
     torn env (\<lambda>k fs. if node_at fs p \<noteq> Some Dir \<and> parent_there p fs then put_file p (take k bs) fs else fs) (syscall env (\<lambda>fs.
       if node_at fs p = Some Dir then (Inl ''is a directory'', fs)
       else if parent_there p fs then (Inr (), put_file p bs fs) else (Inl ''not found'', fs)))"

definition fs_read_to_string :: "host_env \<Rightarrow> path \<Rightarrow> string io" where
  "fs_read_to_string env p = syscall env (\<lambda>fs.
     (case node_at fs p of
        None \<Rightarrow> Inl ''not found''
      | Some Dir \<Rightarrow> Inl ''is a directory''
      | Some (File bs _) \<Rightarrow> ok_or ''stream did not contain valid UTF-8'' (from_utf8 bs), fs))"

definition fs_read :: "host_env \<Rightarrow> path \<Rightarrow> bytes io" where
  "fs_read env p = syscall env (\<lambda>fs.
     (case node_at fs p of
        None \<Rightarrow> Inl ''not found''
      | Some Dir \<Rightarrow> Inl ''is a directory''
      | Some (File bs _) \<Rightarrow> Inr bs, fs))"

definition fs_read_dir :: "host_env \<Rightarrow> path \<Rightarrow> string list io" where
  "fs_read_dir env p = syscall env (\<lambda>fs.
     (if dir_ok fs p \<and> p \<noteq> [] then Inr (children p fs) else Inl ''not a directory'', fs))"

text \<open>A child process that is run to its end, with its output.\<close>

definition run_command :: "host_env \<Rightarrow> command \<Rightarrow> proc_output io" where
  "run_command env c h =
     (let g = h\<lparr>h_calls := Suc (h_calls h)\<rparr> in
      case he_fault env (h_calls h) of
        Some e \<Rightarrow> (Inl e, g)
      | None \<Rightarrow> (case he_exec env (h_calls h) c (h_files h) of (out, fs) \<Rightarrow>
          (Inr out, g\<lparr>h_files := fs, h_commands := h_commands h @ [c]\<rparr>)))"

definition http_get :: "host_env \<Rightarrow> string \<Rightarrow> http_response io" where
  "http_get env url h =
     (Inr (he_http_get env (h_calls h) url),
      h\<lparr>h_calls := Suc (h_calls h), h_urls := h_urls h @ [url]\<rparr>)"

subsection \<open>Reasoning about system calls\<close>

lemma io_simps [simp]:
  "io_ret x h = (Inr x, h)" "io_of r h = (r, h)"
  by (simp_all add: io_ret_def io_of_def)

lemma io_bind_eq_Inr:
  "io_bind m f h = (Inr y, h') \<longleftrightarrow> (\<exists>x g. m h = (Inr x, g) \<and> f x g = (Inr y, h'))"
  by (cases "m h"; cases "fst (m h)") (auto simp: io_bind_def)

lemma io_bind_eq_Inl:
  "io_bind m f h = (Inl e, h') \<longleftrightarrow>
     m h = (Inl e, h') \<or> (\<exists>x g. m h = (Inr x, g) \<and> f x g = (Inl e, h'))"
  by (cases "m h"; cases "fst (m h)") (auto simp: io_bind_def)

lemma io_bind_step:
  "m h = (Inr x, g) \<Longrightarrow> io_bind m f h = f x g"
  "m h = (Inl e, g) \<Longrightarrow> io_bind m f h = (Inl e, g)"
  by (simp_all add: io_bind_def)

lemma io_try_eq: "io_try m h = (Inr (fst (m h)), snd (m h))"
  by (simp add: io_try_def split: prod.splits)

lemma io_bind_try: "io_bind (io_try m) f h = f (fst (m h)) (snd (m h))"
  by (simp add: io_bind_def io_try_eq)

lemma io_context_eq: "io_context what m h = (with_context what (fst (m h)), snd (m h))"
  by (simp add: io_context_def split: prod.splits)

lemma io_context_eq_Inr: "io_context what m h = (Inr x, g) \<longleftrightarrow> m h = (Inr x, g)"
  by (cases "m h") (simp add: io_context_eq with_context_eq_Inr)

lemma fs_exists_eq:
  "fs_exists env p h = (Inr (he_fault env (h_calls h) = None \<and> node_at (h_files h) p \<noteq> None),
     h\<lparr>h_calls := Suc (h_calls h)\<rparr>)"
  by (auto simp: fs_exists_def io_bind_def io_try_eq fs_metadata_def syscall_def Let_def is_ok_def
      ok_or_def split: option.splits)

text \<open>
  A relation between the states before and after an operation that holds of doing nothing and of
  one thing after another holds of every composition.
\<close>

locale io_frame =
  fixes R :: "'s \<Rightarrow> 's \<Rightarrow> bool"
  assumes stays: "\<And>h. R h h"
    and in_turn: "\<And>a b c. R a b \<Longrightarrow> R b c \<Longrightarrow> R a c"
begin

definition keeps :: "('a, 's) st \<Rightarrow> bool" where
  "keeps m \<longleftrightarrow> (\<forall>h. R h (snd (m h)))"

lemma keepsD: "keeps m \<Longrightarrow> m h = (r, g) \<Longrightarrow> R h g"
  by (metis keeps_def snd_conv)

lemma keeps_ret [simp]: "keeps (io_ret x)" "keeps (io_of r)"
  by (simp_all add: keeps_def stays)

text \<open>Simplification turns both into a bare pair.\<close>

lemma keeps_Pair [simp]: "keeps (Pair r)"
  by (simp add: keeps_def stays)

lemma keeps_bind:
  assumes "keeps m" and "\<And>x. keeps (f x)"
  shows "keeps (io_bind m f)"
  unfolding keeps_def
proof
  fix h
  obtain r g where m: "m h = (r, g)" by fastforce
  have "R h g" using keepsD [OF assms(1) m] .
  moreover have "R g (snd (f x g))" for x using assms(2) by (simp add: keeps_def)
  ultimately show "R h (snd (io_bind m f h))"
    using m in_turn by (cases r) (auto simp: io_bind_def)
qed

lemma keeps_try: "keeps m \<Longrightarrow> keeps (io_try m)"
  by (simp add: keeps_def io_try_eq)

lemma keeps_context: "keeps m \<Longrightarrow> keeps (io_context what m)"
  by (simp add: keeps_def io_context_eq)

end

interpretation logs: io_frame
  "\<lambda>a b. prefix (h_urls a) (h_urls b) \<and> prefix (h_commands a) (h_commands b) \<and> h_calls a \<le> h_calls b"
  by unfold_locales (auto intro: prefix_order.trans)

interpretation no_process: io_frame "\<lambda>a b. h_commands b = h_commands a"
  by unfold_locales auto

interpretation no_download: io_frame "\<lambda>a b. h_urls b = h_urls a"
  by unfold_locales auto

lemma syscall_frame:
  "snd (syscall env f h) = g \<Longrightarrow> h_urls g = h_urls h \<and> h_commands g = h_commands h
     \<and> h_calls g = Suc (h_calls h)"
  by (auto simp: syscall_def Let_def split: option.splits prod.splits)

lemma syscall_keeps [simp]:
  "logs.keeps (syscall env f)" "no_process.keeps (syscall env f)" "no_download.keeps (syscall env f)"
  by (simp_all add: logs.keeps_def no_process.keeps_def no_download.keeps_def syscall_frame [OF refl])

lemma fs_calls_keep [simp]:
  "logs.keeps (fs_exists env p)" "no_process.keeps (fs_exists env p)" "no_download.keeps (fs_exists env p)"
  "logs.keeps (fs_create_dir_all env p)" "no_process.keeps (fs_create_dir_all env p)"
  "no_download.keeps (fs_create_dir_all env p)"
  "logs.keeps (fs_write env p bs)" "no_process.keeps (fs_write env p bs)"
  "no_download.keeps (fs_write env p bs)"
  by (simp_all add: fs_create_dir_all_def fs_write_def logs.keeps_def no_process.keeps_def
      no_download.keeps_def fs_exists_eq torn_frame syscall_frame [OF refl])

lemma run_command_keeps [simp]: "logs.keeps (run_command env c)" "no_download.keeps (run_command env c)"
  by (auto simp: logs.keeps_def no_download.keeps_def run_command_def Let_def
      split: option.splits prod.splits)

lemma http_get_keeps [simp]: "logs.keeps (http_get env url)" "no_process.keeps (http_get env url)"
  by (auto simp: logs.keeps_def no_process.keeps_def http_get_def)

lemma node_at_make_dir: "node_at (make_dir q fs) p = (if p = q \<and> node_at fs p = None then Some Dir else node_at fs p)"
  by (auto simp: make_dir_def node_at_def map_add_def split: option.splits if_splits)

lemma node_at_put_file:
  "p \<noteq> ''/'' \<Longrightarrow> \<exists>x. node_at (put_file p bs fs) p = Some (File bs x)"
  by (auto simp: put_file_def node_at_def update_conv' split: option.splits node.splits)

lemma node_at_put_file_other: "q \<noteq> p \<Longrightarrow> node_at (put_file p bs fs) q = node_at fs q"
  by (auto simp: put_file_def node_at_def update_conv' split: option.splits node.splits)

end
