(* ===== verification/F64.thy ===== *)
theory F64
  imports Rust_Str "HOL-Library.Log_Nat"
begin

text \<open>
  The finite part of \<open>f64\<close> that the progress parser needs: a value is \<open>\<plusminus> m * 2^e\<close>.
  \<open>round_ratio\<close> is IEEE 754 rounding (to nearest, ties to even) of a non-negative ratio
  of naturals to 53 bits, with gradual underflow at exponent -1074 and overflow to infinity
  at \<open>2^1024\<close>.  On it rest the conversion from \<open>u64\<close>, division, parsing of a decimal and the
  \<open>{:.p}\<close> rendering (the exact value, rounded half to even).
\<close>

datatype f64 = Finite bool nat int | Infinite bool

text \<open>\<open>n / d\<close> to the nearest integer, ties to even.\<close>

definition half_even :: "nat \<Rightarrow> nat \<Rightarrow> nat" where
  "half_even n d =
     (let q = n div d; r = n mod d
      in if 2 * r < d \<or> (2 * r = d \<and> even q) then q else Suc q)"

text \<open>\<open>n / d / 2^e\<close> as a numerator and a denominator.\<close>

definition scaled :: "nat \<Rightarrow> nat \<Rightarrow> int \<Rightarrow> nat \<times> nat" where
  "scaled n d e = (if 0 \<le> e then (n, d * 2 ^ nat e) else (n * 2 ^ nat (- e), d))"

text \<open>The exponent of the leading bit of a positive ratio.\<close>

definition ratio_exp :: "nat \<Rightarrow> nat \<Rightarrow> int" where
  "ratio_exp n d =
     (let l = int (floorlog 2 n) - int (floorlog 2 d);
          (a, b) = scaled n d l
      in if b \<le> a then l else l - 1)"

definition round_ratio :: "bool \<Rightarrow> nat \<Rightarrow> nat \<Rightarrow> f64" where
  "round_ratio neg n d =
     (if n = 0 then Finite neg 0 0
      else
        let e = max (ratio_exp n d - 52) (-1074);
            (a, b) = scaled n d e;
            m = half_even a b
        in if 2 ^ 53 \<le> m \<and> e = 971 \<or> 971 < e then Infinite neg else Finite neg m e)"

text \<open>The value of a finite number as a ratio.\<close>

definition ratio_of :: "nat \<Rightarrow> int \<Rightarrow> nat \<times> nat" where
  "ratio_of m e = (if 0 \<le> e then (m * 2 ^ nat e, 1) else (m, 2 ^ nat (- e)))"

definition f64_of_nat :: "nat \<Rightarrow> f64" where
  "f64_of_nat n = round_ratio False n 1"

text \<open>Division of two finite numbers, the divisor not zero.\<close>

fun f64_div :: "f64 \<Rightarrow> f64 \<Rightarrow> f64" where
  "f64_div (Finite s m e) (Finite s' m' e') =
     (case ratio_of m e of (a, b) \<Rightarrow> case ratio_of m' e' of (a', b') \<Rightarrow>
        round_ratio (s \<noteq> s') (a * b') (b * a'))"
| "f64_div (Infinite s) (Finite s' m' e') = Infinite (s \<noteq> s')"
| "f64_div (Finite s m e) (Infinite s') = Finite (s \<noteq> s') 0 0"
| "f64_div (Infinite s) (Infinite s') = Infinite (s \<noteq> s')"

definition is_finite :: "f64 \<Rightarrow> bool" where
  "is_finite x = (case x of Finite _ _ _ \<Rightarrow> True | Infinite _ \<Rightarrow> False)"

text \<open>
  \<open>clamp(0.0, 100.0)\<close>: a value below zero becomes zero, negative zero is not below zero.
\<close>

definition clamp_pct :: "f64 \<Rightarrow> f64" where
  "clamp_pct x =
     (case x of
        Infinite neg \<Rightarrow> if neg then Finite False 0 0 else Finite False 100 0
      | Finite neg m e \<Rightarrow>
          (if neg \<and> m \<noteq> 0 then Finite False 0 0
           else case ratio_of m e of (a, b) \<Rightarrow>
             if 100 * b < a then Finite False 100 0 else x))"

text \<open>
  \<open>str::parse::<f64>\<close> on strings of digits, points and minus signs, the only ones the
  parser's scan lets through: an optional sign, then digits with at most one point and at
  least one digit.
\<close>

fun parse_nat :: "nat \<Rightarrow> string \<Rightarrow> nat option" where
  "parse_nat acc [] = Some acc"
| "parse_nat acc (c # s) =
     (case digit_val c of None \<Rightarrow> None | Some d \<Rightarrow> parse_nat (acc * 10 + d) s)"

definition parse_decimal :: "bool \<Rightarrow> string \<Rightarrow> f64 option" where
  "parse_decimal neg s =
     (case find_char (CHR ''.'') s of
        None \<Rightarrow> (if s = [] then None
                 else case parse_nat 0 s of None \<Rightarrow> None | Some n \<Rightarrow> Some (round_ratio neg n 1))
      | Some i \<Rightarrow>
          (let whole = take i s; frac = drop (Suc i) s
           in if whole = [] \<and> frac = [] then None
              else case parse_nat 0 (whole @ frac) of
                None \<Rightarrow> None
              | Some n \<Rightarrow> Some (round_ratio neg n (10 ^ length frac))))"

definition parse_f64 :: "string \<Rightarrow> f64 option" where
  "parse_f64 s =
     (case s of
        [] \<Rightarrow> None
      | c # r \<Rightarrow> if c = CHR ''-'' then parse_decimal True r
                else if c = CHR ''+'' then parse_decimal False r
                else parse_decimal False s)"

text \<open>\<open>{:.p}\<close> for \<open>p > 0\<close>.\<close>

definition pad_left :: "nat \<Rightarrow> string \<Rightarrow> string" where
  "pad_left n s = replicate (n - length s) (CHR ''0'') @ s"

definition fmt_fixed :: "nat \<Rightarrow> f64 \<Rightarrow> string" where
  "fmt_fixed p x =
     (case x of
        Infinite neg \<Rightarrow> (if neg then ''-inf'' else ''inf'')
      | Finite neg m e \<Rightarrow>
          (case ratio_of m e of (a, b) \<Rightarrow>
             let k = half_even (a * 10 ^ p) b
             in (if neg then ''-'' else []) @ show_nat (k div 10 ^ p) @ ''.''
                @ pad_left p (show_nat (k mod 10 ^ p))))"

subsection \<open>Facts\<close>

text \<open>Rounding to the nearest integer is off by at most one half.\<close>

lemma half_even_near:
  assumes "0 < d"
  shows "2 * n \<le> (2 * half_even n d + 1) * d \<and> 2 * half_even n d * d \<le> 2 * n + d"
proof -
  let ?q = "n div d" and ?r = "n mod d"
  have n: "n = ?q * d + ?r" "?r < d" using assms by simp_all
  show ?thesis
  proof (cases "2 * ?r < d \<or> (2 * ?r = d \<and> even ?q)")
    case True
    then have h: "half_even n d = ?q" by (simp add: half_even_def Let_def)
    have "2 * n = 2 * ?q * d + 2 * ?r" using n(1) by (metis add_mult_distrib2 mult.assoc)
    moreover have "2 * ?r \<le> d" using True by auto
    ultimately show ?thesis unfolding h by (simp add: algebra_simps)
  next
    case False
    then have h: "half_even n d = Suc ?q" by (auto simp: half_even_def Let_def)
    have "2 * n = 2 * ?q * d + 2 * ?r" using n(1) by (metis add_mult_distrib2 mult.assoc)
    moreover have "d \<le> 2 * ?r" using False by auto
    ultimately show ?thesis unfolding h using n(2) by (simp add: algebra_simps)
  qed
qed

lemma half_even_exact: "0 < d \<Longrightarrow> half_even (q * d) d = q"
  by (simp add: half_even_def)

definition pct_in_range :: "f64 \<Rightarrow> bool" where
  "pct_in_range x = (case x of Infinite _ \<Rightarrow> False
     | Finite neg m e \<Rightarrow> (neg \<longrightarrow> m = 0) \<and> (case ratio_of m e of (a, b) \<Rightarrow> a \<le> 100 * b))"

lemma clamp_pct_range: "pct_in_range (clamp_pct x)"
  by (auto simp: pct_in_range_def clamp_pct_def ratio_of_def split: f64.split)

lemma clamp_pct_id: "pct_in_range x \<Longrightarrow> clamp_pct x = x"
  by (auto simp: pct_in_range_def clamp_pct_def split: f64.splits prod.splits)

lemma clamp_pct_finite: "is_finite (clamp_pct x)"
  by (auto simp: clamp_pct_def is_finite_def split: f64.splits prod.splits)

end
