(* ===== verification/Steamcmd_Output.thy ===== *)
theory Steamcmd_Output
  imports F64
begin

text \<open>
  What the controller reads out of steamcmd's output (\<open>controller/src/steamcmd.rs\<close>):
  stripping of ANSI escapes, the progress line parser and the caption shown to the user.
  Strings are their UTF-8 bytes; a character may take several of them.
\<close>

subsection \<open>ANSI escapes\<close>

abbreviation ESC :: char where
  "ESC \<equiv> CHR 0x1B"

text \<open>The bytes of the first character of a string (0 at the end of input).\<close>

definition char_len :: "string \<Rightarrow> nat" where
  "char_len s = (if s = [] then 0 else fst (utf8_step (bytes_of s)))"

text \<open>The rest after a CSI sequence: it ends with the first ASCII letter.\<close>

fun skip_csi :: "string \<Rightarrow> string" where
  "skip_csi [] = []"
| "skip_csi (c # s) = (if is_ascii_alphabetic c then s else skip_csi s)"

lemma length_skip_csi: "length (skip_csi s) \<le> length s"
  by (induction s) auto

function strip_loop :: "string \<Rightarrow> string" where
  "strip_loop s =
     (case s of
        [] \<Rightarrow> []
      | c # r \<Rightarrow>
          if c = ESC then
            (if starts_with r ''['' then strip_loop (skip_csi (tl r))
             else strip_loop (drop (char_len r) r))
          else c # strip_loop r)"
  by pat_completeness auto
termination
proof (relation "measure length")
  fix s :: string and c r
  assume "s = c # r"
  then show "(skip_csi (tl r), s) \<in> measure length"
    using length_skip_csi [of "tl r"] by simp
qed auto

declare strip_loop.simps [simp del]

definition strip_ansi :: "string \<Rightarrow> string" where
  "strip_ansi s = (if \<not> str_contains s [ESC] then s else strip_loop s)"

subsection \<open>Progress lines\<close>

record progress =
  pct :: f64
  cur_bytes :: "u64 option"
  total_bytes :: "u64 option"
  pr_state :: "string option"

definition is_pct_char :: "char \<Rightarrow> bool" where
  "is_pct_char c \<longleftrightarrow> is_ascii_digit c \<or> c = CHR ''.'' \<or> c = CHR ''-''"

function trim_end_commas :: "string \<Rightarrow> string" where
  "trim_end_commas s = (if s \<noteq> [] \<and> last s = CHR '','' then trim_end_commas (butlast s) else s)"
  by pat_completeness auto
termination by (relation "measure length") auto

declare trim_end_commas.simps [simp del]

definition obind :: "'a option \<Rightarrow> ('a \<Rightarrow> 'b option) \<Rightarrow> 'b option" where
  "obind m f = (case m of None \<Rightarrow> None | Some x \<Rightarrow> f x)"

lemma obind_simps [simp]: "obind None f = None" "obind (Some x) f = f x"
  by (simp_all add: obind_def)

lemma obind_eq_Some: "obind m f = Some y \<longleftrightarrow> (\<exists>x. m = Some x \<and> f x = Some y)"
  by (cases m) auto

text \<open>The byte counts in the parentheses that follow the percentage.\<close>

definition parse_counts :: "string \<Rightarrow> (u64 \<times> u64) option" where
  "parse_counts after =
     obind (find_char (CHR ''('') after) (\<lambda>lpar.
     obind (find_char (CHR '')'') (drop lpar after)) (\<lambda>rpar.
       let inside = trim (drop (lpar + 1) (take (lpar + rpar) after))
       in obind (find_char (CHR ''/'') inside) (\<lambda>slash.
          obind (parse_u64 (trim (take slash inside))) (\<lambda>cur.
          obind (parse_u64 (trim (drop (slash + 1) inside))) (\<lambda>tot.
            Some (cur, tot))))))"

text \<open>The update-state verb between the state code and \<open>progress:\<close>.\<close>

definition parse_verb :: "string \<Rightarrow> string option" where
  "parse_verb clean =
     (case obind (str_find clean ''Update state'') (\<lambda>s.
             let after = drop s clean
             in obind (find_char (CHR '')'') after) (\<lambda>rpar.
                let verb_start = rpar + 1
                in obind (str_find (drop verb_start after) ''progress:'') (\<lambda>e.
                     Some (trim (trim_end_commas (trim (take e (drop verb_start after)))))))) of
        None \<Rightarrow> None
      | Some v \<Rightarrow> if v = [] then None else Some v)"

definition parse_progress :: "string \<Rightarrow> progress option" where
  "parse_progress line =
     (let clean = strip_ansi line
      in obind (str_find clean ''progress:'') (\<lambda>p.
         let rest = trim_start (drop (p + length ''progress:'') clean);
             upto = (case position (\<lambda>c. \<not> is_pct_char c) rest of
                       None \<Rightarrow> length rest | Some i \<Rightarrow> i)
         in obind (parse_f64 (trim (take upto rest))) (\<lambda>x.
            if \<not> is_finite x then None
            else obind (parse_counts (drop upto rest)) (\<lambda>(cur, tot).
              Some \<lparr>pct = clamp_pct x, cur_bytes = Some cur, total_bytes = Some tot,
                    pr_state = parse_verb clean\<rparr>))))"

subsection \<open>The caption\<close>

definition fmt_units :: "(string \<times> nat) list" where
  "fmt_units = [(''TB'', 1000000000000), (''GB'', 1000000000), (''MB'', 1000000), (''KB'', 1000)]"

definition fmt_bytes :: "u64 \<Rightarrow> string" where
  "fmt_bytes b =
     (case find (\<lambda>(u, scale). scale \<le> unat b) fmt_units of
        Some (u, scale) \<Rightarrow>
          fmt_fixed 2 (f64_div (f64_of_nat (unat b)) (f64_of_nat scale)) @ '' '' @ u
      | None \<Rightarrow> show_nat (unat b) @ '' B'')"

definition progress_caption :: "progress \<Rightarrow> string" where
  "progress_caption p =
     (let verb = (case pr_state p of None \<Rightarrow> ''working'' | Some v \<Rightarrow> v);
          head = verb @ '': '' @ fmt_fixed 1 (pct p) @ ''%''
      in case (cur_bytes p, total_bytes p) of
           (Some cur, Some tot) \<Rightarrow>
             head @ ''  ('' @ fmt_bytes cur @ '' / '' @ fmt_bytes tot @ '')''
         | _ \<Rightarrow> head)"

subsection \<open>Stripping\<close>

lemma strip_loop_simps:
  "strip_loop [] = []"
  "c \<noteq> ESC \<Longrightarrow> strip_loop (c # r) = c # strip_loop r"
  "strip_loop (ESC # CHR ''['' # r) = strip_loop (skip_csi r)"
  by (simp_all add: strip_loop.simps [of "_ # _"] strip_loop.simps [of "[]"] starts_with_def)

lemma strip_loop_no_esc: "ESC \<notin> set s \<Longrightarrow> strip_loop s = s"
  by (induction s) (auto simp: strip_loop_simps)

lemma strip_loop_clean: "ESC \<notin> set (strip_loop s)"
proof (induction s rule: strip_loop.induct)
  case (1 s)
  then show ?case by (subst strip_loop.simps) (auto split: list.split)
qed

lemma str_contains_char: "str_contains s [c] \<longleftrightarrow> c \<in> set s"
  by (auto simp: str_contains_iff in_set_conv_decomp)

lemma strip_ansi_loop: "strip_ansi s = strip_loop s"
  by (simp add: strip_ansi_def str_contains_char strip_loop_no_esc)

text \<open>A CSI sequence in the middle of a text disappears, the text around it stays.\<close>

lemma skip_csi_params:
  "\<forall>c\<in>set ps. \<not> is_ascii_alphabetic c \<Longrightarrow> is_ascii_alphabetic f \<Longrightarrow> skip_csi (ps @ f # s) = s"
  by (induction ps) auto

lemma strip_loop_text: "ESC \<notin> set t \<Longrightarrow> strip_loop (t @ s) = t @ strip_loop s"
  by (induction t) (auto simp: strip_loop_simps)

text \<open>
  Fact: stripping leaves no escape character, leaves text without escapes as it
  is (so stripping twice is stripping once), and removes a colour sequence between two texts
  without touching the texts.
\<close>

theorem strip_ansi_clean:
  "ESC \<notin> set (strip_ansi s) \<and> strip_ansi (strip_ansi s) = strip_ansi s
   \<and> (ESC \<notin> set t \<longrightarrow> strip_ansi t = t)
   \<and> (ESC \<notin> set t \<and> list_all (\<lambda>c. \<not> is_ascii_alphabetic c) ps \<and> is_ascii_alphabetic f \<longrightarrow>
        strip_ansi (t @ ESC # CHR ''['' # ps @ f # s) = t @ strip_ansi s)"
  using strip_loop_clean [of s]
  by (simp add: strip_ansi_loop strip_loop_no_esc strip_loop_text strip_loop_simps skip_csi_params
      list_all_iff)

theorem strip_ansi_clean_witness:
  "strip_ansi (''OK'' @ ESC # CHR ''['' # ''32'' @ CHR ''m'' # ''done'') = ''OKdone''"
proof -
  have "strip_ansi ''done'' = ''done''" by (simp add: strip_ansi_loop strip_loop_no_esc)
  then show ?thesis
    using strip_ansi_clean [of "''done''" "''OK''" "''32''" "CHR ''m''"]
    by (simp add: is_ascii_alphabetic_def)
qed

subsection \<open>Progress lines\<close>

definition progress_line :: "string \<Rightarrow> string \<Rightarrow> string \<Rightarrow> u64 \<Rightarrow> u64 \<Rightarrow> string" where
  "progress_line code verb digits cur tot =
     ''Update state ('' @ code @ '') '' @ verb @ '', progress: '' @ digits @ '' (''
     @ show_nat (unat cur) @ '' / '' @ show_nat (unat tot) @ '')''"

lemma counts_text:
  "parse_counts ('' ('' @ show_nat (unat cur) @ '' / '' @ show_nat (unat tot) @ '')'') = Some (cur, tot)"
proof -
  let ?c = "show_nat (unat cur)" and ?t = "show_nat (unat tot)"
  let ?after = "'' ('' @ ?c @ '' / '' @ ?t @ '')''"
  have no: "x \<notin> set ?c" "x \<notin> set ?t" if "\<not> is_ascii_digit x" for x
    using show_nat_no [OF that] by auto
  have lpar: "find_char (CHR ''('') ?after = Some 1"
    using find_char_first [of "CHR ''(''" "'' ''" "?c @ '' / '' @ ?t @ '')''"] by simp
  have "CHR '')'' \<notin> set (''('' @ ?c @ '' / '' @ ?t)"
    using no [of "CHR '')''"] by (simp add: is_ascii_digit_def)
  from find_char_first [OF this, of "[]"]
  have rpar: "find_char (CHR '')'') (drop 1 ?after) = Some (length (''('' @ ?c @ '' / '' @ ?t))"
    by simp
  have "take (length ('' ('' @ ?c @ '' / '' @ ?t)) (('' ('' @ ?c @ '' / '' @ ?t) @ '')'') = '' ('' @ ?c @ '' / '' @ ?t"
    by (rule append_eq_conv_conj [THEN iffD1, THEN conjunct1, symmetric]) simp
  then have inside: "drop (1 + 1) (take (1 + length (''('' @ ?c @ '' / '' @ ?t)) ?after) = ?c @ '' / '' @ ?t"
    by simp
  have gr: "graphic (hd (?c @ '' / '' @ ?t))" "graphic (last (?c @ '' / '' @ ?t))"
    using show_nat_digits [of _ "unat cur"] show_nat_digits [of _ "unat tot"] digit_graphic
      hd_in_set [of ?c] last_in_set [of ?t] by auto
  have t: "trim (?c @ '' / '' @ ?t) = ?c @ '' / '' @ ?t"
    by (rule trim_graphic [OF _ gr]) simp
  have "CHR ''/'' \<notin> set (?c @ '' '')" using no(1) [of "CHR ''/''"] by (simp add: is_ascii_digit_def)
  from find_char_first [OF this, of "'' '' @ ?t"]
  have slash: "find_char (CHR ''/'') (?c @ '' / '' @ ?t) = Some (length (?c @ '' ''))" by simp
  have lhs: "trim (take (length (?c @ '' '')) (?c @ '' / '' @ ?t)) = ?c"
    using trim_space_right [of ?c] gr(1) trim_start_graphic [of "hd ?c" "tl ?c"]
    by (simp add: hd_append)
  have rhs: "trim (drop (length (?c @ '' '') + 1) (?c @ '' / '' @ ?t)) = ?t"
    using show_nat_trim [of "unat tot"] by (simp add: trim_def trim_start_space)
  show ?thesis
    unfolding parse_counts_def
    by (simp only: lpar rpar obind_simps Let_def inside t slash lhs rhs parse_u64_show)
qed

text \<open>A verb as steamcmd prints it: visible at both ends, without the marks of the format.\<close>

definition verb_ok :: "string \<Rightarrow> bool" where
  "verb_ok v \<longleftrightarrow> v \<noteq> [] \<and> graphic (hd v) \<and> graphic (last v) \<and> last v \<noteq> CHR '',''
     \<and> CHR '':'' \<notin> set v \<and> ESC \<notin> set v"

definition code_ok :: "string \<Rightarrow> bool" where
  "code_ok c \<longleftrightarrow> CHR '')'' \<notin> set c \<and> CHR '':'' \<notin> set c \<and> ESC \<notin> set c"

lemma trim_end_commas_one: "v \<noteq> [] \<Longrightarrow> last v \<noteq> CHR '','' \<Longrightarrow> trim_end_commas (v @ '','') = v"
  by (simp add: trim_end_commas.simps [of "v @ '',''"] trim_end_commas.simps [of v])

lemma verb_text:
  assumes "verb_ok verb" and "code_ok code"
  shows "parse_verb (''Update state ('' @ code @ '') '' @ verb @ '', '' @ ''progress:'' @ post) = Some verb"
proof -
  let ?line = "''Update state ('' @ code @ '') '' @ verb @ '', '' @ ''progress:'' @ post"
  have up: "str_find ?line ''Update state'' = Some 0"
    by (simp add: starts_with_def)
  have "CHR '')'' \<notin> set (''Update state ('' @ code)" using assms(2) by (simp add: code_ok_def)
  from find_char_first [OF this, of "'' '' @ verb @ '', '' @ ''progress:'' @ post"]
  have rpar: "find_char (CHR '')'') ?line = Some (length (''Update state ('' @ code))" by simp
  have drop: "drop (length (''Update state ('' @ code) + 1) ?line
      = '' '' @ verb @ '', '' @ ''progress:'' @ post"
    by simp
  have "CHR '':'' \<notin> set ('' '' @ verb @ '', '')" using assms(1) by (simp add: verb_ok_def)
  from str_find_first [OF this, of "''progress''" post]
  have fnd: "str_find ('' '' @ verb @ '', '' @ ''progress:'' @ post) ''progress:''
      = Some (length ('' '' @ verb @ '', ''))"
    by simp
  have take: "take (length ('' '' @ verb @ '', '')) ('' '' @ verb @ '', '' @ ''progress:'' @ post)
      = '' '' @ verb @ '', ''"
    by simp
  have v: "verb \<noteq> []" "graphic (hd verb)" "graphic (last verb)" "last verb \<noteq> CHR '',''"
    using assms(1) by (simp_all add: verb_ok_def)
  have "trim ('' '' @ verb @ '', '') = trim ((verb @ '','') @ '' '')"
    by (simp add: trim_def trim_start_space)
  also have "\<dots> = trim (verb @ '','')"
    by (rule trim_space_right [OF _ trim_start_hd]) (use v in \<open>simp_all add: hd_append\<close>)
  also have "\<dots> = verb @ '',''"
    by (rule trim_graphic) (use v in \<open>simp_all add: hd_append graphic_def\<close>)
  finally have t1: "trim ('' '' @ verb @ '', '') = verb @ '',''" .
  have t2: "trim verb = verb" by (rule trim_graphic [OF v(1-3)])
  show ?thesis
    unfolding parse_verb_def
    by (simp only: up obind_simps Let_def drop_0 rpar drop fnd take t1 trim_end_commas_one [OF v(1,4)] t2
        option.case v(1) if_False)
qed

lemma parse_progress_text:
  assumes "verb_ok verb" and "code_ok code" and "digits \<noteq> []" and "list_all is_pct_char digits"
    and "parse_f64 digits = Some x" and "is_finite x"
  shows "parse_progress (progress_line code verb digits cur tot) =
     Some \<lparr>pct = clamp_pct x, cur_bytes = Some cur, total_bytes = Some tot, pr_state = Some verb\<rparr>"
proof -
  let ?c = "show_nat (unat cur)" and ?t = "show_nat (unat tot)"
  let ?tail = "'' ('' @ ?c @ '' / '' @ ?t @ '')''"
  let ?pre = "''Update state ('' @ code @ '') '' @ verb @ '', ''"
  let ?line = "?pre @ ''progress:'' @ '' '' @ digits @ ?tail"
  have line: "progress_line code verb digits cur tot = ?line" by (simp add: progress_line_def)
  have pg: "graphic c \<and> c \<noteq> ESC" if "is_pct_char c" for c
    using that by (auto simp: is_pct_char_def is_ascii_digit_def graphic_def)
  have "ESC \<notin> set ?c" "ESC \<notin> set ?t" using show_nat_no by (auto simp: is_ascii_digit_def)
  then have "ESC \<notin> set ?line"
    using assms(1,2,4) pg by (auto simp: verb_ok_def code_ok_def list_all_iff)
  then have clean: "strip_ansi ?line = ?line" unfolding strip_ansi_loop by (rule strip_loop_no_esc)
  have "CHR '':'' \<notin> set ?pre" using assms(1,2) by (simp add: verb_ok_def code_ok_def)
  from str_find_first [OF this, of "''progress''" "'' '' @ digits @ ?tail"]
  have p: "str_find ?line ''progress:'' = Some (length ?pre)" by simp
  have drop: "drop (length ?pre + length ''progress:'') ?line = '' '' @ digits @ ?tail"
    by (rule drop_two_parts)
  have gr: "graphic (hd digits)" "graphic (last digits)"
    using assms(3,4) pg by (simp_all add: list_all_iff)
  have rest: "trim_start ('' '' @ digits @ ?tail) = digits @ ?tail"
    using trim_start_hd [of "digits @ ?tail"] gr(1) assms(3) by (simp add: trim_start_space)
  have "\<forall>c\<in>set digits. \<not> \<not> is_pct_char c" using assms(4) by (simp add: list_all_iff)
  from position_skip [OF this, of "CHR '' ''" "''('' @ ?c @ '' / '' @ ?t @ '')''"]
  have upto: "position (\<lambda>c. \<not> is_pct_char c) (digits @ ?tail) = Some (length digits)"
    by (simp add: is_pct_char_def is_ascii_digit_def)
  have take: "trim (take (length digits) (digits @ ?tail)) = digits"
    using trim_graphic [OF assms(3) gr] by simp
  have after: "drop (length digits) (digits @ ?tail) = ?tail" by simp
  have verb: "parse_verb ?line = Some verb" using verb_text [OF assms(1,2)] by simp
  show ?thesis
    unfolding parse_progress_def line clean Let_def p obind_simps drop rest upto option.case take
      assms(5) after counts_text
    using assms(6) verb by simp
qed

text \<open>
  C26: a progress line in steamcmd's format is read back: the two
  byte counts exactly, for all 64-bit values, the verb, and the percentage as the nearest
  \<open>f64\<close> of its digits, clamped to the range from 0 to 100.
\<close>

theorem parse_progress_reads_line:
  assumes "verb_ok verb" and "code_ok code" and "digits \<noteq> []" and "list_all is_pct_char digits"
    and "parse_f64 digits = Some x" and "is_finite x"
  shows "parse_progress (progress_line code verb digits cur tot) =
     Some \<lparr>pct = clamp_pct x, cur_bytes = Some cur, total_bytes = Some tot, pr_state = Some verb\<rparr>
     \<and> pct_in_range (clamp_pct x)"
  using parse_progress_text [OF assms] clamp_pct_range by blast

theorem parse_progress_reads_line_witness:
  "\<exists>x. parse_progress (progress_line ''0x61'' ''downloading'' ''92.78'' 2540760050 2738389637) =
     Some \<lparr>pct = x, cur_bytes = Some 2540760050, total_bytes = Some 2738389637,
           pr_state = Some ''downloading''\<rparr> \<and> fmt_fixed 1 x = ''92.8''"
proof -
  have "map_option (\<lambda>x. (is_finite x, fmt_fixed 1 (clamp_pct x))) (parse_f64 ''92.78'') = Some (True, ''92.8'')"
    by (simp add: parse_f64_def parse_decimal_def find_char_def digit_val_def is_ascii_digit_def
        round_ratio_def ratio_exp_def scaled_def half_even_def compute_floorlog Let_def clamp_pct_def
        ratio_of_def is_finite_def fmt_fixed_def pad_left_def show_nat.simps)
  then obtain x where x: "parse_f64 ''92.78'' = Some x" "is_finite x" "fmt_fixed 1 (clamp_pct x) = ''92.8''"
    by auto
  have "verb_ok ''downloading''" by (simp add: verb_ok_def graphic_def)
  moreover have "code_ok ''0x61''" by (simp add: code_ok_def)
  moreover have "list_all is_pct_char ''92.78''" by (simp add: is_pct_char_def is_ascii_digit_def)
  ultimately show ?thesis
    using parse_progress_reads_line [OF _ _ _ _ x(1,2), of "''downloading''" "''0x61''" 2540760050 2738389637]
      x(3) by auto
qed

lemma parse_counts_parens: "parse_counts s = Some q \<Longrightarrow> CHR ''('' \<in> set s"
  by (auto simp: parse_counts_def obind_eq_Some) (metis find_char_None option.distinct(1))

text \<open>
  Fact: although the byte counts are optional in the result type, no line
  without them is accepted: every result has both, a percentage within range and no empty
  verb, and comes from a line with parentheses.
\<close>

theorem progress_needs_counts:
  assumes "parse_progress line = Some p"
  shows "(\<exists>cur tot. cur_bytes p = Some cur \<and> total_bytes p = Some tot)
     \<and> pct_in_range (pct p) \<and> pr_state p \<noteq> Some [] \<and> CHR ''('' \<in> set (strip_ansi line)"
proof -
  let ?clean = "strip_ansi line"
  obtain i u x q where h: "u = trim_start (drop (i + length ''progress:'') ?clean)"
    "parse_counts (drop (case position (\<lambda>c. \<not> is_pct_char c) u of None \<Rightarrow> length u | Some j \<Rightarrow> j) u) = Some q"
    "p = \<lparr>pct = clamp_pct x, cur_bytes = Some (fst q), total_bytes = Some (snd q),
          pr_state = parse_verb ?clean\<rparr>"
    using assms
    by (auto simp: parse_progress_def Let_def obind_eq_Some split: if_splits prod.splits)
  have "CHR ''('' \<in> set u" using parse_counts_parens [OF h(2)] by (meson in_set_dropD)
  then have "CHR ''('' \<in> set ?clean"
    using trim_start_subset unfolding h(1) by (meson in_set_dropD subsetD)
  then show ?thesis
    using clamp_pct_range by (auto simp: h(3) parse_verb_def split: option.splits)
qed

theorem progress_needs_counts_witness:
  "\<exists>p. parse_progress (progress_line ''0x61'' ''downloading'' ''5'' 1 2) = Some p \<and> cur_bytes p \<noteq> None"
proof -
  have "parse_f64 ''5'' = Some (round_ratio False 5 1)" "is_finite (round_ratio False 5 1)"
    by (simp_all add: parse_f64_def parse_decimal_def find_char_def digit_val_def is_ascii_digit_def
        round_ratio_def ratio_exp_def scaled_def half_even_def compute_floorlog Let_def is_finite_def)
  then have "\<exists>p. parse_progress (progress_line ''0x61'' ''downloading'' ''5'' 1 2) = Some p"
    using parse_progress_text [of "''downloading''" "''0x61''" "''5''" _ 1 2]
    by (simp add: verb_ok_def graphic_def code_ok_def is_pct_char_def is_ascii_digit_def)
  then show ?thesis using progress_needs_counts by fastforce
qed

end
