(* ===== verification/Steamcmd_Runner.thy ===== *)
theory Steamcmd_Runner
  imports Host Steamcmd_Output
begin

text \<open>
  The steamcmd bootstrap and the pull of the dedicated server
  (\<open>controller/src/steamcmd.rs\<close>): download with a fallback, extraction, the probe for
  32-bit libraries, and the loop that reads steamcmd's output.  The archive crates are
  parameters: \<open>ae_untar\<close> is \<open>Archive::unpack\<close>, \<open>ae_zip\<close> lists the entries of a zip file.
\<close>

datatype os = Linux | Windows | Macos | Other

definition show_os :: "os \<Rightarrow> string" where
  "show_os os =
     (case os of Linux \<Rightarrow> ''Linux'' | Windows \<Rightarrow> ''Windows'' | Macos \<Rightarrow> ''Macos'' | Other \<Rightarrow> ''Other'')"

definition os_detect :: "string \<Rightarrow> os" where
  "os_detect consts_os =
     (if consts_os = ''linux'' then Linux
      else if consts_os = ''windows'' then Windows
      else if consts_os = ''macos'' then Macos
      else Other)"

definition supports_dedicated_server :: "os \<Rightarrow> bool" where
  "supports_dedicated_server os \<longleftrightarrow> (case os of Linux \<Rightarrow> True | Windows \<Rightarrow> True | _ \<Rightarrow> False)"

definition STEAMCDN_PRIMARY :: string where
  "STEAMCDN_PRIMARY = ''https://steamcdn-a.akamaihd.net/client/installer''"
definition STEAMCDN_FALLBACK :: string where
  "STEAMCDN_FALLBACK = ''http://media.steampowered.com/installer''"

definition steamcmd_archive :: "os \<Rightarrow> string option" where
  "steamcmd_archive os =
     (case os of
        Linux \<Rightarrow> Some ''steamcmd_linux.tar.gz''
      | Windows \<Rightarrow> Some ''steamcmd.zip''
      | Macos \<Rightarrow> Some ''steamcmd_osx.tar.gz''
      | Other \<Rightarrow> None)"

record runner =
  bundle_dir :: path
  run_os :: os

definition steamcmd_dir :: "runner \<Rightarrow> path" where
  "steamcmd_dir r = path_join (bundle_dir r) ''steamcmd''"

definition steamcmd_path :: "runner \<Rightarrow> path" where
  "steamcmd_path r =
     path_join (steamcmd_dir r) (if run_os r = Windows then ''steamcmd.exe'' else ''steamcmd.sh'')"

subsection \<open>Download\<close>

text \<open>The loop over the two URLs: any failure goes on to the next one.\<close>

fun try_urls :: "host_env \<Rightarrow> string \<Rightarrow> string list \<Rightarrow> bytes io" where
  "try_urls env archive_name [] = io_of (Inl
     (''failed to download steamcmd archive '' @ archive_name @ '' from both CDN and mirror''))"
| "try_urls env archive_name (url # urls) =
     io_bind (http_get env url) (\<lambda>resp.
       case resp of
         HttpSuccess (Inr b) \<Rightarrow> io_ret b
       | _ \<Rightarrow> try_urls env archive_name urls)"

definition archive_urls :: "string \<Rightarrow> string list" where
  "archive_urls archive_name =
     [STEAMCDN_PRIMARY @ ''/'' @ archive_name, STEAMCDN_FALLBACK @ ''/'' @ archive_name]"

definition download_with_fallback :: "host_env \<Rightarrow> string \<Rightarrow> bytes io" where
  "download_with_fallback env archive_name =
     io_bind (io_of (he_http_client env)) (\<lambda>_. try_urls env archive_name (archive_urls archive_name))"

subsection \<open>Extraction\<close>

record zip_entry =
  ze_name :: string
  ze_is_dir :: bool
  ze_body :: "string + bytes"

record archive_env =
  ae_untar :: "bytes \<Rightarrow> path \<Rightarrow> files \<Rightarrow> (string + unit) \<times> files"
  ae_zip :: "bytes \<Rightarrow> string + (string + zip_entry) list"

text \<open>
  \<open>Path::join\<close> on Windows, where the zip archive is used; backslashes count as slashes and are written as
  such.  A path with a drive (or a UNC path, which begins with two separators) replaces the first
  one, a path with a root replaces all of it but its drive.
\<close>

definition slashes :: "path \<Rightarrow> path" where
  "slashes p = map (\<lambda>c. if c = CHR 0x5C then CHR ''/'' else c) p"

definition drive :: "path \<Rightarrow> path" where
  "drive p =
     (case p of
        a # b # _ \<Rightarrow> (let n = of_char a :: nat in
          if b = CHR '':'' \<and> (65 \<le> n \<and> n \<le> 90 \<or> 97 \<le> n \<and> n \<le> 122) then [a, b] else [])
      | _ \<Rightarrow> [])"

definition win_join :: "path \<Rightarrow> path \<Rightarrow> path" where
  "win_join a b =
     (let a = slashes a; b = slashes b in
      if drive b \<noteq> [] \<or> starts_with b ''//'' then b
      else if starts_with b ''/'' then drive a @ b
      else if drive a = a then a @ b
      else path_join a b)"

definition extract_entry :: "host_env \<Rightarrow> path \<Rightarrow> zip_entry \<Rightarrow> unit io" where
  "extract_entry env dest entry =
     (let outpath = win_join dest (ze_name entry) in
      if ze_is_dir entry then io_context (''creating zip dir '' @ outpath) (fs_create_dir_all env outpath)
      else io_bind
        (case path_parent outpath of
           Some par \<Rightarrow> io_context (''creating parent for '' @ outpath) (fs_create_dir_all env par)
         | None \<Rightarrow> io_ret ()) (\<lambda>_.
        io_bind (io_context (''creating '' @ outpath) (fs_write env outpath [])) (\<lambda>_.
        io_bind (io_of (ze_body entry)) (\<lambda>body. fs_write env outpath body))))"

fun extract_entries :: "host_env \<Rightarrow> path \<Rightarrow> (string + zip_entry) list \<Rightarrow> unit io" where
  "extract_entries env dest [] = io_ret ()"
| "extract_entries env dest (e # es) =
     io_bind (io_of (with_context ''reading zip entry'' e)) (\<lambda>entry.
     io_bind (extract_entry env dest entry) (\<lambda>_. extract_entries env dest es))"

definition extract_archive :: "host_env \<Rightarrow> archive_env \<Rightarrow> bytes \<Rightarrow> os \<Rightarrow> path \<Rightarrow> unit io" where
  "extract_archive env ar bs os dest =
     (if os = Linux \<or> os = Macos then
        io_context (''extracting tar.gz into '' @ dest) (syscall env (ae_untar ar bs dest))
      else if os = Windows then
        io_bind (io_of (with_context ''reading steamcmd.zip'' (ae_zip ar bs))) (extract_entries env dest)
      else io_of (Inl ''no steamcmd archive for unsupported OS''))"

subsection \<open>The 32-bit libraries\<close>

text \<open>The first directory of \<open>PATH\<close> that holds the command as a file.\<close>

fun split_paths :: "string \<Rightarrow> path \<Rightarrow> path list" where
  "split_paths [] acc = [rev acc]"
| "split_paths (c # cs) acc = (if c = CHR '':'' then rev acc # split_paths cs [] else split_paths cs (c # acc))"

fun which_in :: "host_env \<Rightarrow> string \<Rightarrow> path list \<Rightarrow> path option io" where
  "which_in env cmd [] = io_ret None"
| "which_in env cmd (dir # dirs) =
     io_bind (io_try (fs_metadata env (path_join dir cmd))) (\<lambda>r.
       case r of
         Inr (File _ _) \<Rightarrow> io_ret (Some (path_join dir cmd))
       | _ \<Rightarrow> which_in env cmd dirs)"

definition which :: "host_env \<Rightarrow> string \<Rightarrow> path option io" where
  "which env cmd =
     (case he_var env ''PATH'' of
        None \<Rightarrow> io_ret None
      | Some paths \<Rightarrow> which_in env cmd (split_paths paths []))"

fun join_space :: "string list \<Rightarrow> string" where
  "join_space [] = []"
| "join_space [x] = x"
| "join_space (x # xs) = x @ '' '' @ join_space xs"

definition LF :: string where "LF = [CHR 0x0A]"

definition run_sudo_apt_install :: "host_env \<Rightarrow> string list \<Rightarrow> unit io" where
  "run_sudo_apt_install env pkgs =
     io_bind (io_context ''sudo apt-get update''
       (run_command env \<lparr>program = ''sudo'', cmd_args = [''apt-get'', ''update''], cmd_dir = None\<rparr>)) (\<lambda>u.
     if \<not> po_success u then io_of (Inl (''sudo apt-get update exited '' @ po_status u))
     else io_bind (io_context ''sudo apt-get install''
       (run_command env \<lparr>program = ''sudo'', cmd_args = [''apt-get'', ''install'', ''-y''] @ pkgs, cmd_dir = None\<rparr>)) (\<lambda>i.
     if \<not> po_success i then io_of (Inl
       (''sudo apt-get install exited '' @ po_status i @ ''.'' @ LF
        @ ''Install manually: sudo apt-get install -y '' @ join_space pkgs))
     else io_ret ()))"

text \<open>
  The probe looks for the two messages in ASCII lower case; the Unicode lower-casing of the
  source agrees on them, since no other character lower-cases to one of their letters alone.
\<close>

definition PROBE_PACKAGES :: "string list" where
  "PROBE_PACKAGES = [''lib32z1'', ''lib32gcc-s1'', ''lib32stdc++6'']"

definition MISSING_LIBS :: string where
  "MISSING_LIBS =
     ''Missing 32-bit libraries required by steamcmd / the dedicated server.'' @ LF
     @ ''Install them for your distro and re-run, e.g.:'' @ LF
     @ ''  Arch:    sudo pacman -S --needed lib32-glibc lib32-gcc-libs'' @ LF
     @ ''  Fedora:  sudo dnf install -y glibc.i686 libstdc++.i686'' @ LF
     @ ''  Debian:  sudo apt-get install -y lib32z1 lib32gcc-s1 lib32stdc++6''"

definition probe_missing :: "proc_output \<Rightarrow> bool" where
  "probe_missing out =
     (let probe = to_ascii_lowercase (from_utf8_lossy (po_stdout out) @ LF @ from_utf8_lossy (po_stderr out))
      in str_contains probe ''cannot open shared object''
       \<or> str_contains probe ''error while loading shared libraries'')"

definition ensure_linux_32bit_deps :: "host_env \<Rightarrow> runner \<Rightarrow> unit io" where
  "ensure_linux_32bit_deps env r =
     io_bind (io_context (''probing steamcmd at '' @ steamcmd_path r)
       (run_command env \<lparr>program = steamcmd_path r, cmd_args = [''+quit''], cmd_dir = None\<rparr>)) (\<lambda>out.
     if \<not> probe_missing out then io_ret ()
     else io_bind (which env ''apt-get'') (\<lambda>found.
       if found \<noteq> None then run_sudo_apt_install env PROBE_PACKAGES
       else io_of (Inl MISSING_LIBS)))"

definition ensure_steamcmd :: "host_env \<Rightarrow> archive_env \<Rightarrow> runner \<Rightarrow> path io" where
  "ensure_steamcmd env ar r =
     (let exe = steamcmd_path r; dir = steamcmd_dir r in
      io_bind (fs_exists env exe) (\<lambda>present.
      if present then io_ret exe
      else io_bind (io_of (ok_or (''steamcmd has no bootstrap for OS '' @ show_os (run_os r))
        (steamcmd_archive (run_os r)))) (\<lambda>archive_name.
      io_bind (io_context (''creating steamcmd dir '' @ dir) (fs_create_dir_all env dir)) (\<lambda>_.
      io_bind (download_with_fallback env archive_name) (\<lambda>bs.
      io_bind (extract_archive env ar bs (run_os r) dir) (\<lambda>_.
      io_bind (fs_exists env exe) (\<lambda>now.
      if \<not> now then io_of (Inl (''steamcmd bootstrap extracted but '' @ exe @ '' was not found''))
      else io_bind (if run_os r = Linux then ensure_linux_32bit_deps env r else io_ret ()) (\<lambda>_.
        io_ret exe))))))))"

subsection \<open>The pull\<close>

text \<open>
  What \<open>select!\<close> yields in one round of the loop, with what \<open>cancel\<close> held at its start;
  \<open>Inl\<close> is a read error and an empty read the end of the stream.
\<close>

datatype pull_event = PullOut "string + bytes" | PullErr "string + bytes" | PullTick

definition chunk_lines :: "bytes \<Rightarrow> string list" where
  "chunk_lines bs = map strip_ansi (str_lines (trim_end (from_utf8_lossy bs)))"

datatype pull_end = PullCancelled | PullEnded | PullWaiting

fun pull_loop :: "(bool \<times> pull_event) list \<Rightarrow> string list \<times> pull_end" where
  "pull_loop [] = ([], PullWaiting)"
| "pull_loop ((cancel, ev) # evs) =
     (if cancel then ([], PullCancelled)
      else let go = (\<lambda>read. case read of
             Inl _ \<Rightarrow> ([], PullEnded)
           | Inr bs \<Rightarrow> (if bs = [] then ([], PullEnded)
               else (case pull_loop evs of (ls, e) \<Rightarrow> (chunk_lines bs @ ls, e))))
      in case ev of
           PullOut read \<Rightarrow> go read
         | PullErr read \<Rightarrow> go read
         | PullTick \<Rightarrow> pull_loop evs)"

definition DS_APP_ID :: string where "DS_APP_ID = ''276060''"

definition EXIT_HINT :: string where
  "EXIT_HINT = '' '' @ [CHR 0xE2, CHR 0x80, CHR 0x94]
     @ '' the download may have failed; check the log above''"

definition pull_command :: "path \<Rightarrow> path \<Rightarrow> command" where
  "pull_command exe install_dir =
     \<lparr>program = exe,
      cmd_args = [''+force_install_dir '' @ install_dir, ''+login'', ''anonymous'', ''+app_update'',
        DS_APP_ID, ''validate'', ''+quit''], cmd_dir = None\<rparr>"

text \<open>
  \<open>evs\<close> is what the loop meets; a pull whose streams do not end does not return (\<open>None\<close>).
  The second component holds the lines handed to the progress callback.
\<close>

definition pull_ds ::
  "host_env \<Rightarrow> archive_env \<Rightarrow> runner \<Rightarrow> path \<Rightarrow> (bool \<times> pull_event) list \<Rightarrow> host \<Rightarrow>
   (unit result \<times> string list \<times> host) option" where
  "pull_ds env ar r dir evs h =
     (case ensure_steamcmd env ar r h of
        (Inl e, h1) \<Rightarrow> Some (Inl e, [], h1)
      | (Inr exe, h1) \<Rightarrow>
          (let install_dir = unwrap_or dir (he_canonicalize env dir) in
           case io_context (''spawning steamcmd at '' @ exe)
                  (run_command env (pull_command exe install_dir)) h1 of
             (Inl e, h2) \<Rightarrow> Some (Inl e, [], h2)
           | (Inr out, h2) \<Rightarrow>
               (case pull_loop evs of
                  (ls, PullCancelled) \<Rightarrow> Some (Inl ''steamcmd pull cancelled'', ls, h2)
                | (ls, PullWaiting) \<Rightarrow> None
                | (ls, PullEnded) \<Rightarrow>
                    (case io_context ''waiting for steamcmd'' (syscall env (\<lambda>fs. (Inr (), fs))) h2 of
                       (Inl e, h3) \<Rightarrow> Some (Inl e, ls, h3)
                     | (Inr _, h3) \<Rightarrow>
                         Some (if po_success out then Inr ()
                               else Inl (''steamcmd exited with '' @ po_status out @ EXIT_HINT), ls, h3)))))"

subsection \<open>Downloads\<close>

definition fetched :: "http_response \<Rightarrow> bytes option" where
  "fetched resp = (case resp of HttpSuccess (Inr b) \<Rightarrow> Some b | _ \<Rightarrow> None)"

lemma try_urls_step:
  "try_urls env name (url # urls) h =
     (case fetched (he_http_get env (h_calls h) url) of
        Some b \<Rightarrow> (Inr b, h\<lparr>h_calls := Suc (h_calls h), h_urls := h_urls h @ [url]\<rparr>)
      | None \<Rightarrow> try_urls env name urls (h\<lparr>h_calls := Suc (h_calls h), h_urls := h_urls h @ [url]\<rparr>))"
  by (simp add: io_bind_def http_get_def fetched_def split: http_response.splits sum.splits)

text \<open>The answers are tried in order: everything before the last request failed.\<close>

lemma try_urls_outcome:
  assumes "try_urls env name urls h = (res, g)"
  shows "\<exists>us. prefix us urls \<and> h_urls g = h_urls h @ us \<and> h_commands g = h_commands h
     \<and> h_files g = h_files h
     \<and> (\<forall>i<length us - 1. fetched (he_http_get env (h_calls h + i) (us ! i)) = None)
     \<and> (case res of
          Inr b \<Rightarrow> us \<noteq> [] \<and> fetched (he_http_get env (h_calls h + (length us - 1)) (last us)) = Some b
        | Inl _ \<Rightarrow> us = urls
            \<and> (\<forall>i<length us. fetched (he_http_get env (h_calls h + i) (us ! i)) = None))"
  using assms
proof (induction urls arbitrary: h)
  case Nil
  then show ?case by auto
next
  case (Cons url urls)
  let ?h = "h\<lparr>h_calls := Suc (h_calls h), h_urls := h_urls h @ [url]\<rparr>"
  show ?case
  proof (cases "fetched (he_http_get env (h_calls h) url)")
    case (Some b)
    then show ?thesis using Cons.prems by (intro exI [of _ "[url]"]) (auto simp: try_urls_step simp del: try_urls.simps)
  next
    case None
    then have "try_urls env name urls ?h = (res, g)"
      using Cons.prems by (simp add: try_urls_step del: try_urls.simps)
    from Cons.IH [OF this] obtain us where us: "prefix us urls" "h_urls g = h_urls ?h @ us"
      "h_commands g = h_commands ?h" "h_files g = h_files ?h"
      "\<forall>i<length us - 1. fetched (he_http_get env (h_calls ?h + i) (us ! i)) = None"
      "case res of
          Inr b \<Rightarrow> us \<noteq> [] \<and> fetched (he_http_get env (h_calls ?h + (length us - 1)) (last us)) = Some b
        | Inl _ \<Rightarrow> us = urls
            \<and> (\<forall>i<length us. fetched (he_http_get env (h_calls ?h + i) (us ! i)) = None)"
      by blast
    have first: "fetched (he_http_get env (h_calls h + i) ((url # us) ! i)) = None"
      if "i < m" "\<forall>i<m - 1. fetched (he_http_get env (h_calls ?h + i) (us ! i)) = None" for i m
      using that None by (cases i) auto
    show ?thesis
      using us first [of _ "length us"] first [of _ "Suc (length us)"]
      by (intro exI [of _ "url # us"]) (cases us; cases res; auto)
  qed
qed

text \<open>
  Fact: the download asks the primary server first and the mirror only after
  the primary has failed, never a third URL; it succeeds with the body of the first success,
  fails exactly when both failed, and touches neither files nor processes.
\<close>

theorem download_fallback:
  assumes "he_http_client env = Inr ()" and "download_with_fallback env name h = (res, g)"
  shows "\<exists>us. prefix us [STEAMCDN_PRIMARY @ ''/'' @ name, STEAMCDN_FALLBACK @ ''/'' @ name]
     \<and> us \<noteq> [] \<and> h_urls g = h_urls h @ us \<and> h_commands g = h_commands h \<and> h_files g = h_files h
     \<and> (case res of
          Inr b \<Rightarrow> fetched (he_http_get env (h_calls h + (length us - 1)) (last us)) = Some b
            \<and> (length us = 2 \<longrightarrow> fetched (he_http_get env (h_calls h) (hd us)) = None)
        | Inl _ \<Rightarrow> length us = 2
            \<and> (\<forall>i<2. fetched (he_http_get env (h_calls h + i) (us ! i)) = None))"
proof -
  have "try_urls env name (archive_urls name) h = (res, g)"
    using assms by (simp add: download_with_fallback_def io_bind_def)
  from try_urls_outcome [OF this] obtain us where us: "prefix us (archive_urls name)"
    "h_urls g = h_urls h @ us" "h_commands g = h_commands h" "h_files g = h_files h"
    "\<forall>i<length us - 1. fetched (he_http_get env (h_calls h + i) (us ! i)) = None"
    "case res of
          Inr b \<Rightarrow> us \<noteq> [] \<and> fetched (he_http_get env (h_calls h + (length us - 1)) (last us)) = Some b
        | Inl _ \<Rightarrow> us = archive_urls name
            \<and> (\<forall>i<length us. fetched (he_http_get env (h_calls h + i) (us ! i)) = None)"
    by blast
  have "us \<noteq> []" using us(6) by (cases res) (auto simp: archive_urls_def)
  moreover have "length us = 2 \<longrightarrow> fetched (he_http_get env (h_calls h) (hd us)) = None"
    using us(5) \<open>us \<noteq> []\<close> by (auto simp: hd_conv_nth)
  ultimately show ?thesis
    using us by (intro exI [of _ us]) (cases res; auto simp: archive_urls_def numeral_2_eq_2)
qed

definition demo_host :: host where
  "demo_host = \<lparr>h_files = [], h_calls = 0, h_urls = [], h_commands = []\<rparr>"

definition demo_out :: proc_output where
  "demo_out = \<lparr>po_success = True, po_status = ''exit status: 0'', po_stdout = [], po_stderr = []\<rparr>"

text \<open>A host on which only the mirror answers.\<close>

definition demo_host_env :: host_env where
  "demo_host_env = \<lparr>he_fault = (\<lambda>_. None), he_torn = (\<lambda>_. None), he_http_client = Inr (),
     he_http_get = (\<lambda>n url. if starts_with url ''https'' then HttpStatus 503 else HttpSuccess (Inr [7])),
     he_exec = (\<lambda>n c fs. (demo_out, fs)), he_canonicalize = (\<lambda>p. Inr p),
     he_var = (\<lambda>_. None), he_home = None\<rparr>"

theorem download_fallback_witness:
  "\<exists>res g us. download_with_fallback demo_host_env ''a'' demo_host = (res, g)
     \<and> us \<noteq> [] \<and> h_urls g = us \<and> length us \<le> 2"
proof -
  obtain res g where r: "download_with_fallback demo_host_env ''a'' demo_host = (res, g)" by fastforce
  have "he_http_client demo_host_env = Inr ()" by (simp add: demo_host_env_def)
  from download_fallback [OF this r] obtain us where
    "prefix us [STEAMCDN_PRIMARY @ ''/'' @ ''a'', STEAMCDN_FALLBACK @ ''/'' @ ''a'']"
    "us \<noteq> []" "h_urls g = h_urls demo_host @ us" by blast
  then show ?thesis using r prefix_length_le
    by (intro exI [of _ res] exI [of _ g] exI [of _ us]) (fastforce simp: demo_host_def)
qed

subsection \<open>The bootstrap\<close>

lemma download_keeps_process: "no_process.keeps (download_with_fallback env name)"
proof -
  have "no_process.keeps (try_urls env name urls)" for urls
    by (induction urls) (auto intro!: no_process.keeps_bind split: http_response.splits sum.splits)
  then show ?thesis by (auto simp: download_with_fallback_def intro: no_process.keeps_bind)
qed

lemma extract_entry_keeps:
  "no_process.keeps (extract_entry env dest e)" "no_download.keeps (extract_entry env dest e)"
  by (auto simp: extract_entry_def Let_def intro!: no_process.keeps_bind no_process.keeps_context
      no_download.keeps_bind no_download.keeps_context split: option.splits)

lemma extract_entries_keep:
  "no_process.keeps (extract_entries env dest es)" "no_download.keeps (extract_entries env dest es)"
  by (induction es) (auto intro!: no_process.keeps_bind no_download.keeps_bind extract_entry_keeps)

lemma extract_keeps:
  "no_process.keeps (extract_archive env ar bs os dest)"
  "no_download.keeps (extract_archive env ar bs os dest)"
  by (auto simp: extract_archive_def intro!: no_process.keeps_bind no_process.keeps_context
      no_download.keeps_bind no_download.keeps_context extract_entries_keep)

lemma which_in_keeps: "no_download.keeps (which_in env cmd dirs)" "no_process.keeps (which_in env cmd dirs)"
proof -
  have meta: "no_download.keeps (fs_metadata env p)" "no_process.keeps (fs_metadata env p)" for p
    by (simp_all add: fs_metadata_def)
  show "no_download.keeps (which_in env cmd dirs)" "no_process.keeps (which_in env cmd dirs)"
    by (induction dirs) (auto intro!: no_download.keeps_bind no_download.keeps_try
        no_process.keeps_bind no_process.keeps_try meta split: sum.splits node.splits)
qed

lemma apt_keeps_downloads: "no_download.keeps (run_sudo_apt_install env pkgs)"
  by (auto simp: run_sudo_apt_install_def intro!: no_download.keeps_bind no_download.keeps_context)

lemma deps_keep_downloads: "no_download.keeps (ensure_linux_32bit_deps env r)"
  by (auto simp: ensure_linux_32bit_deps_def which_def intro!: no_download.keeps_bind
      no_download.keeps_context which_in_keeps apt_keeps_downloads split: option.splits)

text \<open>What child processes do to one path, and what the calls that run them do to it.\<close>

definition processes_keep :: "host_env \<Rightarrow> path \<Rightarrow> bool" where
  "processes_keep env p \<longleftrightarrow>
     (\<forall>n c fs. node_at fs p \<noteq> None \<longrightarrow> node_at (snd (he_exec env n c fs)) p \<noteq> None)"

definition has_path :: "path \<Rightarrow> host \<Rightarrow> bool" where
  "has_path p h \<longleftrightarrow> node_at (h_files h) p \<noteq> None"

interpretation path_stays: io_frame "\<lambda>a b. has_path p a \<longrightarrow> has_path p b" for p
  by unfold_locales auto

lemma run_command_path_stays:
  assumes "processes_keep env p"
  shows "path_stays.keeps p (run_command env c)"
  unfolding path_stays.keeps_def
proof (intro allI impI)
  fix h assume "has_path p h"
  then have "node_at (snd (he_exec env (h_calls h) c (h_files h))) p \<noteq> None"
    using assms unfolding processes_keep_def has_path_def by blast
  with \<open>has_path p h\<close> show "has_path p (snd (run_command env c h))"
    unfolding run_command_def has_path_def Let_def
    by (cases "he_exec env (h_calls h) c (h_files h)") (simp split: option.split)
qed

lemma syscall_read_path_stays:
  "(\<And>fs. snd (f fs) = fs) \<Longrightarrow> path_stays.keeps p (syscall env f)"
  unfolding path_stays.keeps_def
  by (simp add: has_path_def syscall_def Let_def case_prod_unfold split: option.split)

lemma which_in_path_stays: "path_stays.keeps p (which_in env cmd dirs)"
  by (induction dirs) (auto simp: fs_metadata_def intro!: path_stays.keeps_bind path_stays.keeps_try
      syscall_read_path_stays split: sum.splits node.splits)

lemma deps_path_stays:
  assumes "processes_keep env p"
  shows "path_stays.keeps p (ensure_linux_32bit_deps env r)"
proof -
  have apt: "path_stays.keeps p (run_sudo_apt_install env pkgs)" for pkgs
    using run_command_path_stays [OF assms]
    by (auto simp: run_sudo_apt_install_def intro!: path_stays.keeps_bind path_stays.keeps_context)
  show ?thesis using run_command_path_stays [OF assms]
    by (auto simp: ensure_linux_32bit_deps_def which_def intro!: path_stays.keeps_bind
        path_stays.keeps_context which_in_path_stays apt split: option.splits)
qed

lemma download_urls:
  "download_with_fallback env name h = (res, g) \<Longrightarrow>
   \<exists>us. prefix us (archive_urls name) \<and> h_urls g = h_urls h @ us"
  by (cases "he_http_client env")
    (auto simp: download_with_fallback_def io_bind_def dest!: try_urls_outcome)

text \<open>A bootstrap that is there is used as it is.\<close>

lemma ensure_present:
  "has_path (steamcmd_path r) h \<Longrightarrow> he_fault env (h_calls h) = None \<Longrightarrow>
   ensure_steamcmd env ar r h = (Inr (steamcmd_path r), h\<lparr>h_calls := Suc (h_calls h)\<rparr>)"
  by (simp add: ensure_steamcmd_def Let_def io_bind_def fs_exists_eq has_path_def)

text \<open>The downloads and the executable of a bootstrap that had to be fetched.\<close>

lemma ensure_fetch:
  assumes "ensure_steamcmd env ar r h = (Inr exe, g)"
    and "\<not> (has_path (steamcmd_path r) h \<and> he_fault env (h_calls h) = None)"
  shows "\<exists>name us k. steamcmd_archive (run_os r) = Some name \<and> prefix us (archive_urls name)
     \<and> h_urls g = h_urls h @ us \<and> exe = steamcmd_path r \<and> has_path exe k
     \<and> (g = k \<or> run_os r = Linux \<and> ensure_linux_32bit_deps env r k = (Inr (), g))"
proof -
  let ?exe = "steamcmd_path r"
  obtain name h1 h2 h3 bs h4 h5 where
    c: "steamcmd_archive (run_os r) = Some name"
      "fs_exists env ?exe h = (Inr False, h1)"
      "fs_create_dir_all env (steamcmd_dir r) h1 = (Inr (), h2)"
      "download_with_fallback env name h2 = (Inr bs, h3)"
      "extract_archive env ar bs (run_os r) (steamcmd_dir r) h3 = (Inr (), h4)"
      "fs_exists env ?exe h4 = (Inr True, h5)"
      "(if run_os r = Linux then ensure_linux_32bit_deps env r else io_ret ()) h5 = (Inr (), g)"
      "exe = ?exe"
    using assms
    by (auto simp: ensure_steamcmd_def Let_def io_bind_eq_Inr io_context_eq_Inr fs_exists_eq
        has_path_def ok_or_eq_Inr split: if_splits)
  obtain us where us: "prefix us (archive_urls name)" "h_urls h3 = h_urls h2 @ us"
    using download_urls [OF c(4)] by blast
  have "h_urls h2 = h_urls h"
    using no_download.keepsD [OF fs_calls_keep(3) c(2)]
      no_download.keepsD [OF fs_calls_keep(6) c(3)] by simp
  moreover have "h_urls h5 = h_urls h3"
    using no_download.keepsD [OF extract_keeps(2) c(5)] no_download.keepsD [OF fs_calls_keep(3) c(6)] by simp
  moreover have "h_urls g = h_urls h5"
    using c(7) no_download.keepsD [OF deps_keep_downloads] by (simp split: if_splits)
  moreover have "has_path ?exe h5" using c(6) by (auto simp: fs_exists_eq has_path_def)
  ultimately show ?thesis using c(1,7,8) us
    by (intro exI [of _ name] exI [of _ us] exI [of _ h5]) (simp split: if_splits)
qed

text \<open>
  C35: an \<open>ensure_steamcmd\<close> that succeeds returns the path of the
  executable of this operating system, which is then on disk, after at most two downloads, provided
  child processes leave it in place; calling it again neither downloads nor starts a process nor changes
  a file, provided the existence test of that call does not fail (a test that fails counts as no).
\<close>

theorem ensure_steamcmd_idempotent:
  assumes "ensure_steamcmd env ar r h = (Inr exe, g)" and "processes_keep env (steamcmd_path r)"
    and "he_fault env (h_calls g) = None"
  shows "exe = steamcmd_path r \<and> node_at (h_files g) exe \<noteq> None
     \<and> (\<exists>us. h_urls g = h_urls h @ us \<and> length us \<le> 2
         \<and> (us \<noteq> [] \<longrightarrow> steamcmd_archive (run_os r) \<noteq> None))
     \<and> ensure_steamcmd env ar r g = (Inr exe, g\<lparr>h_calls := Suc (h_calls g)\<rparr>)"
proof (cases "has_path (steamcmd_path r) h \<and> he_fault env (h_calls h) = None")
  case True
  then have "exe = steamcmd_path r" "g = h\<lparr>h_calls := Suc (h_calls h)\<rparr>"
    using assms(1) by (simp_all add: ensure_present)
  then show ?thesis using True ensure_present [of r g env ar] assms(3) by (simp add: has_path_def)
next
  case False
  obtain name us k where f: "steamcmd_archive (run_os r) = Some name" "prefix us (archive_urls name)"
    "h_urls g = h_urls h @ us" "exe = steamcmd_path r" "has_path exe k"
    "g = k \<or> run_os r = Linux \<and> ensure_linux_32bit_deps env r k = (Inr (), g)"
    using ensure_fetch [OF assms(1) False] by blast
  have "has_path exe g"
    using f(4-6) path_stays.keepsD [OF deps_path_stays [OF assms(2)]] by blast
  moreover have "length us \<le> 2" using prefix_length_le [OF f(2)] by (simp add: archive_urls_def)
  ultimately show ?thesis using f ensure_present [of r g env ar] assms(3) by (simp add: has_path_def)
qed

text \<open>
  Fact: the probe for 32-bit libraries runs only in the call that
  fetched the bootstrap.  When that probe fails, the next \<open>ensure_steamcmd\<close> reports success
  at once, without a probe, although nothing was installed.
\<close>

theorem probe_failure_is_forgotten:
  assumes "ensure_linux_32bit_deps env r k = (Inl e, g)"
    and "node_at (h_files k) (steamcmd_path r) \<noteq> None" and "processes_keep env (steamcmd_path r)"
    and "he_fault env (h_calls g) = None"
  shows "ensure_steamcmd env ar r g = (Inr (steamcmd_path r), g\<lparr>h_calls := Suc (h_calls g)\<rparr>)"
proof -
  have "has_path (steamcmd_path r) g"
    using path_stays.keepsD [OF deps_path_stays [OF assms(3)] assms(1)] assms(2)
    by (simp add: has_path_def)
  then show ?thesis using assms(4) by (rule ensure_present)
qed

definition demo_archive :: archive_env where
  "demo_archive = \<lparr>ae_untar = (\<lambda>bs p fs. (Inr (), AList.update (path_join p ''steamcmd.sh'') (File bs True) fs)),
     ae_zip = (\<lambda>bs. Inr [Inr \<lparr>ze_name = ''steamcmd.exe'', ze_is_dir = False, ze_body = Inr bs\<rparr>])\<rparr>"

definition demo_runner :: runner where
  "demo_runner = \<lparr>bundle_dir = ''/b'', run_os = Windows\<rparr>"

definition demo_bootstrapped :: host where
  "demo_bootstrapped = \<lparr>h_files = [(''/b'', Dir), (''/b/steamcmd'', Dir), (''/b/steamcmd/steamcmd.exe'', File [7] False)],
     h_calls = 8, h_urls = archive_urls ''steamcmd.zip'', h_commands = []\<rparr>"

lemma demo_keeps: "processes_keep demo_host_env p"
  by (simp add: processes_keep_def demo_host_env_def)

lemma demo_ensure:
  "ensure_steamcmd demo_host_env demo_archive demo_runner demo_host
   = (Inr ''/b/steamcmd/steamcmd.exe'', demo_bootstrapped)"
  by code_simp

lemma demo_no_fault: "he_fault demo_host_env n = None"
  by (simp add: demo_host_env_def)

lemma demo_calls: "h_calls demo_bootstrapped = 8"
  by (simp add: demo_bootstrapped_def)

theorem ensure_steamcmd_idempotent_witness:
  "ensure_steamcmd demo_host_env demo_archive demo_runner demo_bootstrapped
   = (Inr ''/b/steamcmd/steamcmd.exe'', demo_bootstrapped\<lparr>h_calls := 9\<rparr>)"
  using ensure_steamcmd_idempotent [OF demo_ensure demo_keeps demo_no_fault] by (simp add: demo_calls)

text \<open>A machine whose loader reports a missing library, and which has no package manager.\<close>

definition bare_env :: host_env where
  "bare_env = demo_host_env\<lparr>he_exec := (\<lambda>n c fs.
     (demo_out\<lparr>po_success := False, po_stderr := bytes_of ''Error while loading shared libraries''\<rparr>, fs))\<rparr>"

definition bare_host :: host where
  "bare_host = demo_host\<lparr>h_files := [(''/b/steamcmd/steamcmd.exe'', File [7] True)]\<rparr>"

lemma bare_probe:
  "ensure_linux_32bit_deps bare_env demo_runner bare_host
   = (Inl MISSING_LIBS, bare_host\<lparr>h_calls := 1,
       h_commands := [\<lparr>program = ''/b/steamcmd/steamcmd.exe'', cmd_args = [''+quit''], cmd_dir = None\<rparr>]\<rparr>)"
  by code_simp

theorem probe_failure_is_forgotten_witness:
  "fst (ensure_steamcmd bare_env ar demo_runner (bare_host\<lparr>h_calls := 1,
       h_commands := [\<lparr>program = ''/b/steamcmd/steamcmd.exe'', cmd_args = [''+quit''], cmd_dir = None\<rparr>]\<rparr>))
   = Inr (steamcmd_path demo_runner)"
proof -
  have "node_at (h_files bare_host) (steamcmd_path demo_runner) \<noteq> None" by code_simp
  moreover have "processes_keep bare_env (steamcmd_path demo_runner)"
    by (simp add: processes_keep_def bare_env_def)
  moreover have "he_fault bare_env n = None" for n by (simp add: bare_env_def demo_host_env_def)
  ultimately show ?thesis using probe_failure_is_forgotten [OF bare_probe] by simp
qed

subsection \<open>Zip entries\<close>

lemma syscall_eq_Inr:
  "syscall env f h = (Inr x, g) \<longleftrightarrow>
     he_fault env (h_calls h) = None \<and> fst (f (h_files h)) = Inr x
     \<and> g = h\<lparr>h_calls := Suc (h_calls h), h_files := snd (f (h_files h))\<rparr>"
  by (auto simp: syscall_def Let_def split: option.splits prod.splits)

lemma fs_write_files:
  "fs_write env p bs h = (Inr x, g) \<Longrightarrow> h_files g = put_file p bs (h_files h)"
  by (auto simp: fs_write_def syscall_eq_Inr split: if_splits)

lemma extract_file:
  assumes "extract_entry env dest e h = (Inr (), g)" and "\<not> ze_is_dir e"
  shows "\<exists>body fs. ze_body e = Inr body \<and> h_files g = put_file (win_join dest (ze_name e)) body fs"
  using assms by (auto simp: extract_entry_def Let_def io_bind_eq_Inr io_context_eq_Inr
      dest!: fs_write_files)

lemma extract_last:
  "extract_entries env dest es h = (Inr (), g) \<Longrightarrow> es = fs @ [Inr e] \<Longrightarrow>
   \<exists>k. extract_entry env dest e k = (Inr (), g)"
  by (induction fs arbitrary: es h) (auto simp: io_bind_eq_Inr)

text \<open>
  Fact: extracting the zip archive puts its last entry, when that is a file, with its whole body at the
  name the archive gives, joined to the target directory without any check: a name with a drive
  is taken as it is, and one that starts with a slash leaves only the drive of the target.
\<close>

theorem zip_entry_written_at_its_name:
  assumes "extract_archive env ar bs Windows dest h = (Inr (), g)"
    and "ae_zip ar bs = Inr (es @ [Inr e])" and "\<not> ze_is_dir e"
    and "win_join dest (ze_name e) \<noteq> ''/''"
  shows "(\<exists>body x. ze_body e = Inr body \<and> node_at (h_files g) (win_join dest (ze_name e)) = Some (File body x))
     \<and> (drive (slashes (ze_name e)) \<noteq> [] \<longrightarrow> win_join dest (ze_name e) = slashes (ze_name e))
     \<and> (starts_with (slashes (ze_name e)) ''/'' \<longrightarrow>
          win_join dest (ze_name e) \<in> {slashes (ze_name e), drive (slashes dest) @ slashes (ze_name e)})"
proof -
  have "extract_entries env dest (es @ [Inr e]) h = (Inr (), g)"
    using assms(1,2) by (simp add: extract_archive_def io_bind_def)
  then obtain k where "extract_entry env dest e k = (Inr (), g)" using extract_last by blast
  from extract_file [OF this assms(3)] obtain body fs where
    w: "ze_body e = Inr body" "h_files g = put_file (win_join dest (ze_name e)) body fs" by blast
  moreover have "\<exists>x. node_at (h_files g) (win_join dest (ze_name e)) = Some (File body x)"
    using node_at_put_file [OF assms(4)] w(2) by simp
  ultimately show ?thesis by (simp add: win_join_def Let_def)
qed

definition evil_archive :: archive_env where
  "evil_archive = demo_archive\<lparr>ae_zip := (\<lambda>bs. Inr [Inr \<lparr>ze_name = ''/x/y'', ze_is_dir = False, ze_body = Inr bs\<rparr>])\<rparr>"

lemma evil_extract:
  "extract_archive demo_host_env evil_archive [1, 2] Windows ''/b/steamcmd'' demo_host
   = (Inr (), demo_host\<lparr>h_calls := 3, h_files := [(''/x'', Dir), (''/x/y'', File [1, 2] False)]\<rparr>)"
  by code_simp

theorem zip_entry_written_at_its_name_witness:
  "\<exists>x. node_at (h_files (snd (extract_archive demo_host_env evil_archive [1, 2] Windows ''/b/steamcmd'' demo_host)))
        ''/x/y'' = Some (File [1, 2] x)"
proof -
  have z: "ae_zip evil_archive [1, 2]
      = Inr ([] @ [Inr \<lparr>ze_name = ''/x/y'', ze_is_dir = False, ze_body = Inr [1, 2]\<rparr>])"
    by (simp add: evil_archive_def)
  have join: "win_join ''/b/steamcmd'' ''/x/y'' = ''/x/y''" by code_simp
  show ?thesis using zip_entry_written_at_its_name [OF evil_extract z] by (simp add: evil_extract join)
qed

subsection \<open>The rounds of a pull\<close>

definition round_lines :: "pull_event \<Rightarrow> string list" where
  "round_lines ev = (case ev of PullOut (Inr bs) \<Rightarrow> chunk_lines bs | PullErr (Inr bs) \<Rightarrow> chunk_lines bs | _ \<Rightarrow> [])"

text \<open>A round after which the loop goes on, and one that ends it by the end of a stream.\<close>

definition goes_on :: "bool \<times> pull_event \<Rightarrow> bool" where
  "goes_on r = (\<not> fst r \<and> (case snd r of
     PullOut (Inr bs) \<Rightarrow> bs \<noteq> [] | PullErr (Inr bs) \<Rightarrow> bs \<noteq> [] | PullTick \<Rightarrow> True | _ \<Rightarrow> False))"

definition stream_end :: "pull_event \<Rightarrow> bool" where
  "stream_end ev = (case ev of
     PullOut (Inr bs) \<Rightarrow> bs = [] | PullErr (Inr bs) \<Rightarrow> bs = [] | PullTick \<Rightarrow> False | _ \<Rightarrow> True)"

lemma goes_on_iff: "goes_on (c, ev) \<longleftrightarrow> \<not> c \<and> \<not> stream_end ev"
  by (cases ev) (auto simp: goes_on_def stream_end_def split: sum.splits)

lemma pull_loop_go:
  "goes_on r \<Longrightarrow> pull_loop (r # evs) = (round_lines (snd r) @ fst (pull_loop evs), snd (pull_loop evs))"
  by (cases r; cases "snd r")
    (auto simp: goes_on_def round_lines_def Let_def split: sum.splits prod.splits)

lemma pull_loop_stop:
  "pull_loop ((True, ev) # evs) = ([], PullCancelled)"
  "stream_end ev \<Longrightarrow> pull_loop ((False, ev) # evs) = ([], PullEnded)"
  by (cases ev; auto simp: stream_end_def Let_def split: sum.splits if_splits)+

lemma pull_loop_rounds:
  "list_all goes_on pre \<Longrightarrow>
   pull_loop (pre @ rest) = (concat (map (round_lines \<circ> snd) pre) @ fst (pull_loop rest), snd (pull_loop rest))"
  by (induction pre) (simp_all add: pull_loop_go del: pull_loop.simps)

lemma round_lines_clean: "l \<in> set (round_lines ev) \<Longrightarrow> ESC \<notin> set l"
  using strip_loop_clean
  by (auto simp: round_lines_def chunk_lines_def strip_ansi_loop split: pull_event.splits sum.splits)

lemma trim_end_eol: "trim_end (s @ [CHR 0x0A]) = trim_end s" "trim_end (s @ [CHR 0x0D]) = trim_end s"
proof -
  have "ws_back (s @ [CHR 0x0A]) = Some [CHR 0x0A]" "ws_back (s @ [CHR 0x0D]) = Some [CHR 0x0D]"
    by (simp_all add: ws_back_def ws_strings_def)
  then show "trim_end (s @ [CHR 0x0A]) = trim_end s" "trim_end (s @ [CHR 0x0D]) = trim_end s"
    using trim_end_step by metis+
qed

lemma join_lf_snoc: "join_lf (ls @ [l]) = concat (map (\<lambda>l. l @ [CHR 0x0A]) ls) @ l"
proof (induction ls)
  case (Cons k ls)
  then show ?case by (cases ls) (auto simp: join_lf_def)
qed (simp add: join_lf_def)

lemma str_lines_last: "clean_line l \<Longrightarrow> l \<noteq> [] \<Longrightarrow> str_lines l = [l]"
proof -
  assume l: "clean_line l" "l \<noteq> []"
  have "split_inclusive_lf l = [l]" using l by (induction l) (auto simp: clean_line_def split: if_splits)
  moreover have "last l \<noteq> CHR 0x0A" using l last_in_set unfolding clean_line_def by metis
  ultimately show ?thesis by (simp add: str_lines_def strip_eol_def)
qed

lemma str_lines_join_lf:
  "\<forall>l\<in>set ls. clean_line l \<Longrightarrow> ls \<noteq> [] \<Longrightarrow> last ls \<noteq> [] \<Longrightarrow> str_lines (join_lf ls) = ls"
proof (induction ls rule: rev_induct)
  case (snoc l ls)
  have "str_lines (concat (map (\<lambda>l. l @ [CHR 0x0A]) ks) @ l) = ks @ str_lines l" if "\<forall>k\<in>set ks. clean_line k" for ks
    using that by (induction ks) (simp_all add: str_lines_Cons)
  then show ?case using snoc.prems by (simp add: join_lf_snoc str_lines_last)
qed simp

text \<open>The bytes of a read that consist of these lines; the last line end may be missing.\<close>

definition holds_lines :: "string list \<Rightarrow> bytes \<Rightarrow> bool" where
  "holds_lines ls bs \<longleftrightarrow> ls \<noteq> [] \<and> last ls \<noteq> [] \<and> list_all clean_line ls \<and> ws_back (join_lf ls) = None \<and> utf8_valid bs
     \<and> (bs = bytes_of (join_lf ls) \<or> bs = bytes_of (join_lf ls @ LF) \<or> bs = bytes_of (join_lf ls @ [CHR 0x0D] @ LF))"

lemma chunk_lines_held: "holds_lines ls bs \<Longrightarrow> chunk_lines bs = map strip_ansi ls"
proof -
  assume h: "holds_lines ls bs"
  then obtain e where e: "bs = bytes_of (join_lf ls @ e)" "e = [] \<or> e = LF \<or> e = [CHR 0x0D] @ LF"
    by (auto simp: holds_lines_def)
  have "from_utf8_lossy bs = join_lf ls @ e" using h e(1) by (simp add: holds_lines_def from_utf8_lossy_def utf8_lossy_id)
  moreover have "trim_end (join_lf ls @ e) = join_lf ls"
    using e(2) h trim_end_eol(1) [of "join_lf ls @ [CHR 0x0D]"] by (auto simp: holds_lines_def LF_def trim_end_eol)
  moreover have "str_lines (join_lf ls) = ls" using h by (intro str_lines_join_lf) (auto simp: holds_lines_def list_all_iff)
  ultimately show ?thesis by (simp add: chunk_lines_def)
qed

text \<open>The lines that came in during a round.\<close>

definition round_holds :: "string list \<Rightarrow> bool \<times> pull_event \<Rightarrow> bool" where
  "round_holds ls r =
     (case snd r of
        PullTick \<Rightarrow> ls = []
      | PullOut (Inr bs) \<Rightarrow> holds_lines ls bs
      | PullErr (Inr bs) \<Rightarrow> holds_lines ls bs
      | _ \<Rightarrow> False)"

lemma rounds_held:
  "list_all2 round_holds lss rs \<Longrightarrow> concat (map (round_lines \<circ> snd) rs) = map strip_ansi (concat lss)"
  by (induction lss rs rule: list_all2_induct)
    (auto simp: round_holds_def round_lines_def chunk_lines_held split: pull_event.splits sum.splits)


lemma demo_ensure_again:
  "ensure_steamcmd demo_host_env demo_archive demo_runner demo_bootstrapped
   = (Inr ''/b/steamcmd/steamcmd.exe'', demo_bootstrapped\<lparr>h_calls := 9\<rparr>)"
  by code_simp

lemma demo_spawn:
  "run_command demo_host_env (pull_command exe (unwrap_or ''/b/svends'' (he_canonicalize demo_host_env ''/b/svends'')))
     (demo_bootstrapped\<lparr>h_calls := 9\<rparr>)
   = (Inr demo_out, demo_bootstrapped\<lparr>h_calls := 10, h_commands := [pull_command exe ''/b/svends'']\<rparr>)"
  by (simp add: run_command_def demo_host_env_def demo_bootstrapped_def)

definition demo_rounds :: "(bool \<times> pull_event) list" where
  "demo_rounds = [(False, PullOut (Inr (bytes_of ''Load''))), (False, PullTick),
     (False, PullErr (Inr (bytes_of (''ing'' @ LF @ ''Done'' @ LF))))]"

definition demo_lines :: "string list list" where
  "demo_lines = [[''Load''], [], [''ing'', ''Done'']]"


end
