(* ===== verification/Ds_Files.thy ===== *)
theory Ds_Files
  imports Steamcmd_Runner "HOL-Library.Char_ord" "HOL-Library.List_Lexorder" "HOL-Library.Multiset"
begin

text \<open>
  The files of the dedicated server (\<open>controller/src/ds.rs\<close>): where an install is looked
  for, which maps it has, the sound cache files that are created for them and the repair of
  \<open>mapcycle.txt\<close>.
\<close>

record ds_start_args =
  da_port :: u16
  da_maxplayers :: u32
  da_map :: string
  da_install_dir :: "path option"
  da_sv_cheats :: bool

definition ds_start_args_default :: ds_start_args where
  "ds_start_args_default =
     \<lparr>da_port = 27015, da_maxplayers = 8, da_map = ''svencoop1'', da_install_dir = None, da_sv_cheats = False\<rparr>"

definition ds_exe_name :: "os \<Rightarrow> string" where
  "ds_exe_name os = (if os = Windows then ''svends.exe'' else ''svends_run'')"

subsection \<open>Finding an install\<close>

text \<open>The execute bits are looked at on Unix only.\<close>

definition is_executable :: "host_env \<Rightarrow> os \<Rightarrow> path \<Rightarrow> bool io" where
  "is_executable env os p =
     io_bind (io_try (fs_metadata env p)) (\<lambda>r.
       io_ret (case r of Inr (File _ x) \<Rightarrow> (os = Windows \<or> x) | _ \<Rightarrow> False))"

definition steam_install_candidates :: "host_env \<Rightarrow> os \<Rightarrow> path list" where
  "steam_install_candidates env os =
     (if os = Windows then
        List.map_filter (\<lambda>var. case he_var env var of
            Some val \<Rightarrow> (if val \<noteq> [] then Some (path_join val ''Steam'') else None)
          | None \<Rightarrow> None) [''ProgramFiles(x86)'', ''ProgramFiles'', ''USERPROFILE'']
        @ [''C:'' @ [CHR 0x5C] @ ''Program Files (x86)'' @ [CHR 0x5C] @ ''Steam'',
           ''C:'' @ [CHR 0x5C] @ ''Program Files'' @ [CHR 0x5C] @ ''Steam'']
      else case he_home env of
          Some h \<Rightarrow> [path_join h ''.local/share/Steam'', path_join h ''.steam/steam'',
            path_join h ''.var/app/com.valvesoftware.Steam/data/Steam'']
        | None \<Rightarrow> [])"

definition steam_game_dir :: "path \<Rightarrow> path" where
  "steam_game_dir dir = path_join (path_join (path_join dir ''steamapps'') ''common'') ''Sven Co-op''"

fun first_executable :: "host_env \<Rightarrow> os \<Rightarrow> path list \<Rightarrow> (path \<times> path) option io" where
  "first_executable env os [] = io_ret None"
| "first_executable env os (dir # dirs) =
     io_bind (is_executable env os (path_join dir (ds_exe_name os))) (\<lambda>ok.
       if ok then io_ret (Some (path_join dir (ds_exe_name os), dir))
       else first_executable env os dirs)"

text \<open>The directory named by the marker file, if it can be read and is not blank.\<close>

definition marker_dirs :: "string result \<Rightarrow> path list" where
  "marker_dirs r =
     (case r of Inl _ \<Rightarrow> [] | Inr prev \<Rightarrow> (if trim prev = [] then [] else [trim prev]))"

definition find_svends_inner :: "host_env \<Rightarrow> path \<Rightarrow> os \<Rightarrow> (path \<times> path) option io" where
  "find_svends_inner env bundle os =
     io_bind (first_executable env os [path_join bundle ''svends'']) (\<lambda>local.
     if local \<noteq> None then io_ret local
     else io_bind (io_try (fs_read_to_string env (path_join bundle ''.svends_path''))) (\<lambda>prev.
     io_bind (first_executable env os (marker_dirs prev)) (\<lambda>marked.
     if marked \<noteq> None then io_ret marked
     else first_executable env os (map steam_game_dir (steam_install_candidates env os)))))"

subsection \<open>Maps\<close>

text \<open>One step of the directory stream; an error ends it like its end.\<close>

definition next_entry :: "host_env \<Rightarrow> unit io" where
  "next_entry env = syscall env (\<lambda>fs. (Inr (), fs))"

definition bsp_stem :: "string \<Rightarrow> string option" where
  "bsp_stem name =
     (if name_extension name = Some ''bsp'' \<and> utf8_valid (bytes_of (name_stem name))
      then Some (name_stem name) else None)"

fun dir_maps :: "host_env \<Rightarrow> string list \<Rightarrow> string list io" where
  "dir_maps env [] = io_ret []"
| "dir_maps env (n # ns) =
     io_bind (io_try (next_entry env)) (\<lambda>r.
       case r of
         Inl _ \<Rightarrow> io_ret []
       | Inr _ \<Rightarrow> io_bind (dir_maps env ns) (\<lambda>ms.
           io_ret (case bsp_stem n of Some m \<Rightarrow> m # ms | None \<Rightarrow> ms)))"

definition maps_dir :: "path \<Rightarrow> string \<Rightarrow> path" where
  "maps_dir install_dir game = path_join (path_join install_dir game) ''maps''"

fun game_maps :: "host_env \<Rightarrow> path \<Rightarrow> string list \<Rightarrow> string list io" where
  "game_maps env install_dir [] = io_ret []"
| "game_maps env install_dir (g # gs) =
     io_bind (io_try (fs_read_dir env (maps_dir install_dir g))) (\<lambda>r.
     io_bind (case r of Inl _ \<Rightarrow> io_ret [] | Inr names \<Rightarrow> dir_maps env names) (\<lambda>ms.
     io_bind (game_maps env install_dir gs) (\<lambda>rest. io_ret (ms @ rest))))"

text \<open>\<open>sort\<close> and \<open>dedup\<close>, in the byte order of Rust strings.\<close>

definition list_maps_inner :: "host_env \<Rightarrow> path \<Rightarrow> string list io" where
  "list_maps_inner env install_dir =
     io_bind (game_maps env install_dir [''svencoop'', ''svencoop_addon'']) (\<lambda>maps.
       io_ret (remdups_adj (sort maps)))"

subsection \<open>Sound cache files\<close>

definition soundcache_dir :: "path \<Rightarrow> path" where
  "soundcache_dir install_dir = path_join (maps_dir install_dir ''svencoop'') ''soundcache''"

definition cache_file :: "path \<Rightarrow> string \<Rightarrow> path" where
  "cache_file install_dir mapname = path_join (soundcache_dir install_dir) (mapname @ ''.txt'')"

text \<open>A failing existence test counts as no, a failing write is not counted.\<close>

fun create_caches :: "host_env \<Rightarrow> path \<Rightarrow> string list \<Rightarrow> nat io" where
  "create_caches env install_dir [] = io_ret 0"
| "create_caches env install_dir (n # ns) =
     io_bind (io_try (next_entry env)) (\<lambda>r.
       case r of
         Inl _ \<Rightarrow> io_ret 0
       | Inr _ \<Rightarrow>
           (case bsp_stem n of
              None \<Rightarrow> create_caches env install_dir ns
            | Some mapname \<Rightarrow>
                io_bind (fs_exists env (cache_file install_dir mapname)) (\<lambda>there.
                if there then create_caches env install_dir ns
                else io_bind (io_try (fs_write env (cache_file install_dir mapname) [])) (\<lambda>w.
                  io_bind (create_caches env install_dir ns) (\<lambda>k.
                    io_ret (if is_ok w then Suc k else k))))))"

definition precreate_soundcache :: "host_env \<Rightarrow> path \<Rightarrow> nat io" where
  "precreate_soundcache env install_dir =
     io_bind (io_try (fs_read_dir env (maps_dir install_dir ''svencoop''))) (\<lambda>r.
       case r of
         Inl _ \<Rightarrow> io_ret 0
       | Inr names \<Rightarrow>
           io_bind (io_try (fs_create_dir_all env (soundcache_dir install_dir))) (\<lambda>_.
             create_caches env install_dir names))"

subsection \<open>The map cycle\<close>

definition is_portal :: "string \<Rightarrow> bool" where
  "is_portal line \<longleftrightarrow> trim line = ''-sp_campaign_portal'' \<or> trim line = ''sp_campaign_portal''"

definition swap_front :: "nat \<Rightarrow> 'a list \<Rightarrow> 'a list" where
  "swap_front i xs = xs[0 := xs ! i, i := xs ! 0]"

text \<open>What the new file holds; \<open>None\<close> leaves the file alone.\<close>

definition mapcycle_fixed :: "string \<Rightarrow> string option" where
  "mapcycle_fixed contents =
     (if \<not> list_ex is_portal (str_lines contents) then None
      else let ls = filter (\<lambda>l. \<not> is_portal l) (str_lines contents);
               ls' = (case position (\<lambda>l. trim l = ''svencoop1'') ls of
                        Some pos \<Rightarrow> swap_front pos ls | None \<Rightarrow> ls)
           in Some (join_lf ls' @ LF))"

definition mapcycle_path :: "path \<Rightarrow> path" where
  "mapcycle_path install_dir = path_join (path_join install_dir ''svencoop'') ''mapcycle.txt''"

definition fix_mapcycle_default :: "host_env \<Rightarrow> path \<Rightarrow> bool io" where
  "fix_mapcycle_default env install_dir =
     io_bind (io_try (fs_read_to_string env (mapcycle_path install_dir))) (\<lambda>r.
       case r of
         Inl _ \<Rightarrow> io_ret False
       | Inr contents \<Rightarrow>
           (case mapcycle_fixed contents of
              None \<Rightarrow> io_ret False
            | Some new \<Rightarrow>
                io_bind (io_try (fs_write env (mapcycle_path install_dir) (bytes_of new))) (\<lambda>w.
                  io_ret (is_ok w))))"

lemma read_calls_keep [simp]:
  "no_process.keeps (fs_read_dir env p)" "no_process.keeps (fs_read_to_string env p)"
  "no_process.keeps (fs_metadata env p)" "no_process.keeps (next_entry env)"
  by (simp_all add: fs_read_dir_def fs_read_to_string_def fs_metadata_def next_entry_def)

lemma first_executable_keeps: "no_process.keeps (first_executable env os dirs)"
proof -
  have "no_process.keeps (is_executable env os p)" for p
    by (auto simp: is_executable_def intro!: no_process.keeps_bind no_process.keeps_try)
  then show ?thesis by (induction dirs) (auto intro!: no_process.keeps_bind)
qed

lemma find_svends_inner_keeps: "no_process.keeps (find_svends_inner env bundle os)"
  by (auto simp: find_svends_inner_def
      simp del: first_executable.simps intro!: no_process.keeps_bind no_process.keeps_try first_executable_keeps)

lemma precreate_soundcache_keeps: "no_process.keeps (precreate_soundcache env d)"
proof -
  have "no_process.keeps (create_caches env d names)" for names
    by (induction names)
      (auto intro!: no_process.keeps_bind no_process.keeps_try split: sum.split option.split)
  then show ?thesis
    by (auto simp: precreate_soundcache_def intro!: no_process.keeps_bind no_process.keeps_try split: sum.split)
qed

lemma fix_mapcycle_default_keeps: "no_process.keeps (fix_mapcycle_default env d)"
  by (auto simp: fix_mapcycle_default_def intro!: no_process.keeps_bind no_process.keeps_try
      split: sum.split option.split)

subsection \<open>The map cycle, repaired\<close>

lemma ws_strings_prefix_free:
  "v \<in> set ws_strings \<Longrightarrow> w \<in> set ws_strings \<Longrightarrow> prefix v w \<Longrightarrow> v = w"
proof -
  have "list_all (\<lambda>v. list_all (\<lambda>w. take (length v) w = v \<longrightarrow> v = w) ws_strings) ws_strings"
    by (simp add: ws_strings_def)
  moreover assume "v \<in> set ws_strings" "w \<in> set ws_strings" "prefix v w"
  ultimately show "v = w" by (fastforce simp: list_all_iff prefix_def)
qed

lemma ws_front_append: "ws_front s = Some w \<Longrightarrow> ws_front (s @ u) = Some w"
proof -
  assume "ws_front s = Some w"
  from ws_front_Some [OF this] obtain t where w: "w \<in> set ws_strings" "s = w @ t" by blast
  show "ws_front (s @ u) = Some w"
  proof (cases "ws_front (s @ u)")
    case None
    then show ?thesis using w by (auto simp: ws_front_None)
  next
    case (Some v)
    from ws_front_Some [OF this] obtain r where v: "v \<in> set ws_strings" "s @ u = v @ r" by blast
    have "prefix v (s @ u)" using v by simp
    moreover have "prefix w (s @ u)" using w by simp
    ultimately have "prefix v w \<or> prefix w v" by (rule prefix_same_cases)
    then have "v = w" using ws_strings_prefix_free v(1) w(1) by blast
    then show ?thesis using Some by simp
  qed
qed

lemma trim_start_cr: "trim_start s \<noteq> [] \<Longrightarrow> trim_start (s @ [CHR 0x0D]) = trim_start s @ [CHR 0x0D]"
proof (induction s rule: trim_start.induct)
  case (1 s)
  show ?case
  proof (cases "ws_front s")
    case (Some w)
    then obtain t where t: "s = w @ t" using ws_front_Some by blast
    have "trim_start (s @ [CHR 0x0D]) = trim_start (t @ [CHR 0x0D])"
      using trim_start_step [of w "t @ [CHR 0x0D]"] ws_front_append [OF Some, of "[CHR 0x0D]"] t by simp
    then show ?thesis using 1 Some t trim_start_step [of w t] by simp
  next
    case None
    then have "s \<noteq> []" using "1.prems" by (cases s) simp_all
    have "s @ [CHR 0x0D] \<noteq> w @ t" if "w \<in> set ws_strings" for w t
    proof
      assume eq: "s @ [CHR 0x0D] = w @ t"
      show False
      proof (cases t rule: rev_cases)
        case Nil
        then have "last w = CHR 0x0D" "1 < length w" using eq \<open>s \<noteq> []\<close> by (cases s; auto)+
        then show False using that by (auto simp: ws_strings_def)
      next
        case (snoc t' c)
        then show False using eq None that by (auto simp: ws_front_None)
      qed
    qed
    then have "ws_front (s @ [CHR 0x0D]) = None" by (simp add: ws_front_None)
    then show ?thesis using None by simp
  qed
qed

lemma trim_cr: "trim s \<noteq> [] \<Longrightarrow> trim (s @ [CHR 0x0D]) = trim s"
proof -
  assume a: "trim s \<noteq> []"
  have "trim_start s \<noteq> []" using a trim_end_prefix [of "[]"] by (auto simp: trim_def)
  moreover have "ws_back (r @ [CHR 0x0D]) = Some [CHR 0x0D]" for r
    by (simp add: ws_back_def ws_strings_def)
  ultimately show ?thesis using trim_end_step [of _ "[CHR 0x0D]"] by (simp add: trim_def trim_start_cr)
qed

definition drop_cr :: "string \<Rightarrow> string" where
  "drop_cr l = (if l \<noteq> [] \<and> last l = CHR 0x0D then butlast l else l)"

lemma drop_cr_clean [simp]: "clean_line l \<Longrightarrow> drop_cr l = l"
  by (auto simp: drop_cr_def clean_line_def)

lemma portal_drop_cr: "is_portal (drop_cr l) \<Longrightarrow> is_portal l"
proof (cases l rule: rev_cases)
  case (snoc k c)
  assume p: "is_portal (drop_cr l)"
  show ?thesis
  proof (cases "c = CHR 0x0D")
    case True
    then have "is_portal k" using p snoc by (simp add: drop_cr_def)
    then have "trim (k @ [CHR 0x0D]) = trim k" using trim_cr [of k] by (auto simp: is_portal_def)
    then show ?thesis using True snoc \<open>is_portal k\<close> by (simp add: is_portal_def)
  qed (use p snoc in \<open>simp add: drop_cr_def\<close>)
qed (simp add: drop_cr_def)

lemma str_lines_drop_cr:
  "\<forall>l\<in>set ls. CHR 0x0A \<notin> set l \<Longrightarrow> str_lines (concat (map (\<lambda>l. l @ [CHR 0x0A]) ls)) = map drop_cr ls"
proof (induction ls)
  case Nil
  then show ?case by (simp add: str_lines_def)
next
  case (Cons l ls)
  have "strip_eol (l @ [CHR 0x0A]) = drop_cr l"
    by (auto simp: strip_eol_def drop_cr_def Let_def)
  then show ?case using Cons by (simp add: str_lines_def split_inclusive_line)
qed

lemma str_lines_join:
  "\<forall>l\<in>set ls. CHR 0x0A \<notin> set l \<Longrightarrow>
   str_lines (join_lf ls @ LF) = (if ls = [] then [[]] else map drop_cr ls)"
  using join_lf_terminated [of ls]
  by (auto simp: LF_def str_lines_drop_cr) (simp add: str_lines_def strip_eol_def join_lf_def)

lemma swap_front_perm: "i < length xs \<Longrightarrow> mset (swap_front i xs) = mset xs"
  using mset_swap [of i xs 0] by (cases xs) (simp_all add: swap_front_def del: list_update.simps)

lemma swap_front_hd: "i < length xs \<Longrightarrow> hd (swap_front i xs) = xs ! i \<and> swap_front i xs \<noteq> []"
  by (cases xs; cases i) (auto simp: swap_front_def)

text \<open>The lines that are written.\<close>

definition kept_lines :: "string \<Rightarrow> string list" where
  "kept_lines contents = filter (\<lambda>l. \<not> is_portal l) (str_lines contents)"

definition cycle_order :: "string list \<Rightarrow> string list" where
  "cycle_order ls =
     (case position (\<lambda>l. trim l = ''svencoop1'') ls of Some pos \<Rightarrow> swap_front pos ls | None \<Rightarrow> ls)"

lemma mapcycle_fixed_lines:
  "mapcycle_fixed contents = Some new \<longleftrightarrow>
     list_ex is_portal (str_lines contents) \<and> new = join_lf (cycle_order (kept_lines contents)) @ LF"
  by (auto simp: mapcycle_fixed_def kept_lines_def cycle_order_def Let_def)

lemma cycle_order_mset: "mset (cycle_order ls) = mset ls"
  unfolding cycle_order_def
  by (simp split: option.split) (simp add: position_Some_iff swap_front_perm)

lemma cycle_order_set: "set (cycle_order ls) = set ls"
  using cycle_order_mset by (metis set_mset_mset)

lemma cycle_order_hd:
  "\<exists>l\<in>set ls. trim l = ''svencoop1'' \<Longrightarrow> trim (hd (cycle_order ls)) = ''svencoop1''"
proof -
  assume a: "\<exists>l\<in>set ls. trim l = ''svencoop1''"
  then obtain pos where p: "position (\<lambda>l. trim l = ''svencoop1'') ls = Some pos"
    by (cases "position (\<lambda>l. trim l = ''svencoop1'') ls") (auto simp: position_None_iff)
  then have "pos < length ls" "trim (ls ! pos) = ''svencoop1''" by (simp_all add: position_Some_iff)
  then show ?thesis using p swap_front_hd [of pos ls] by (simp add: cycle_order_def)
qed

lemma mapcycle_written:
  assumes "mapcycle_fixed contents = Some new"
  shows "str_lines new = (if kept_lines contents = [] then [[]] else map drop_cr (cycle_order (kept_lines contents)))"
proof -
  have "\<forall>l\<in>set (cycle_order (kept_lines contents)). CHR 0x0A \<notin> set l"
    by (auto simp: cycle_order_set kept_lines_def dest: str_lines_no_lf)
  moreover have "cycle_order (kept_lines contents) = [] \<longleftrightarrow> kept_lines contents = []"
    using cycle_order_set by (metis set_empty)
  ultimately show ?thesis using assms str_lines_join by (simp add: mapcycle_fixed_lines)
qed

lemma mapcycle_no_portal:
  assumes "mapcycle_fixed contents = Some new"
  shows "\<not> list_ex is_portal (str_lines new)"
proof -
  have "\<not> is_portal []" by (simp add: is_portal_def)
  moreover have "\<not> is_portal (drop_cr l)" if "l \<in> set (cycle_order (kept_lines contents))" for l
    using that portal_drop_cr [of l] unfolding cycle_order_set kept_lines_def by auto
  ultimately show ?thesis unfolding mapcycle_written [OF assms] list_ex_iff by auto
qed

lemma fs_read_eq:
  "fs_read_to_string env p h =
     (case he_fault env (h_calls h) of
        Some e \<Rightarrow> Inl e
      | None \<Rightarrow> (case node_at (h_files h) p of
            None \<Rightarrow> Inl ''not found'' | Some Dir \<Rightarrow> Inl ''is a directory''
          | Some (File bs _) \<Rightarrow> ok_or ''stream did not contain valid UTF-8'' (from_utf8 bs)),
      h\<lparr>h_calls := Suc (h_calls h)\<rparr>)"
  by (simp add: fs_read_to_string_def syscall_def Let_def split: option.split)

lemma fs_read_Inr:
  "fs_read_to_string env p h = (Inr s, g) \<Longrightarrow>
   (\<exists>x. node_at (h_files h) p = Some (File (bytes_of s) x)) \<and> h_files g = h_files h"
  by (auto simp: fs_read_eq from_utf8_def ok_or_def split: option.splits node.splits if_splits)

lemma fs_write_Inr:
  "fs_write env p bs h = (Inr u, g) \<Longrightarrow> p \<noteq> ''/'' \<and> h_files g = put_file p bs (h_files h)"
  by (auto simp: fs_write_def syscall_eq_Inr node_at_def parent_there_def split: if_splits)

lemma fix_mapcycle_rewrites:
  assumes "fix_mapcycle_default env d h = (Inr True, g)"
  shows "\<exists>contents new x. node_at (h_files h) (mapcycle_path d) = Some (File (bytes_of contents) x)
     \<and> mapcycle_fixed contents = Some new \<and> mapcycle_path d \<noteq> ''/''
     \<and> h_files g = put_file (mapcycle_path d) (bytes_of new) (h_files h)"
proof -
  obtain contents new k where c: "fs_read_to_string env (mapcycle_path d) h = (Inr contents, k)"
    "mapcycle_fixed contents = Some new" "fs_write env (mapcycle_path d) (bytes_of new) k = (Inr (), g)"
    using assms
    by (cases "fs_read_to_string env (mapcycle_path d) h")
      (auto simp: fix_mapcycle_default_def io_bind_try is_ok_iff split: sum.splits option.splits,
       metis prod.collapse)
  then show ?thesis using fs_read_Inr [OF c(1)] fs_write_Inr [OF c(3)] by auto
qed

lemma mapcycle_written_clean:
  assumes "mapcycle_fixed contents = Some new" and "kept_lines contents \<noteq> []"
    and "list_all clean_line (kept_lines contents)"
  shows "str_lines new = cycle_order (kept_lines contents)"
  using mapcycle_written [OF assms(1)] assms(2,3) cycle_order_set [of "kept_lines contents"]
  by (auto simp: list_all_iff intro: map_idI)

text \<open>
  C37: a repair that reports success has rewritten the map cycle and nothing
  else, and a second repair finds nothing to do.  The old entries without those of the portal
  (\<open>kept_lines\<close>) are the lines of the new file, each as often as before, \<open>svencoop1\<close> first if it is there
  (swapped with the first entry, the other entries keep their places); a carriage return left at the
  end of an entry goes, and when no entry is left the file holds one empty line.
\<close>

theorem mapcycle_repaired:
  assumes "fix_mapcycle_default env d h = (Inr True, g)"
  shows "\<exists>contents new x. node_at (h_files h) (mapcycle_path d) = Some (File (bytes_of contents) x)
     \<and> (\<exists>y. node_at (h_files g) (mapcycle_path d) = Some (File (bytes_of new) y))
     \<and> (\<forall>q. q \<noteq> mapcycle_path d \<longrightarrow> node_at (h_files g) q = node_at (h_files h) q)
     \<and> \<not> list_ex is_portal (str_lines new)
     \<and> str_lines new = (if kept_lines contents = [] then [[]] else map drop_cr (cycle_order (kept_lines contents)))
     \<and> mset (cycle_order (kept_lines contents)) = mset (kept_lines contents)
     \<and> ((\<exists>l\<in>set (kept_lines contents). trim l = ''svencoop1'') \<longrightarrow>
          trim (hd (cycle_order (kept_lines contents))) = ''svencoop1'')
     \<and> (kept_lines contents \<noteq> [] \<and> list_all clean_line (kept_lines contents) \<longrightarrow>
          mset (str_lines new) = mset (kept_lines contents)
        \<and> str_lines new = cycle_order (kept_lines contents)
        \<and> ((\<exists>l\<in>set (kept_lines contents). trim l = ''svencoop1'') \<longrightarrow> trim (hd (str_lines new)) = ''svencoop1''))
     \<and> (\<exists>k. fix_mapcycle_default env d g = (Inr False, k) \<and> h_files k = h_files g)"
proof -
  obtain contents new x where r: "node_at (h_files h) (mapcycle_path d) = Some (File (bytes_of contents) x)"
    "mapcycle_fixed contents = Some new" "mapcycle_path d \<noteq> ''/''"
    "h_files g = put_file (mapcycle_path d) (bytes_of new) (h_files h)"
    using fix_mapcycle_rewrites [OF assms] by blast
  obtain y where y: "node_at (h_files g) (mapcycle_path d) = Some (File (bytes_of new) y)"
    using node_at_put_file [OF r(3)] r(4) by metis
  have "mapcycle_fixed new = None"
    using mapcycle_no_portal [OF r(2)] by (simp add: mapcycle_fixed_def)
  then have again: "fix_mapcycle_default env d g = (Inr False, g\<lparr>h_calls := Suc (h_calls g)\<rparr>)"
    using y by (auto simp: fix_mapcycle_default_def io_bind_try fs_read_eq from_utf8_def
        ok_or_def split: option.splits)
  have "mset (cycle_order (kept_lines contents)) = mset (kept_lines contents)" by (rule cycle_order_mset)
  with mapcycle_written_clean [OF r(2)] mapcycle_written [OF r(2)] r y again mapcycle_no_portal [OF r(2)]
    cycle_order_hd [of "kept_lines contents"]
  show ?thesis
    by (intro exI [of _ contents] exI [of _ new] exI [of _ x]) (simp add: node_at_put_file_other)
qed

definition cycle_host :: host where
  "cycle_host = \<lparr>h_files = [(''/d'', Dir), (''/d/svencoop'', Dir),
       (''/d/svencoop/mapcycle.txt'', File (bytes_of
          (''-sp_campaign_portal'' @ LF @ ''abandoned'' @ LF @ ''svencoop1'' @ LF @ ''crystal'' @ LF)) False)],
     h_calls = 0, h_urls = [], h_commands = []\<rparr>"

lemma cycle_run:
  "fix_mapcycle_default demo_host_env ''/d'' cycle_host
   = (Inr True, cycle_host\<lparr>h_calls := 2, h_files := [(''/d'', Dir), (''/d/svencoop'', Dir),
       (''/d/svencoop/mapcycle.txt'', File (bytes_of
          (''svencoop1'' @ LF @ ''abandoned'' @ LF @ ''crystal'' @ LF)) False)]\<rparr>)"
  by code_simp

theorem mapcycle_repaired_witness:
  "\<exists>contents. node_at (h_files cycle_host) (mapcycle_path ''/d'') = Some (File (bytes_of contents) False)
     \<and> (\<exists>k. fix_mapcycle_default demo_host_env ''/d'' (snd (fix_mapcycle_default demo_host_env ''/d'' cycle_host))
            = (Inr False, k))"
proof -
  from mapcycle_repaired [OF cycle_run] obtain contents x k where
    "node_at (h_files cycle_host) (mapcycle_path ''/d'') = Some (File (bytes_of contents) x)"
    "fix_mapcycle_default demo_host_env ''/d'' (snd (fix_mapcycle_default demo_host_env ''/d'' cycle_host)) = (Inr False, k)"
    unfolding cycle_run snd_conv by blast
  moreover have "map_option mode_x (node_at (h_files cycle_host) (mapcycle_path ''/d'')) = Some False"
    by code_simp
  ultimately show ?thesis by auto
qed

subsection \<open>The sound cache is complete\<close>

lemma node_at_append: "node_at fs p \<noteq> None \<Longrightarrow> node_at (fs @ new) p = node_at fs p"
  by (auto simp: node_at_def map_add_def split: option.splits)

lemma node_at_append_None: "node_at fs p = None \<Longrightarrow> node_at (fs @ new) p = node_at new p"
  by (auto simp: node_at_def map_add_def split: option.splits if_splits)

lemma update_append: "k \<notin> fst ` set al \<Longrightarrow> AList.update k v al = al @ [(k, v)]"
  by (induction al) auto

lemma put_file_append: "node_at fs p = None \<Longrightarrow> put_file p bs fs = fs @ [(p, File bs False)]"
  by (auto simp: put_file_def node_at_def map_of_eq_None_iff update_append split: if_splits)

lemma fold_make_dir_append:
  "\<exists>new. fold make_dir ps fs = fs @ new \<and> set new \<subseteq> (\<lambda>p. (p, Dir)) ` set ps"
proof (induction ps arbitrary: fs)
  case (Cons p ps)
  obtain new where n: "fold make_dir ps (make_dir p fs) = make_dir p fs @ new"
    "set new \<subseteq> (\<lambda>p. (p, Dir)) ` set ps"
    using Cons.IH by blast
  show ?case
  proof (cases "node_at fs p")
    case None
    then have "make_dir p fs = fs @ [(p, Dir)]" by (simp add: make_dir_def)
    then show ?thesis using n by (intro exI [of _ "(p, Dir) # new"]) auto
  next
    case (Some nd)
    then have "make_dir p fs = fs" by (simp add: make_dir_def)
    then show ?thesis using n by (intro exI [of _ new]) auto
  qed
qed simp

lemma fold_make_dir_present:
  "p \<in> set ps \<or> node_at fs p \<noteq> None \<Longrightarrow> node_at (fold make_dir ps fs) p \<noteq> None"
proof (induction ps arbitrary: fs)
  case (Cons q ps)
  have "p \<in> set ps \<or> node_at (make_dir q fs) p \<noteq> None"
    using Cons.prems by (auto simp: node_at_make_dir)
  then show ?case using Cons.IH by simp
qed simp

lemma fold_make_dir_dir:
  assumes "p \<in> set ps" and "\<forall>b x. node_at fs p \<noteq> Some (File b x)"
  shows "node_at (fold make_dir ps fs) p = Some Dir"
proof -
  obtain new where n: "fold make_dir ps fs = fs @ new" "set new \<subseteq> (\<lambda>p. (p, Dir)) ` set ps"
    using fold_make_dir_append by blast
  show ?thesis
  proof (cases "node_at fs p")
    case (Some nd)
    then show ?thesis using assms(2) n(1) node_at_append [of fs p new] by (cases nd) auto
  next
    case None
    then have new: "node_at (fold make_dir ps fs) p = node_at new p" using n(1) by (simp add: node_at_append_None)
    then obtain nd where nd: "node_at new p = Some nd"
      using fold_make_dir_present [of p ps fs] assms(1) by auto
    have "(p, nd) \<in> set new \<or> nd = Dir"
      using nd by (auto simp: node_at_def dest: map_of_SomeD split: if_splits)
    then have "nd = Dir" using n(2) by auto
    then show ?thesis using nd new by simp
  qed
qed

lemma path_join_plain: "d \<noteq> [] \<Longrightarrow> last d \<noteq> CHR ''/'' \<Longrightarrow> n \<noteq> [] \<Longrightarrow> hd n \<noteq> CHR ''/'' \<Longrightarrow>
   path_join d n = d @ ''/'' @ n"
  by (cases n) (auto simp: path_join_def starts_with_def)

lemma path_join_end:
  "n \<noteq> [] \<Longrightarrow> CHR ''/'' \<notin> set n \<Longrightarrow> path_join d n \<noteq> [] \<and> last (path_join d n) = last n"
  by (cases n) (auto simp: path_join_def starts_with_def)

lemma trim_slashes_id: "p \<noteq> [] \<Longrightarrow> last p \<noteq> CHR ''/'' \<Longrightarrow> trim_slashes p = p"
  by (cases p rule: rev_cases) (simp_all add: trim_slashes_def)

lemma path_parent_join:
  assumes "d \<noteq> []" and "last d \<noteq> CHR ''/''" and "n \<noteq> []" and "CHR ''/'' \<notin> set n"
  shows "path_parent (d @ ''/'' @ n) = Some d"
proof -
  have "last n \<noteq> CHR ''/''" using assms(3,4) by (metis last_in_set)
  then have "trim_slashes (d @ ''/'' @ n) = d @ ''/'' @ n" using assms(3) by (intro trim_slashes_id) auto
  moreover have "rfind_char (CHR ''/'') (d @ ''/'' @ n) = Some (length d)"
    using rfind_char_append [OF assms(4), of d] by simp
  ultimately show ?thesis using trim_slashes_id [OF assms(1,2)] assms(1) by (simp add: path_parent_def Let_def)
qed

definition no_faults :: "host_env \<Rightarrow> bool" where
  "no_faults env \<longleftrightarrow> (\<forall>n. he_fault env n = None)"

definition stems :: "string list \<Rightarrow> string list" where
  "stems names = List.map_filter bsp_stem names"

text \<open>The calls of a host without faults.\<close>

lemma no_fault_calls:
  assumes "no_faults env"
  shows "next_entry env h = (Inr (), h\<lparr>h_calls := Suc (h_calls h)\<rparr>)"
    and "fs_exists env p h = (Inr (node_at (h_files h) p \<noteq> None), h\<lparr>h_calls := Suc (h_calls h)\<rparr>)"
    and "node_at (h_files h) p = None \<Longrightarrow> path_parent p = Some d \<Longrightarrow> dir_ok (h_files h) d \<Longrightarrow>
      fs_write env p bs h = (Inr (), h\<lparr>h_calls := Suc (h_calls h), h_files := h_files h @ [(p, File bs False)]\<rparr>)"
  using assms
  by (simp_all add: no_faults_def next_entry_def syscall_def Let_def fs_exists_eq fs_write_def parent_there_def put_file_append)

lemma dir_ok_append: "dir_ok fs d \<Longrightarrow> dir_ok (fs @ new) d"
  by (auto simp: dir_ok_def node_at_append)

lemma create_caches_outcome:
  assumes "no_faults env" and "dir_ok (h_files h) (soundcache_dir d)"
    and "\<forall>m\<in>set (stems names). path_parent (cache_file d m) = Some (soundcache_dir d)"
  shows "\<exists>new c. create_caches env d names h =
        (Inr (length new), h\<lparr>h_calls := c, h_files := h_files h @ new\<rparr>)
     \<and> set new \<subseteq> (\<lambda>m. (cache_file d m, File [] False)) ` set (stems names)
     \<and> distinct (map fst new) \<and> (\<forall>p\<in>fst ` set new. node_at (h_files h) p = None)
     \<and> (\<forall>m\<in>set (stems names). node_at (h_files h @ new) (cache_file d m) \<noteq> None)"
  using assms(2,3)
proof (induction names arbitrary: h)
  case Nil
  then show ?case by (intro exI [of _ "[]"] exI [of _ "h_calls h"]) (simp add: stems_def map_filter_def)
next
  case (Cons n ns)
  let ?h1 = "h\<lparr>h_calls := Suc (h_calls h)\<rparr>" and ?h2 = "h\<lparr>h_calls := Suc (Suc (h_calls h))\<rparr>"
  note calls = no_fault_calls [OF assms(1)] io_bind_try
  show ?case
  proof (cases "bsp_stem n")
    case None
    then have "stems (n # ns) = stems ns" by (simp add: stems_def map_filter_def)
    then show ?thesis using Cons.IH [of ?h1] Cons.prems None by (simp add: calls)
  next
    case (Some m)
    then have st: "stems (n # ns) = m # stems ns" by (simp add: stems_def map_filter_def)
    show ?thesis
    proof (cases "node_at (h_files h) (cache_file d m)")
      case (Some nd)
      have "create_caches env d (n # ns) h = create_caches env d ns ?h2"
        using \<open>bsp_stem n = Some m\<close> Some by (simp add: calls io_bind_def io_try_eq)
      then show ?thesis using Cons.IH [of ?h2] Cons.prems Some node_at_append [of "h_files h" "cache_file d m"]
        unfolding st by fastforce
    next
      case None
      let ?f = "(cache_file d m, File [] False)"
      let ?h3 = "h\<lparr>h_calls := Suc (Suc (Suc (h_calls h))), h_files := h_files h @ [?f]\<rparr>"
      have pp: "path_parent (cache_file d m) = Some (soundcache_dir d)" using Cons.prems(2) st by simp
      have "cache_file d m \<noteq> ''/''" using None by (auto simp: node_at_def)
      then have there: "node_at (h_files h @ [?f]) (cache_file d m) = Some (File [] False)"
        using node_at_append_None [OF None, of "[?f]"] by (simp add: node_at_def)
      have "dir_ok (h_files ?h3) (soundcache_dir d)" using Cons.prems(1) by (simp add: dir_ok_append)
      moreover have "\<forall>m\<in>set (stems ns). path_parent (cache_file d m) = Some (soundcache_dir d)"
        using Cons.prems(2) st by simp
      ultimately obtain new c where ih: "create_caches env d ns ?h3 =
          (Inr (length new), ?h3\<lparr>h_calls := c, h_files := h_files ?h3 @ new\<rparr>)"
        "set new \<subseteq> (\<lambda>m. (cache_file d m, File [] False)) ` set (stems ns)"
        "distinct (map fst new)" "\<forall>p\<in>fst ` set new. node_at (h_files ?h3) p = None"
        "\<forall>m\<in>set (stems ns). node_at (h_files ?h3 @ new) (cache_file d m) \<noteq> None"
        using Cons.IH [of ?h3] by blast
      have run: "create_caches env d (n # ns) h =
          (Inr (length (?f # new)), h\<lparr>h_calls := c, h_files := h_files h @ ?f # new\<rparr>)"
        using \<open>bsp_stem n = Some m\<close> None Cons.prems(1) pp ih(1)
        by (simp add: calls io_bind_def io_try_eq)
      have fresh: "node_at (h_files h) p = None \<and> p \<noteq> cache_file d m" if "p \<in> fst ` set new" for p
        using ih(4) that there node_at_append [of "h_files h" p "[?f]"] by fastforce
      have "node_at ((h_files h @ [?f]) @ new) (cache_file d m) \<noteq> None"
        using node_at_append [of "h_files h @ [?f]" "cache_file d m" new] there by simp
      then show ?thesis using run ih(2,3,5) fresh None unfolding st
        by (intro exI [of _ "?f # new"] exI [of _ c]) fastforce
    qed
  qed
qed

lemma child_name_parts: "child_name d p = Some n \<Longrightarrow> n \<noteq> [] \<and> CHR ''/'' \<notin> set n \<and> p = path_join d n"
  by (auto simp: child_name_def Let_def split: if_splits)

lemma children_iff: "n \<in> set (children d fs) \<longleftrightarrow> (\<exists>p\<in>fst ` set fs. child_name d p = Some n)"
  by (auto simp: children_def map_filter_def) force+

lemma children_names: "n \<in> set (children d fs) \<Longrightarrow> n \<noteq> [] \<and> CHR ''/'' \<notin> set n"
  by (auto simp: children_iff dest!: child_name_parts)

lemma bsp_stem_plain: "bsp_stem n = Some m \<Longrightarrow> CHR ''/'' \<notin> set n \<Longrightarrow> m \<noteq> [] \<and> CHR ''/'' \<notin> set m"
proof -
  assume a: "bsp_stem n = Some m" "CHR ''/'' \<notin> set n"
  then obtain i where i: "rfind_char (CHR ''.'') n = Some (Suc i)"
    by (auto simp: bsp_stem_def name_extension_def split: if_splits option.splits nat.splits)
  then have "m = take (Suc i) n" using a(1) by (simp add: bsp_stem_def name_stem_def split: if_splits)
  then show ?thesis using a(2) i by (cases n) (auto dest: in_set_takeD)
qed

lemma soundcache_dir_plain: "soundcache_dir d \<noteq> [] \<and> last (soundcache_dir d) \<noteq> CHR ''/''"
  using path_join_end [of "''soundcache''" "maps_dir d ''svencoop''"] by (simp add: soundcache_dir_def)

lemma cache_file_parts:
  assumes "CHR ''/'' \<notin> set m" and "m \<noteq> []"
  shows "cache_file d m = soundcache_dir d @ ''/'' @ m @ ''.txt''"
    and "path_parent (cache_file d m) = Some (soundcache_dir d)"
proof -
  have n: "m @ ''.txt'' \<noteq> []" "CHR ''/'' \<notin> set (m @ ''.txt'')" "hd (m @ ''.txt'') \<noteq> CHR ''/''"
    using assms by (cases m; auto)+
  show "cache_file d m = soundcache_dir d @ ''/'' @ m @ ''.txt''"
    using path_join_plain n soundcache_dir_plain by (simp add: cache_file_def)
  then show "path_parent (cache_file d m) = Some (soundcache_dir d)"
    using path_parent_join [OF _ _ n(1,2), of "soundcache_dir d"] soundcache_dir_plain by simp
qed

text \<open>What the new files and directories add to the listing of the maps.\<close>

lemma maps_dir_plain: "maps_dir d g \<noteq> [] \<and> last (maps_dir d g) \<noteq> CHR ''/''"
  using path_join_end [of "''maps''" "path_join d g"] by (simp add: maps_dir_def)

lemma soundcache_dir_text: "soundcache_dir d = maps_dir d ''svencoop'' @ ''/soundcache''"
  using path_join_plain [of "maps_dir d ''svencoop''" "''soundcache''"] maps_dir_plain
  by (simp add: soundcache_dir_def)

lemma cache_not_listed:
  "CHR ''/'' \<notin> set m \<Longrightarrow> m \<noteq> [] \<Longrightarrow> child_name (maps_dir d ''svencoop'') (cache_file d m) = None"
  by (simp add: cache_file_parts soundcache_dir_text child_name_def Let_def)

lemma dir_prefix_is_prefix: "q \<in> set (dir_prefixes p) \<Longrightarrow> prefix q p"
  by (auto simp: dir_prefixes_def take_is_prefix)

lemma prefix_listed:
  assumes "q \<in> set (dir_prefixes (soundcache_dir d))" and "child_name (maps_dir d ''svencoop'') q = Some n"
  shows "n = ''soundcache''"
proof -
  let ?M = "maps_dir d ''svencoop''"
  have n: "n \<noteq> []" "CHR ''/'' \<notin> set n" "q = path_join ?M n" using child_name_parts [OF assms(2)] by auto
  then have q: "q = ?M @ ''/'' @ n"
    using path_join_plain [of ?M n] maps_dir_plain by (metis hd_in_set)
  show ?thesis
  proof (cases "q = soundcache_dir d")
    case True
    then show ?thesis using q by (simp add: soundcache_dir_text)
  next
    case False
    then obtain i where i: "i < length (soundcache_dir d)" "soundcache_dir d ! i = CHR ''/''" "q = take i (soundcache_dir d)"
      using assms(1) by (auto simp: dir_prefixes_def)
    have "length q = i" using i by simp
    then have "length ?M < i" using q by simp
    then obtain k where k: "i = length ?M + Suc k" by (metis add_Suc_right less_imp_Suc_add)
    then have "''soundcache'' ! k = CHR ''/''" "k < length ''soundcache''"
      using i(1,2) by (auto simp: soundcache_dir_text nth_append)
    then show ?thesis by (auto simp: nth_Cons' split: if_splits)
  qed
qed

lemma stems_append [simp]: "stems (xs @ ys) = stems xs @ stems ys"
  by (simp add: stems_def map_filter_def)

lemma stems_iff: "m \<in> set (stems names) \<longleftrightarrow> (\<exists>n\<in>set names. bsp_stem n = Some m)"
  by (auto simp: stems_def map_filter_def) force+

lemma soundcache_no_map: "bsp_stem ''soundcache'' = None"
  by code_simp

lemma listed_stems:
  assumes "m \<in> set (stems (children (maps_dir d ''svencoop'') fs))"
  shows "m \<noteq> [] \<and> CHR ''/'' \<notin> set m \<and> path_parent (cache_file d m) = Some (soundcache_dir d)"
  using assms bsp_stem_plain cache_file_parts(2) by (auto simp: stems_iff dest!: children_names)

text \<open>Files that a repair adds do not add maps.\<close>

lemma added_no_maps:
  assumes "fst ` set new \<subseteq> set (dir_prefixes (soundcache_dir d))
      \<union> cache_file d ` set (stems (children (maps_dir d ''svencoop'') fs))"
  shows "set (stems (children (maps_dir d ''svencoop'') (fs @ new)))
    = set (stems (children (maps_dir d ''svencoop'') fs))"
proof -
  have "n = ''soundcache''" if listed: "n \<in> set (children (maps_dir d ''svencoop'') new)" for n
  proof -
    obtain p where p: "p \<in> fst ` set new" "child_name (maps_dir d ''svencoop'') p = Some n"
      using listed by (auto simp: children_iff)
    from p(1) assms have "p \<in> set (dir_prefixes (soundcache_dir d))
        \<or> p \<in> cache_file d ` set (stems (children (maps_dir d ''svencoop'') fs))" by blast
    then show ?thesis
    proof
      assume "p \<in> cache_file d ` set (stems (children (maps_dir d ''svencoop'') fs))"
      then obtain m where "m \<in> set (stems (children (maps_dir d ''svencoop'') fs))" "p = cache_file d m" by blast
      then show ?thesis using p(2) cache_not_listed [of m d] listed_stems [of m d fs] by simp
    qed (rule prefix_listed [OF _ p(2)])
  qed
  then have "m \<notin> set (stems (children (maps_dir d ''svencoop'') new))" for m
    using soundcache_no_map stems_iff by fastforce
  then have "set (stems (children (maps_dir d ''svencoop'') new)) = {}" unfolding set_eq_iff by simp
  moreover have "children D (fs @ new) = children D fs @ children D new" for D
    by (simp add: children_def map_filter_def)
  ultimately show ?thesis by simp
qed

definition dirs_possible :: "files \<Rightarrow> path \<Rightarrow> bool" where
  "dirs_possible fs p \<longleftrightarrow>
     \<not> list_ex (\<lambda>q. case node_at fs q of Some (File _ _) \<Rightarrow> True | _ \<Rightarrow> False) (dir_prefixes p)"

lemma dirs_possibleD: "dirs_possible fs p \<Longrightarrow> q \<in> set (dir_prefixes p) \<Longrightarrow> node_at fs q \<noteq> Some (File b x)"
  by (force simp: dirs_possible_def list_ex_iff)

lemma precreate_outcome:
  assumes "no_faults env" and "dir_ok (h_files h) (maps_dir d ''svencoop'')"
    and "dirs_possible (h_files h) (soundcache_dir d)"
  defines "maps \<equiv> stems (children (maps_dir d ''svencoop'') (h_files h))"
  shows "\<exists>dirs new c. precreate_soundcache env d h =
        (Inr (length new), h\<lparr>h_calls := c, h_files := h_files h @ dirs @ new\<rparr>)
     \<and> set dirs \<subseteq> (\<lambda>p. (p, Dir)) ` set (dir_prefixes (soundcache_dir d))
     \<and> h_files h @ dirs = fold make_dir (dir_prefixes (soundcache_dir d)) (h_files h)
     \<and> set new \<subseteq> (\<lambda>m. (cache_file d m, File [] False)) ` set maps
     \<and> distinct (map fst new) \<and> (\<forall>p\<in>fst ` set new. node_at (h_files h @ dirs) p = None)
     \<and> (\<forall>m\<in>set maps. node_at (h_files h @ dirs @ new) (cache_file d m) \<noteq> None)"
proof -
  let ?P = "dir_prefixes (soundcache_dir d)"
  obtain dirs where dirs: "fold make_dir ?P (h_files h) = h_files h @ dirs" "set dirs \<subseteq> (\<lambda>p. (p, Dir)) ` set ?P"
    using fold_make_dir_append by blast
  let ?h2 = "h\<lparr>h_calls := Suc (Suc (h_calls h)), h_files := h_files h @ dirs\<rparr>"
  have start: "precreate_soundcache env d h =
      create_caches env d (children (maps_dir d ''svencoop'') (h_files h)) ?h2"
    using assms(1-3) maps_dir_plain [of d "''svencoop''"] dirs(1)
    by (simp add: precreate_soundcache_def io_bind_try fs_read_dir_def fs_create_dir_all_def syscall_def
        Let_def no_faults_def dirs_possible_def file_on_way_def)
  have "soundcache_dir d \<in> set ?P" by (simp add: dir_prefixes_def)
  moreover have "\<forall>b x. node_at (h_files h) (soundcache_dir d) \<noteq> Some (File b x)"
    using assms(3) calculation by (auto simp: dirs_possible_def list_ex_iff)
  ultimately have "node_at (fold make_dir ?P (h_files h)) (soundcache_dir d) = Some Dir"
    by (rule fold_make_dir_dir)
  then have "dir_ok (h_files ?h2) (soundcache_dir d)" using dirs(1) by (simp add: dir_ok_def)
  moreover have "\<forall>m\<in>set maps. path_parent (cache_file d m) = Some (soundcache_dir d)"
    using listed_stems by (simp add: maps_def)
  ultimately obtain new c where n: "create_caches env d (children (maps_dir d ''svencoop'') (h_files h)) ?h2 =
      (Inr (length new), ?h2\<lparr>h_calls := c, h_files := h_files ?h2 @ new\<rparr>)"
    "set new \<subseteq> (\<lambda>m. (cache_file d m, File [] False)) ` set maps" "distinct (map fst new)"
    "\<forall>p\<in>fst ` set new. node_at (h_files ?h2) p = None"
    "\<forall>m\<in>set maps. node_at (h_files ?h2 @ new) (cache_file d m) \<noteq> None"
    using create_caches_outcome [OF assms(1)] unfolding maps_def by blast
  show ?thesis using start n dirs
    by (intro exI [of _ dirs] exI [of _ new] exI [of _ c]) simp
qed

lemma fold_make_dir_noop: "\<forall>p\<in>set ps. node_at fs p \<noteq> None \<Longrightarrow> fold make_dir ps fs = fs"
  by (induction ps) (auto simp: make_dir_def)

text \<open>
  C38: on a host where no call fails and no file is in the way, after the
  run every map has its sound cache file, nothing that existed has changed, the files that
  are new are empty, and the number returned is how many were created.  Running again
  creates nothing and changes no file.
\<close>

theorem soundcache_complete:
  assumes "no_faults env" and "dir_ok (h_files h) (maps_dir d ''svencoop'')"
    and "dirs_possible (h_files h) (soundcache_dir d)"
  shows "\<exists>k g dirs new. precreate_soundcache env d h = (Inr k, g)
     \<and> h_files g = h_files h @ dirs @ new \<and> k = length new \<and> distinct (map fst new)
     \<and> list_all (\<lambda>(p, nd). nd = Dir) dirs \<and> list_all (\<lambda>(p, nd). nd = File [] False) new
     \<and> (\<forall>n\<in>set (children (maps_dir d ''svencoop'') (h_files h)). \<forall>m.
          bsp_stem n = Some m \<longrightarrow> node_at (h_files g) (cache_file d m) \<noteq> None)
     \<and> (\<forall>q. node_at (h_files h) q \<noteq> None \<longrightarrow> node_at (h_files g) q = node_at (h_files h) q)
     \<and> fst (precreate_soundcache env d g) = Inr 0
     \<and> h_files (snd (precreate_soundcache env d g)) = h_files g"
proof -
  let ?M = "maps_dir d ''svencoop''" and ?P = "dir_prefixes (soundcache_dir d)"
  let ?maps = "stems (children ?M (h_files h))"
  obtain dirs new c where o: "precreate_soundcache env d h =
        (Inr (length new), h\<lparr>h_calls := c, h_files := h_files h @ dirs @ new\<rparr>)"
    "set dirs \<subseteq> (\<lambda>p. (p, Dir)) ` set ?P" "h_files h @ dirs = fold make_dir ?P (h_files h)"
    "set new \<subseteq> (\<lambda>m. (cache_file d m, File [] False)) ` set ?maps" "distinct (map fst new)"
    "\<forall>p\<in>fst ` set new. node_at (h_files h @ dirs) p = None"
    "\<forall>m\<in>set ?maps. node_at (h_files h @ dirs @ new) (cache_file d m) \<noteq> None"
    using precreate_outcome [OF assms] by blast
  define g where "g = h\<lparr>h_calls := c, h_files := h_files h @ dirs @ new\<rparr>"
  have files: "h_files g = h_files h @ dirs @ new" by (simp add: g_def)
  have kept: "node_at (h_files g) q = node_at (h_files h) q" if "node_at (h_files h) q \<noteq> None" for q
    using that files by (simp add: node_at_append)
  have present: "node_at (h_files g) q \<noteq> None" if "q \<in> set ?P" for q
  proof -
    have "node_at (h_files h @ dirs) q \<noteq> None" using fold_make_dir_present that o(3) by metis
    then show ?thesis using files node_at_append [of "h_files h @ dirs" q new] by simp
  qed
  have not_file: "node_at (h_files g) q \<noteq> Some (File b x)" if "q \<in> set ?P" for q b x
  proof -
    have "node_at (fold make_dir ?P (h_files h)) q = Some Dir"
      using fold_make_dir_dir [OF that] dirs_possibleD [OF assms(3) that] by blast
    then have "node_at (h_files h @ dirs) q = Some Dir" by (simp only: o(3))
    then show ?thesis using files node_at_append [of "h_files h @ dirs" q new] by simp
  qed
  have "fst ` set (dirs @ new) \<subseteq> set ?P \<union> cache_file d ` set ?maps" using o(2,4) by fastforce
  then have maps: "set (stems (children ?M (h_files g))) = set ?maps" using added_no_maps files by simp
  have "dir_ok (h_files g) ?M" using assms(2) files by (simp add: dir_ok_append)
  moreover have "dirs_possible (h_files g) (soundcache_dir d)"
    using not_file by (auto simp: dirs_possible_def list_ex_iff split: option.splits node.splits)
  ultimately obtain dirs' new' c' where o': "precreate_soundcache env d g =
        (Inr (length new'), g\<lparr>h_calls := c', h_files := h_files g @ dirs' @ new'\<rparr>)"
    "h_files g @ dirs' = fold make_dir ?P (h_files g)"
    "set new' \<subseteq> (\<lambda>m. (cache_file d m, File [] False)) ` set ?maps"
    "\<forall>p\<in>fst ` set new'. node_at (h_files g @ dirs') p = None"
    using precreate_outcome [OF assms(1), of g d] unfolding maps by blast
  have "dirs' = []" using o'(2) fold_make_dir_noop present by simp
  moreover have "new' = []"
  proof (cases new')
    case (Cons e es)
    then have "node_at (h_files g) (fst e) = None" "fst e \<in> cache_file d ` set ?maps"
      using o'(3,4) \<open>dirs' = []\<close> by auto
    then show ?thesis using o(7) files by auto
  qed simp
  ultimately have again: "fst (precreate_soundcache env d g) = Inr 0"
    "h_files (snd (precreate_soundcache env d g)) = h_files g" using o'(1) by simp_all
  show ?thesis
    using o(1,2,4,5,7) files kept again
    by (intro exI [of _ "length new"] exI [of _ g] exI [of _ dirs] exI [of _ new])
      (auto simp: g_def list_all_iff stems_iff)
qed

definition maps_host :: host where
  "maps_host = \<lparr>h_files = [(''/d/svencoop/maps'', Dir), (''/d/svencoop/maps/a.bsp'', File [1] False),
       (''/d/svencoop/maps/readme.txt'', File [2] False)],
     h_calls = 0, h_urls = [], h_commands = []\<rparr>"

theorem soundcache_complete_witness:
  "no_faults demo_host_env
   \<and> (\<exists>k g. precreate_soundcache demo_host_env ''/d'' maps_host = (Inr k, g)
       \<and> node_at (h_files g) ''/d/svencoop/maps/soundcache/a.txt'' \<noteq> None
       \<and> fst (precreate_soundcache demo_host_env ''/d'' g) = Inr 0)"
proof -
  have nf: "no_faults demo_host_env" by (simp add: no_faults_def demo_host_env_def)
  have d: "dir_ok (h_files maps_host) (maps_dir ''/d'' ''svencoop'')"
    "dirs_possible (h_files maps_host) (soundcache_dir ''/d'')" by code_simp+
  have n: "''a.bsp'' \<in> set (children (maps_dir ''/d'' ''svencoop'') (h_files maps_host))"
    "bsp_stem ''a.bsp'' = Some ''a''" "cache_file ''/d'' ''a'' = ''/d/svencoop/maps/soundcache/a.txt''"
    by code_simp+
  show ?thesis using soundcache_complete [OF nf d] nf n by metis
qed

subsection \<open>The search and the map list\<close>

lemma is_executable_clean:
  assumes "no_faults env"
  shows "is_executable env os p h =
     (Inr (case node_at (h_files h) p of Some (File _ x) \<Rightarrow> os = Windows \<or> x | _ \<Rightarrow> False),
      h\<lparr>h_calls := Suc (h_calls h)\<rparr>)"
  using assms
  by (simp add: is_executable_def io_bind_try fs_metadata_def syscall_def Let_def no_faults_def ok_or_def
      split: option.split)

definition executable_at :: "os \<Rightarrow> files \<Rightarrow> path \<Rightarrow> bool" where
  "executable_at os fs p = (case node_at fs p of Some (File _ x) \<Rightarrow> os = Windows \<or> x | _ \<Rightarrow> False)"

lemma first_executable_clean:
  assumes "no_faults env"
  shows "\<exists>g. first_executable env os dirs h =
      (Inr (map_option (\<lambda>d. (path_join d (ds_exe_name os), d))
         (find (\<lambda>d. executable_at os (h_files h) (path_join d (ds_exe_name os))) dirs)), g)
    \<and> h_files g = h_files h"
proof (induction dirs arbitrary: h)
  case (Cons d dirs)
  show ?case
    using Cons.IH [of "h\<lparr>h_calls := Suc (h_calls h)\<rparr>"]
    by (auto simp: io_bind_def is_executable_clean [OF assms] executable_at_def split: option.splits node.splits)
qed simp

text \<open>Where an install is looked for, in order.\<close>

definition search_dirs :: "host_env \<Rightarrow> path \<Rightarrow> os \<Rightarrow> files \<Rightarrow> path list" where
  "search_dirs env bundle os fs =
     path_join bundle ''svends''
     # marker_dirs (case node_at fs (path_join bundle ''.svends_path'') of
         Some (File bs _) \<Rightarrow> ok_or ''stream did not contain valid UTF-8'' (from_utf8 bs) | _ \<Rightarrow> Inl ''not found'')
     @ map steam_game_dir (steam_install_candidates env os)"

lemma find_append: "find P (xs @ ys) = (case find P xs of Some x \<Rightarrow> Some x | None \<Rightarrow> find P ys)"
  by (induction xs) auto

text \<open>
  Fact: on a host where no call fails, the search returns the first
  directory of the list (bundle, marker file, Steam libraries) that holds the executable,
  with the executable in it, and changes no file; it returns nothing exactly when none does.
\<close>

theorem find_first_install:
  assumes "no_faults env"
  shows "\<exists>g. find_svends_inner env bundle os h =
      (Inr (map_option (\<lambda>d. (path_join d (ds_exe_name os), d))
         (find (\<lambda>d. executable_at os (h_files h) (path_join d (ds_exe_name os)))
           (search_dirs env bundle os (h_files h)))), g)
    \<and> h_files g = h_files h"
proof -
  let ?P = "\<lambda>d. executable_at os (h_files h) (path_join d (ds_exe_name os))"
  obtain h1 where h1: "first_executable env os [path_join bundle ''svends''] h =
      (Inr (map_option (\<lambda>d. (path_join d (ds_exe_name os), d)) (find ?P [path_join bundle ''svends''])), h1)"
    "h_files h1 = h_files h"
    using first_executable_clean [OF assms] by blast
  define r where "r = fst (fs_read_to_string env (path_join bundle ''.svends_path'') h1)"
  define h2 where "h2 = snd (fs_read_to_string env (path_join bundle ''.svends_path'') h1)"
  have f2: "h_files h2 = h_files h" using h1(2) by (simp add: h2_def fs_read_eq)
  have r: "marker_dirs r = marker_dirs (case node_at (h_files h) (path_join bundle ''.svends_path'') of
         Some (File bs _) \<Rightarrow> ok_or ''stream did not contain valid UTF-8'' (from_utf8 bs) | _ \<Rightarrow> Inl ''not found'')"
    using assms h1(2) by (auto simp: r_def fs_read_eq no_faults_def marker_dirs_def split: option.splits node.splits)
  obtain h3 where h3: "first_executable env os (marker_dirs r) h2 =
      (Inr (map_option (\<lambda>d. (path_join d (ds_exe_name os), d)) (find ?P (marker_dirs r))), h3)"
    "h_files h3 = h_files h"
    using first_executable_clean [OF assms, of os "marker_dirs r" h2] f2 by auto
  obtain h4 where h4: "first_executable env os (map steam_game_dir (steam_install_candidates env os)) h3 =
      (Inr (map_option (\<lambda>d. (path_join d (ds_exe_name os), d))
         (find ?P (map steam_game_dir (steam_install_candidates env os)))), h4)"
    "h_files h4 = h_files h"
    using first_executable_clean [OF assms, of os _ h3] h3(2) by auto
  have run: "find_svends_inner env bundle os h =
      (if ?P (path_join bundle ''svends'') then (fst (first_executable env os [path_join bundle ''svends''] h), h1)
       else if find ?P (marker_dirs r) \<noteq> None then (fst (first_executable env os (marker_dirs r) h2), h3)
       else first_executable env os (map steam_game_dir (steam_install_candidates env os)) h3)"
    using h1(1) h3(1)
    by (auto simp: find_svends_inner_def io_bind_def io_try_eq r_def h2_def simp del: first_executable.simps)
  show ?thesis unfolding search_dirs_def r [symmetric]
    using run h1 h3 h4 by (auto simp: find_append split: option.splits)
qed

definition found_host :: host where
  "found_host = \<lparr>h_files = [(''/b/.svends_path'', File (bytes_of '' /opt/ds '') False),
       (''/opt/ds/svends_run'', File [1] True), (''/b/svends/svends_run'', File [1] False)],
     h_calls = 0, h_urls = [], h_commands = []\<rparr>"

theorem find_first_install_witness:
  "fst (find_svends_inner demo_host_env ''/b'' Linux found_host) = Inr (Some (''/opt/ds/svends_run'', ''/opt/ds''))"
proof -
  have nf: "no_faults demo_host_env" by (simp add: no_faults_def demo_host_env_def)
  have "find (\<lambda>d. executable_at Linux (h_files found_host) (path_join d (ds_exe_name Linux)))
      (search_dirs demo_host_env ''/b'' Linux (h_files found_host)) = Some ''/opt/ds''"
    "path_join ''/opt/ds'' (ds_exe_name Linux) = ''/opt/ds/svends_run''" by code_simp+
  then show ?thesis using find_first_install [OF nf, of "''/b''" Linux found_host] by auto
qed

lemma dir_maps_clean:
  assumes "no_faults env"
  shows "\<exists>c. dir_maps env names h = (Inr (stems names), h\<lparr>h_calls := c\<rparr>)"
proof (induction names arbitrary: h)
  case Nil
  then show ?case by (intro exI [of _ "h_calls h"]) (simp add: stems_def map_filter_def)
next
  case (Cons n ns)
  obtain c where "dir_maps env ns (h\<lparr>h_calls := Suc (h_calls h)\<rparr>)
      = (Inr (stems ns), h\<lparr>h_calls := c\<rparr>)"
    using Cons.IH [of "h\<lparr>h_calls := Suc (h_calls h)\<rparr>"] by auto
  then show ?case
    by (intro exI [of _ c]) (simp add: io_bind_def io_try_eq no_fault_calls [OF assms] stems_def map_filter_def
        split: option.split)
qed

definition listed_maps :: "path \<Rightarrow> string \<Rightarrow> files \<Rightarrow> string list" where
  "listed_maps d game fs = (if dir_ok fs (maps_dir d game) then stems (children (maps_dir d game) fs) else [])"

lemma game_maps_clean:
  assumes "no_faults env"
  shows "\<exists>c. game_maps env d games h
    = (Inr (concat (map (\<lambda>g. listed_maps d g (h_files h)) games)), h\<lparr>h_calls := c\<rparr>)"
proof (induction games arbitrary: h)
  case Nil
  then show ?case by (intro exI [of _ "h_calls h"]) simp
next
  case (Cons game games)
  let ?h1 = "h\<lparr>h_calls := Suc (h_calls h)\<rparr>"
  have rd: "fs_read_dir env (maps_dir d game) h =
      (if dir_ok (h_files h) (maps_dir d game) then Inr (children (maps_dir d game) (h_files h))
       else Inl ''not a directory'', ?h1)"
    using assms maps_dir_plain [of d game]
    by (simp add: fs_read_dir_def syscall_def Let_def no_faults_def)
  obtain c1 where c1: "dir_maps env (children (maps_dir d game) (h_files h)) ?h1
      = (Inr (stems (children (maps_dir d game) (h_files h))), h\<lparr>h_calls := c1\<rparr>)"
    using dir_maps_clean [OF assms, of _ ?h1] by auto
  define c2 where "c2 = (if dir_ok (h_files h) (maps_dir d game) then c1 else Suc (h_calls h))"
  obtain c3 where "game_maps env d games (h\<lparr>h_calls := c2\<rparr>)
      = (Inr (concat (map (\<lambda>g. listed_maps d g (h_files h)) games)), h\<lparr>h_calls := c3\<rparr>)"
    using Cons.IH [of "h\<lparr>h_calls := c2\<rparr>"] by auto
  then show ?case using rd c1
    by (intro exI [of _ c3]) (cases "dir_ok (h_files h) (maps_dir d game)"; simp add: io_bind_def io_try_eq listed_maps_def c2_def)
qed

lemma sorted_remdups_adj_distinct: "sorted xs \<Longrightarrow> distinct (remdups_adj xs)"
  by (induction xs rule: remdups_adj.induct) (auto dest: order_antisym)

text \<open>
  Fact: on a host where no call fails, the map list is sorted, has no map twice
  and holds exactly the maps of the two game directories that can be read; no file changes.
\<close>

theorem list_maps_sorted:
  assumes "no_faults env"
  shows "\<exists>ms g. list_maps_inner env d h = (Inr ms, g) \<and> h_files g = h_files h
     \<and> sorted ms \<and> distinct ms
     \<and> set ms = set (listed_maps d ''svencoop'' (h_files h)) \<union> set (listed_maps d ''svencoop_addon'' (h_files h))"
proof -
  let ?ms = "listed_maps d ''svencoop'' (h_files h) @ listed_maps d ''svencoop_addon'' (h_files h)"
  obtain c where "game_maps env d [''svencoop'', ''svencoop_addon''] h = (Inr ?ms, h\<lparr>h_calls := c\<rparr>)"
    using game_maps_clean [OF assms, of d "[''svencoop'', ''svencoop_addon'']" h] by auto
  then have "list_maps_inner env d h = (Inr (remdups_adj (sort ?ms)), h\<lparr>h_calls := c\<rparr>)"
    by (simp add: list_maps_inner_def io_bind_def)
  then show ?thesis by (simp add: sorted_remdups_adj sorted_remdups_adj_distinct)
qed

theorem list_maps_sorted_witness:
  "\<exists>ms g. list_maps_inner demo_host_env ''/d'' maps_host = (Inr ms, g) \<and> set ms = {''a''}"
proof -
  have nf: "no_faults demo_host_env" by (simp add: no_faults_def demo_host_env_def)
  have "listed_maps ''/d'' ''svencoop'' (h_files maps_host) = [''a'']"
    "listed_maps ''/d'' ''svencoop_addon'' (h_files maps_host) = []" by code_simp+
  then show ?thesis using list_maps_sorted [OF nf, of "''/d''" maps_host] by auto
qed

end
