(* ===== verification/Ds_Manager.thy ===== *)
theory Ds_Manager
  imports Ds_Files
begin

text \<open>
  The manager of the dedicated server (\<open>DsManager\<close> in \<open>controller/src/ds.rs\<close>): the methods of
  the foreground and the background task that finds or pulls the server and starts it.
  They share \<open>live\<close>, \<open>child\<close>, \<open>stdin\<close> and \<open>cancel\<close>; one step of the model is what runs
  between two accesses to these.  A task that is aborted still runs up to its next
  suspension, so a task carries whether it has been aborted and whether it is suspended.
\<close>

datatype ds_phase = Idle | Pulling | Starting | DsRunning | DsError

record ds_live =
  l_phase :: ds_phase
  l_progress :: "f64 option"
  l_line :: string
  l_port :: "u16 option"
  l_install_dir :: "path option"
  l_cheats :: bool

record ds_status =
  st_running :: bool
  st_port :: "u16 option"
  st_install_dir :: "path option"
  st_phase :: ds_phase
  st_progress :: "f64 option"
  st_line :: string
  st_cheats :: bool

definition live_default :: ds_live where
  "live_default = \<lparr>l_phase = Idle, l_progress = None, l_line = [], l_port = None,
     l_install_dir = None, l_cheats = False\<rparr>"

definition live_set :: "ds_phase \<Rightarrow> string \<Rightarrow> ds_live \<Rightarrow> ds_live" where
  "live_set ph line l =
     l\<lparr>l_phase := ph, l_line := line, l_progress := (if ph \<noteq> Pulling then None else l_progress l)\<rparr>"

definition ELLIPSIS :: string where "ELLIPSIS = [CHR 0xE2, CHR 0x80, CHR 0xA6]"

definition set_idle :: "ds_live \<Rightarrow> ds_live" where
  "set_idle l = (live_set Idle ''stopped'' l)\<lparr>l_port := None, l_install_dir := None, l_cheats := False\<rparr>"

definition set_error :: "string \<Rightarrow> ds_live \<Rightarrow> ds_live" where
  "set_error msg l = (live_set DsError msg l)
     \<lparr>l_progress := None, l_port := None, l_install_dir := None, l_cheats := False\<rparr>"

text \<open>The progress callback of a pull.\<close>

definition on_line :: "string \<Rightarrow> ds_live \<Rightarrow> ds_live" where
  "on_line raw l =
     (let line = trim raw in
      if line = [] then l
      else let l = l\<lparr>l_phase := Pulling\<rparr> in
        case parse_progress line of
          Some p \<Rightarrow> l\<lparr>l_progress := Some (pct p), l_line := progress_caption p\<rparr>
        | None \<Rightarrow> l\<lparr>l_line := line\<rparr>)"

subsection \<open>State\<close>

text \<open>
  Where a background task is.  \<open>PullLines\<close> hands the remaining lines of a pull to the
  callback; \<open>Spawned\<close> holds a process that is not yet in the shared slot.
\<close>

datatype task_pc =
  Finding | Found path path | NotFound | PullStart | InPull | PullLines "string list" "unit result" | PullReturned
| CheckExe | WriteMarker path | Ready path path | SetPreparing path path | Preparing path path
| Prepared path path | Spawning path path | Spawned nat path | InSlot nat path | Stored nat
| GiveCheats | Cancelling | Failing string | TaskEnd

record ds_task =
  t_args :: ds_start_args
  t_pc :: task_pc
  t_aborted :: bool
  t_parked :: bool

datatype mgr_pc =
  MgrIdle | StopAbort | StopTake | StopStdin | StopLive
| StartCancel ds_start_args | StartLive ds_start_args | StartSpawn ds_start_args

record ds_state =
  dm_bundle :: path
  dm_os :: os
  dm_live :: ds_live
  dm_child :: "nat option"
  dm_stdin :: "nat option"
  dm_cancel :: bool
  dm_handle :: "nat option"
  dm_tasks :: "nat \<rightharpoonup> ds_task"
  dm_next :: nat
  dm_mgr :: mgr_pc
  dm_host :: host
  dm_alive :: "nat list"
  dm_console :: "(nat \<times> string) list"

text \<open>
  \<open>dm_alive\<close> lists the server processes that run, \<open>dm_console\<close> what was written to their
  consoles; processes and tasks are numbered by \<open>dm_next\<close>.
\<close>

definition ds_new :: "path \<Rightarrow> os \<Rightarrow> host \<Rightarrow> ds_state" where
  "ds_new bundle os h =
     \<lparr>dm_bundle = bundle, dm_os = os, dm_live = live_default, dm_child = None, dm_stdin = None,
      dm_cancel = False, dm_handle = None, dm_tasks = Map.empty, dm_next = 0, dm_mgr = MgrIdle,
      dm_host = h, dm_alive = [], dm_console = []\<rparr>"

definition default_install_dir :: "ds_state \<Rightarrow> path" where
  "default_install_dir s = path_join (dm_bundle s) ''svends''"

definition ds_is_running :: "ds_state \<Rightarrow> bool" where
  "ds_is_running s \<longleftrightarrow> l_phase (dm_live s) = Pulling \<or> l_phase (dm_live s) = Starting
     \<or> l_phase (dm_live s) = DsRunning"

subsection \<open>The background task\<close>

definition upd_live :: "(ds_live \<Rightarrow> ds_live) \<Rightarrow> ds_state \<Rightarrow> ds_state" where
  "upd_live f s = s\<lparr>dm_live := f (dm_live s)\<rparr>"

definition task_to :: "nat \<Rightarrow> task_pc \<Rightarrow> ds_state \<Rightarrow> ds_state" where
  "task_to i pc s = s\<lparr>dm_tasks := (dm_tasks s)(i := map_option (\<lambda>t. t\<lparr>t_pc := pc\<rparr>) (dm_tasks s i))\<rparr>"

text \<open>The places at which the task may be suspended.\<close>

fun awaits :: "task_pc \<Rightarrow> bool" where
  "awaits Finding = True"
| "awaits InPull = True"
| "awaits (PullLines ls r) = True"
| "awaits CheckExe = True"
| "awaits (WriteMarker e) = True"
| "awaits (Preparing e d) = True"
| "awaits (Stored p) = True"
| "awaits GiveCheats = True"
| "awaits _ = False"

definition pull_dir :: "ds_start_args \<Rightarrow> ds_state \<Rightarrow> path" where
  "pull_dir a s = (case da_install_dir a of Some d \<Rightarrow> d | None \<Rightarrow> path_join (dm_bundle s) ''svends'')"

definition show_u16 :: "u16 \<Rightarrow> string" where "show_u16 p = show_nat (unat p)"

definition ds_command :: "path \<Rightarrow> path \<Rightarrow> ds_start_args \<Rightarrow> command" where
  "ds_command exe dir a =
     \<lparr>program = exe, cmd_args = [''-port'', show_u16 (da_port a), ''+maxplayers'',
        show_nat (unat (da_maxplayers a)), ''+map'', da_map a], cmd_dir = Some dir\<rparr>"

definition F64_ZERO :: f64 where "F64_ZERO = Finite False 0 0"

text \<open>What the outside decides in a step: the rounds of a pull, whether \<open>spawn\<close> works.\<close>

datatype task_input = NoInput | PullRounds "(bool \<times> pull_event) list" | SpawnResult "string + unit"

text \<open>The cancel checks of the task: \<open>set_idle\<close> and return, or go on.\<close>

definition unless_cancelled :: "nat \<Rightarrow> (ds_state \<Rightarrow> ds_state) \<Rightarrow> ds_state \<Rightarrow> ds_state" where
  "unless_cancelled i go s = (if dm_cancel s then task_to i Cancelling s else go s)"

definition bundle_runner :: "ds_state \<Rightarrow> runner" where
  "bundle_runner s = \<lparr>bundle_dir = dm_bundle s, run_os = dm_os s\<rparr>"

fun task_step :: "host_env \<Rightarrow> archive_env \<Rightarrow> nat \<Rightarrow> ds_start_args \<Rightarrow> task_pc \<Rightarrow> task_input \<Rightarrow>
    ds_state \<Rightarrow> ds_state option" where
  "task_step env ar i a Finding inp s =
     (case find_svends_inner env (dm_bundle s) (dm_os s) (dm_host s) of
        (Inr (Some (exe, dir)), h) \<Rightarrow> Some (task_to i (Found exe dir) (s\<lparr>dm_host := h\<rparr>))
      | (_, h) \<Rightarrow> Some (task_to i NotFound (s\<lparr>dm_host := h\<rparr>)))"
| "task_step env ar i a (Found exe dir) inp s = Some (task_to i (Ready exe dir)
     (upd_live (live_set Starting ''found existing dedicated server install'') s))"
| "task_step env ar i a NotFound inp s = Some (unless_cancelled i (task_to i PullStart) s)"
| "task_step env ar i a PullStart inp s =
     Some (task_to i InPull (upd_live (\<lambda>l. (live_set Pulling (''downloading steamcmd bootstrap'' @ ELLIPSIS) l)
       \<lparr>l_progress := Some (F64_ZERO)\<rparr>) s))"
| "task_step env ar i a InPull (PullRounds evs) s =
     (case pull_ds env ar (bundle_runner s) (pull_dir a s) evs (dm_host s) of
        Some (res, ls, h) \<Rightarrow> Some (task_to i (PullLines ls res) (s\<lparr>dm_host := h\<rparr>))
      | None \<Rightarrow> None)"
| "task_step env ar i a (PullLines (l # ls) res) inp s =
     Some (task_to i (PullLines ls res) (upd_live (on_line l) s))"
| "task_step env ar i a (PullLines [] res) inp s =
     (case res of
        Inl e \<Rightarrow> Some (task_to i (Failing e) s)
      | Inr _ \<Rightarrow> Some (task_to i PullReturned s))"
| "task_step env ar i a PullReturned inp s = Some (unless_cancelled i (task_to i CheckExe) s)"
| "task_step env ar i a CheckExe inp s =
     (let exe = path_join (pull_dir a s) (ds_exe_name (dm_os s)) in
      case is_executable env (dm_os s) exe (dm_host s) of
        (Inr True, h) \<Rightarrow> Some (task_to i (WriteMarker exe) (s\<lparr>dm_host := h\<rparr>))
      | (_, h) \<Rightarrow> Some (task_to i
          (Failing (''steamcmd finished but '' @ exe @ '' not found / not executable'')) (s\<lparr>dm_host := h\<rparr>)))"
| "task_step env ar i a (WriteMarker exe) inp s =
     (case io_try (fs_write env (path_join (dm_bundle s) ''.svends_path'') (bytes_of (pull_dir a s))) (dm_host s) of
        (_, h) \<Rightarrow> Some (task_to i (Ready exe (pull_dir a s)) (s\<lparr>dm_host := h\<rparr>)))"
| "task_step env ar i a (Ready exe dir) inp s =
     Some (unless_cancelled i (task_to i (SetPreparing exe dir)) s)"
| "task_step env ar i a (SetPreparing exe dir) inp s = Some (task_to i (Preparing exe dir)
     (upd_live (live_set Starting (''preparing soundcache'' @ ELLIPSIS)) s))"
| "task_step env ar i a (Preparing exe dir) inp s =
     (case precreate_soundcache env dir (dm_host s) of (_, h) \<Rightarrow>
      case fix_mapcycle_default env dir h of (_, h') \<Rightarrow>
        Some (task_to i (Prepared exe dir) (s\<lparr>dm_host := h'\<rparr>)))"
| "task_step env ar i a (Prepared exe dir) inp s = Some (unless_cancelled i (task_to i (Spawning exe dir)) s)"
| "task_step env ar i a (Spawning exe dir) (SpawnResult res) s =
     (case with_context (''spawning dedicated server at '' @ exe) res of
        Inl e \<Rightarrow> Some (task_to i (Failing (''spawn failed: '' @ e)) s)
      | Inr _ \<Rightarrow> Some (task_to i (Spawned (dm_next s) dir) (s\<lparr>dm_next := Suc (dm_next s),
          dm_alive := dm_next s # dm_alive s,
          dm_host := (dm_host s)\<lparr>h_commands := h_commands (dm_host s) @ [ds_command exe dir a]\<rparr>\<rparr>)))"
| "task_step env ar i a (Spawned p dir) inp s =
     Some (task_to i (InSlot p dir) (s\<lparr>dm_child := Some p,
       dm_alive := (case dm_child s of Some q \<Rightarrow> removeAll q (dm_alive s) | None \<Rightarrow> dm_alive s)\<rparr>))"
| "task_step env ar i a (InSlot p dir) inp s =
     Some (task_to i (Stored p) (upd_live
       (\<lambda>l. (live_set DsRunning ''dedicated server running'' l)
          \<lparr>l_port := Some (da_port a), l_install_dir := Some dir, l_cheats := da_sv_cheats a\<rparr>) s))"
| "task_step env ar i a (Stored p) inp s =
     Some (task_to i (if da_sv_cheats a then GiveCheats else TaskEnd) (s\<lparr>dm_stdin := Some p\<rparr>))"
| "task_step env ar i a GiveCheats inp s =
     Some (task_to i TaskEnd (case dm_stdin s of
        Some p \<Rightarrow> s\<lparr>dm_console := dm_console s @ [(p, ''sv_cheats 1'' @ LF)]\<rparr> | None \<Rightarrow> s))"
| "task_step env ar i a Cancelling inp s = Some (task_to i TaskEnd (upd_live set_idle s))"
| "task_step env ar i a (Failing e) inp s = Some (task_to i TaskEnd (upd_live (set_error e) s))"
| "task_step env ar i a _ inp s = None"

subsection \<open>The methods of the manager\<close>

text \<open>
  The \<open>Debug\<close> rendering of a text: quotes, backslashes, tabs and line ends are escaped.  (The
  rarer escapes, of other control characters, are not rendered.)
\<close>

definition debug_char :: "char \<Rightarrow> string" where
  "debug_char c =
     (if c = CHR 0x22 \<or> c = CHR 0x5C then [CHR 0x5C, c]
      else if c = CHR 0x0A then [CHR 0x5C, CHR ''n'']
      else if c = CHR 0x0D then [CHR 0x5C, CHR ''r'']
      else if c = CHR 0x09 then [CHR 0x5C, CHR ''t'']
      else [c])"

definition show_debug :: "string \<Rightarrow> string" where
  "show_debug s = [CHR 0x22] @ concat (map debug_char s) @ [CHR 0x22]"

definition ALREADY_RUNNING :: string where
  "ALREADY_RUNNING = ''dedicated server is already starting/running; stop it first''"

definition UNSUPPORTED_OS :: string where
  "UNSUPPORTED_OS = ''The Sven Co-op dedicated server (app 276060) has no native build for this OS ''
     @ [CHR 0xE2, CHR 0x80, CHR 0x94]
     @ '' it ships only for Windows and Linux. Run the host side on Linux/a VM/Docker.''"

definition start_check :: "ds_state \<Rightarrow> unit result" where
  "start_check s =
     (if ds_is_running s then Inl ALREADY_RUNNING
      else if \<not> supports_dedicated_server (dm_os s) then Inl UNSUPPORTED_OS
      else Inr ())"

definition abort_handle :: "ds_state \<Rightarrow> ds_state" where
  "abort_handle s =
     (case dm_handle s of
        None \<Rightarrow> s
      | Some i \<Rightarrow> s\<lparr>dm_handle := None,
          dm_tasks := (dm_tasks s)(i := map_option (\<lambda>t. t\<lparr>t_aborted := True\<rparr>) (dm_tasks s i))\<rparr>)"

definition new_task :: "ds_start_args \<Rightarrow> ds_task" where
  "new_task a = \<lparr>t_args = a, t_pc = Finding, t_aborted = False, t_parked = True\<rparr>"

text \<open>
  \<open>stop\<close> and the part of \<open>start\<close> after its checks, one shared access at a time.  The process
  taken from the slot is killed with its process group and waited for.
\<close>

definition LOCATING :: string where
  "LOCATING = ''locating or pulling dedicated server'' @ ELLIPSIS"

fun mgr_step :: "mgr_pc \<Rightarrow> ds_state \<Rightarrow> ds_state option" where
  "mgr_step MgrIdle s = None"
| "mgr_step StopAbort s = Some ((abort_handle s)\<lparr>dm_mgr := StopTake\<rparr>)"
| "mgr_step StopTake s = Some (s\<lparr>dm_mgr := StopStdin, dm_child := None,
     dm_alive := (case dm_child s of Some p \<Rightarrow> removeAll p (dm_alive s) | None \<Rightarrow> dm_alive s)\<rparr>)"
| "mgr_step StopStdin s = Some (s\<lparr>dm_mgr := StopLive, dm_stdin := None\<rparr>)"
| "mgr_step StopLive s = Some ((upd_live set_idle s)\<lparr>dm_mgr := MgrIdle\<rparr>)"
| "mgr_step (StartCancel a) s = Some (s\<lparr>dm_mgr := StartLive a, dm_cancel := False\<rparr>)"
| "mgr_step (StartLive a) s = Some ((upd_live (\<lambda>l. (live_set Pulling LOCATING l)
     \<lparr>l_port := None, l_install_dir := None\<rparr>) s)\<lparr>dm_mgr := StartSpawn a\<rparr>)"
| "mgr_step (StartSpawn a) s = (let s = abort_handle s in
     Some (s\<lparr>dm_mgr := MgrIdle, dm_handle := Some (dm_next s), dm_next := Suc (dm_next s),
       dm_tasks := (dm_tasks s)(dm_next s \<mapsto> new_task a)\<rparr>))"

fun_cases mgr_stepE: "mgr_step pc s = Some t"

text \<open>
  \<open>start\<close> up to its checks, and the first action of \<open>stop\<close>; the lock of \<open>live\<close> is released
  between the check and the rest.
\<close>

definition ds_start :: "ds_start_args \<Rightarrow> ds_state \<Rightarrow> unit result \<times> ds_state" where
  "ds_start a s =
     (case start_check s of
        Inl e \<Rightarrow> (Inl e, s)
      | Inr _ \<Rightarrow> (Inr (), s\<lparr>dm_mgr := StartCancel a\<rparr>))"

definition ds_stop :: "ds_state \<Rightarrow> ds_state" where
  "ds_stop s = s\<lparr>dm_cancel := True, dm_mgr := StopAbort\<rparr>"

text \<open>\<open>try_wait\<close> may fail (\<open>wait_err\<close>); the process then counts as running.\<close>

definition ds_status_of :: "bool \<Rightarrow> ds_state \<Rightarrow> ds_status \<times> ds_state" where
  "ds_status_of wait_err s =
     (let (running, s) = (case dm_child s of
            None \<Rightarrow> (False, s)
          | Some p \<Rightarrow> (if wait_err \<or> p \<in> set (dm_alive s) then (True, s) else (False, s\<lparr>dm_child := None\<rparr>)));
          live = dm_live s;
          phase = (if \<not> running \<and> l_phase live = DsRunning then Idle else l_phase live)
      in (\<lparr>st_running = running \<and> phase = DsRunning, st_port = l_port live,
           st_install_dir = l_install_dir live, st_phase = phase, st_progress = l_progress live,
           st_line = l_line live, st_cheats = l_cheats live\<rparr>, s))"

text \<open>The two writes and the flush to the console answer \<open>w1\<close> and \<open>w2\<close>.\<close>

definition send_command ::
  "string + unit \<Rightarrow> string + unit \<Rightarrow> string \<Rightarrow> ds_state \<Rightarrow> unit result \<times> ds_state" where
  "send_command w1 w2 cmd s =
     (case dm_stdin s of
        None \<Rightarrow> (Inl ''dedicated server is not running'', s)
      | Some p \<Rightarrow>
          (case with_context (''sending DS console command '' @ show_debug cmd) w1 of
             Inl e \<Rightarrow> (Inl e, s)
           | Inr _ \<Rightarrow>
               (case w2 of
                  Inl e \<Rightarrow> (Inl e, s\<lparr>dm_console := dm_console s @ [(p, cmd)]\<rparr>)
                | Inr _ \<Rightarrow> (Inr (), s\<lparr>dm_console := dm_console s @ [(p, cmd @ LF)]\<rparr>))))"

definition set_cheats ::
  "string + unit \<Rightarrow> string + unit \<Rightarrow> bool \<Rightarrow> ds_state \<Rightarrow> unit result \<times> ds_state" where
  "set_cheats w1 w2 enabled s =
     (case send_command w1 w2 (''sv_cheats '' @ (if enabled then ''1'' else ''0'')) s of
        (Inl e, t) \<Rightarrow> (Inl e, t)
      | (Inr _, t) \<Rightarrow> (Inr (), upd_live (\<lambda>l. l\<lparr>l_cheats := enabled\<rparr>) t))"

definition ds_list_maps :: "host_env \<Rightarrow> ds_state \<Rightarrow> string list \<times> ds_state" where
  "ds_list_maps env s =
     (case (case l_install_dir (dm_live s) of
              Some d \<Rightarrow> (Some d, dm_host s)
            | None \<Rightarrow> (case find_svends_inner env (dm_bundle s) (dm_os s) (dm_host s) of
                (Inr (Some (_, d)), h) \<Rightarrow> (Some d, h) | (_, h) \<Rightarrow> (None, h))) of
        (None, h) \<Rightarrow> ([], s\<lparr>dm_host := h\<rparr>)
      | (Some d, h) \<Rightarrow> (case list_maps_inner env d h of (r, h') \<Rightarrow>
          ((case r of Inr ms \<Rightarrow> ms | Inl _ \<Rightarrow> []), s\<lparr>dm_host := h'\<rparr>)))"

subsection \<open>Steps\<close>

datatype ds_action =
  AStart ds_start_args
| AStop
| AMgr
| AStatus bool
| ACommand string "string + unit" "string + unit"
| ACheats bool "string + unit" "string + unit"
| AMaps
| APark nat
| AWake nat
| ATask nat task_input
| AExit nat

text \<open>
  The methods exclude each other (the controller owns the manager); \<open>AMgr\<close> goes on with the
  method under way.  A suspended task is woken only if it has not been aborted.  \<open>AExit\<close> is a
  server process that ends by itself.
\<close>

definition if_idle :: "ds_state \<Rightarrow> ds_state \<Rightarrow> ds_state option" where
  "if_idle s t = (if dm_mgr s = MgrIdle then Some t else None)"

definition with_task :: "nat \<Rightarrow> ds_state \<Rightarrow> (ds_task \<Rightarrow> ds_state option) \<Rightarrow> ds_state option" where
  "with_task i s f = (case dm_tasks s i of None \<Rightarrow> None | Some t \<Rightarrow> f t)"

fun ds_step :: "host_env \<Rightarrow> archive_env \<Rightarrow> ds_state \<Rightarrow> ds_action \<Rightarrow> ds_state option" where
  "ds_step env ar s (AStart a) = if_idle s (snd (ds_start a s))"
| "ds_step env ar s AStop = if_idle s (ds_stop s)"
| "ds_step env ar s AMgr = mgr_step (dm_mgr s) s"
| "ds_step env ar s (AStatus e) = if_idle s (snd (ds_status_of e s))"
| "ds_step env ar s (ACommand c w1 w2) = if_idle s (snd (send_command w1 w2 c s))"
| "ds_step env ar s (ACheats b w1 w2) = if_idle s (snd (set_cheats w1 w2 b s))"
| "ds_step env ar s AMaps = if_idle s (snd (ds_list_maps env s))"
| "ds_step env ar s (APark i) = with_task i s (\<lambda>t.
     if awaits (t_pc t) then Some (s\<lparr>dm_tasks := (dm_tasks s)(i \<mapsto> t\<lparr>t_parked := True\<rparr>)\<rparr>) else None)"
| "ds_step env ar s (AWake i) = with_task i s (\<lambda>t.
     if t_parked t \<and> \<not> t_aborted t
     then Some (s\<lparr>dm_tasks := (dm_tasks s)(i \<mapsto> t\<lparr>t_parked := False\<rparr>)\<rparr>) else None)"
| "ds_step env ar s (ATask i inp) = with_task i s (\<lambda>t.
     if t_parked t then None else task_step env ar i (t_args t) (t_pc t) inp s)"
| "ds_step env ar s (AExit p) =
     (if p \<in> set (dm_alive s) then Some (s\<lparr>dm_alive := removeAll p (dm_alive s)\<rparr>) else None)"

inductive ds_run :: "host_env \<Rightarrow> archive_env \<Rightarrow> ds_state \<Rightarrow> ds_action list \<Rightarrow> ds_state \<Rightarrow> bool"
  for env ar where
  ds_run_Nil: "ds_run env ar s [] s"
| ds_run_Cons: "ds_step env ar s a = Some t \<Longrightarrow> ds_run env ar t as u \<Longrightarrow> ds_run env ar s (a # as) u"

fun ds_exec :: "host_env \<Rightarrow> archive_env \<Rightarrow> ds_state \<Rightarrow> ds_action list \<Rightarrow> ds_state option" where
  "ds_exec env ar s [] = Some s"
| "ds_exec env ar s (a # as) = Option.bind (ds_step env ar s a) (\<lambda>t. ds_exec env ar t as)"

lemma ds_exec_run: "ds_exec env ar s as = Some t \<Longrightarrow> ds_run env ar s as t"
  by (induction as arbitrary: s) (auto intro: ds_run.intros split: bind_splits)

text \<open>An invariant of the steps is an invariant of the runs.\<close>

lemma ds_run_invariant:
  assumes "ds_run env ar s as u" and "P s"
    and "\<And>s a t. a \<in> set as \<Longrightarrow> ds_step env ar s a = Some t \<Longrightarrow> P s \<Longrightarrow> P t"
  shows "P u"
  using assms
proof (induction rule: ds_run.induct)
  case (ds_run_Cons s a t as u)
  have "P t" using ds_run_Cons.prems(2) [OF _ ds_run_Cons.hyps(1) ds_run_Cons.prems(1)] by simp
  then show ?case using ds_run_Cons.IH ds_run_Cons.prems(2) by (meson list.set_intros(2))
qed

subsection \<open>What a task step may change\<close>

lemma task_to_simps [simp, state_simps]:
  "dm_live (task_to i pc s) = dm_live s" "dm_child (task_to i pc s) = dm_child s"
  "dm_stdin (task_to i pc s) = dm_stdin s" "dm_cancel (task_to i pc s) = dm_cancel s"
  "dm_handle (task_to i pc s) = dm_handle s" "dm_next (task_to i pc s) = dm_next s"
  "dm_mgr (task_to i pc s) = dm_mgr s" "dm_alive (task_to i pc s) = dm_alive s"
  "dm_host (task_to i pc s) = dm_host s" "dm_bundle (task_to i pc s) = dm_bundle s"
  "dm_os (task_to i pc s) = dm_os s" "dm_console (task_to i pc s) = dm_console s"
  "dm_tasks (task_to i pc s) = (dm_tasks s)(i := map_option (\<lambda>t. t\<lparr>t_pc := pc\<rparr>) (dm_tasks s i))"
  by (simp_all add: task_to_def)

lemma upd_live_simps [simp, state_simps]:
  "dm_live (upd_live f s) = f (dm_live s)" "dm_child (upd_live f s) = dm_child s"
  "dm_stdin (upd_live f s) = dm_stdin s" "dm_cancel (upd_live f s) = dm_cancel s"
  "dm_handle (upd_live f s) = dm_handle s" "dm_next (upd_live f s) = dm_next s"
  "dm_mgr (upd_live f s) = dm_mgr s" "dm_alive (upd_live f s) = dm_alive s"
  "dm_host (upd_live f s) = dm_host s" "dm_bundle (upd_live f s) = dm_bundle s"
  "dm_os (upd_live f s) = dm_os s" "dm_console (upd_live f s) = dm_console s"
  "dm_tasks (upd_live f s) = dm_tasks s"
  by (simp_all add: upd_live_def)

lemma abort_handle_simps [simp, state_simps]:
  "dm_live (abort_handle s) = dm_live s" "dm_child (abort_handle s) = dm_child s"
  "dm_alive (abort_handle s) = dm_alive s" "dm_next (abort_handle s) = dm_next s"
  "dm_mgr (abort_handle s) = dm_mgr s" "dm_handle (abort_handle s) = None"
  "dm_stdin (abort_handle s) = dm_stdin s" "dm_cancel (abort_handle s) = dm_cancel s"
  "dm_host (abort_handle s) = dm_host s" "dm_bundle (abort_handle s) = dm_bundle s"
  "dm_os (abort_handle s) = dm_os s" "dm_console (abort_handle s) = dm_console s"
  by (simp_all add: abort_handle_def split: option.split)

lemmas live_defs = live_set_def set_idle_def set_error_def

text \<open>One step at a time: where the task goes, and what it does to the shared state.\<close>

lemma task_step_frame:
  assumes "task_step env ar i a pc inp s = Some t"
  shows "(\<exists>pc'. dm_tasks t = (dm_tasks s)(i := map_option (\<lambda>t. t\<lparr>t_pc := pc'\<rparr>) (dm_tasks s i)))
     \<and> dm_handle t = dm_handle s \<and> dm_mgr t = dm_mgr s \<and> dm_cancel t = dm_cancel s
     \<and> dm_next s \<le> dm_next t \<and> dm_bundle t = dm_bundle s \<and> dm_os t = dm_os s"
  using assms
  by (cases "(env, ar, i, a, pc, inp, s)" rule: task_step.cases)
    (auto simp: unless_cancelled_def Let_def split: prod.splits sum.splits option.splits bool.splits if_splits)

subsection \<open>Invariants\<close>

definition progress_ok :: "ds_live \<Rightarrow> bool" where
  "progress_ok l \<longleftrightarrow> (l_progress l \<noteq> None \<longrightarrow> l_phase l = Pulling)"

lemma progress_ok_live [intro]:
  "progress_ok l \<Longrightarrow> progress_ok (live_set ph line l)" "progress_ok l \<Longrightarrow> progress_ok (on_line line l)"
  "progress_ok (set_idle l)" "progress_ok (set_error e l)"
  by (auto simp: progress_ok_def live_defs on_line_def Let_def split: option.split)

lemma task_step_progress:
  assumes "task_step env ar i a pc inp s = Some t" and "progress_ok (dm_live s)"
  shows "progress_ok (dm_live t)"
  using assms
  by (cases "(env, ar, i, a, pc, inp, s)" rule: task_step.cases)
    (auto simp: unless_cancelled_def Let_def progress_ok_def live_defs on_line_def
      split: prod.splits sum.splits option.splits bool.splits if_splits)

lemma ds_step_progress:
  assumes "ds_step env ar s act = Some t" and "progress_ok (dm_live s)"
  shows "progress_ok (dm_live t)"
proof (cases act)
  case AMgr
  then show ?thesis using assms
    by (cases "dm_mgr s") (auto simp: progress_ok_def live_defs Let_def)
next
  case (ATask i inp)
  then show ?thesis using assms task_step_progress
    by (auto simp: with_task_def split: option.splits if_splits)
qed (use assms in \<open>auto simp: if_idle_def with_task_def ds_start_def ds_stop_def ds_status_of_def
    send_command_def set_cheats_def ds_list_maps_def Let_def progress_ok_def
    split: if_splits option.splits sum.splits prod.splits\<close>)

text \<open>Only the task of the handle is not aborted; suspended tasks are where they may be.\<close>

definition tasks_ok :: "ds_state \<Rightarrow> bool" where
  "tasks_ok s \<longleftrightarrow> (\<forall>i t. dm_tasks s i = Some t \<longrightarrow>
     (t_aborted t \<or> dm_handle s = Some i) \<and> (t_parked t \<longrightarrow> awaits (t_pc t)) \<and> i < dm_next s)"

lemma tasks_okD:
  "tasks_ok s \<Longrightarrow> dm_tasks s i = Some t \<Longrightarrow>
   (t_aborted t \<or> dm_handle s = Some i) \<and> (t_parked t \<longrightarrow> awaits (t_pc t)) \<and> i < dm_next s"
  by (simp add: tasks_ok_def)

lemma tasks_ok_frame:
  "tasks_ok s \<Longrightarrow> dm_tasks t = dm_tasks s \<Longrightarrow> dm_handle t = dm_handle s \<Longrightarrow> dm_next t = dm_next s \<Longrightarrow> tasks_ok t"
  by (simp add: tasks_ok_def)

lemma tasks_ok_update:
  assumes "tasks_ok s" and "dm_tasks s i = Some t" and "t_aborted u = t_aborted t"
    and "t_parked u \<longrightarrow> awaits (t_pc u)"
  shows "tasks_ok (s\<lparr>dm_tasks := (dm_tasks s)(i \<mapsto> u)\<rparr>)"
  using assms tasks_okD [OF assms(1)] unfolding tasks_ok_def by simp

lemma abort_handle_tasks:
  assumes "tasks_ok s"
  shows "tasks_ok (abort_handle s) \<and> (\<forall>i t. dm_tasks (abort_handle s) i = Some t \<longrightarrow> t_aborted t)"
proof (cases "dm_handle s")
  case None
  then show ?thesis using tasks_okD [OF assms] by (auto simp: tasks_ok_def abort_handle_def)
next
  case (Some k)
  have "t_aborted t" if "dm_tasks s i = Some t" "i \<noteq> k" for i t
    using tasks_okD [OF assms that(1)] Some that(2) by auto
  then show ?thesis using Some tasks_okD [OF assms] by (auto simp: tasks_ok_def abort_handle_def)
qed

text \<open>The methods of the manager do not touch the tasks.\<close>

lemma method_frame:
  "dm_tasks (snd (ds_start a s)) = dm_tasks s" "dm_handle (snd (ds_start a s)) = dm_handle s"
  "dm_next (snd (ds_start a s)) = dm_next s"
  "dm_tasks (snd (ds_status_of e s)) = dm_tasks s" "dm_handle (snd (ds_status_of e s)) = dm_handle s"
  "dm_next (snd (ds_status_of e s)) = dm_next s"
  "dm_tasks (snd (send_command w1 w2 c s)) = dm_tasks s" "dm_handle (snd (send_command w1 w2 c s)) = dm_handle s"
  "dm_next (snd (send_command w1 w2 c s)) = dm_next s"
  "dm_tasks (snd (set_cheats w1 w2 b s)) = dm_tasks s" "dm_handle (snd (set_cheats w1 w2 b s)) = dm_handle s"
  "dm_next (snd (set_cheats w1 w2 b s)) = dm_next s"
  "dm_tasks (snd (ds_list_maps env s)) = dm_tasks s" "dm_handle (snd (ds_list_maps env s)) = dm_handle s"
  "dm_next (snd (ds_list_maps env s)) = dm_next s"
  by (auto simp: ds_start_def ds_status_of_def send_command_def set_cheats_def ds_list_maps_def Let_def
      split: option.split sum.split prod.split)

lemma task_step_tasks:
  assumes "task_step env ar i a pc inp s = Some t" and "tasks_ok s"
    and "\<forall>tk. dm_tasks s i = Some tk \<longrightarrow> \<not> t_parked tk"
  shows "tasks_ok t"
proof -
  obtain pc' where "dm_tasks t = (dm_tasks s)(i := map_option (\<lambda>t. t\<lparr>t_pc := pc'\<rparr>) (dm_tasks s i))"
    "dm_handle t = dm_handle s" "dm_next s \<le> dm_next t"
    using task_step_frame [OF assms(1)] by blast
  then show ?thesis using assms(2,3) unfolding tasks_ok_def
    by (auto split: if_splits) (meson order_less_le_trans)+
qed

lemma mgr_step_tasks:
  assumes "mgr_step pc s = Some t" and "tasks_ok s"
  shows "tasks_ok t"
proof -
  note ab = abort_handle_tasks [OF assms(2)]
  have "tasks_ok t" if "pc = StartSpawn a" for a
  proof -
    let ?s = "abort_handle s"
    have "t = ?s\<lparr>dm_mgr := MgrIdle, dm_handle := Some (dm_next ?s), dm_next := Suc (dm_next ?s),
       dm_tasks := (dm_tasks ?s)(dm_next ?s \<mapsto> new_task a)\<rparr>"
      using assms(1) that by (simp add: Let_def)
    then show ?thesis using ab unfolding tasks_ok_def by (auto simp: new_task_def less_SucI)
  qed
  moreover have "tasks_ok t" if "pc = StopAbort"
    using ab assms(1) that by (auto intro: tasks_ok_frame [of "abort_handle s"])
  moreover have "tasks_ok t" if "pc \<noteq> StopAbort" "\<And>a. pc \<noteq> StartSpawn a"
    using assms that by (cases pc) (auto intro: tasks_ok_frame [OF assms(2)])
  ultimately show ?thesis by blast
qed

lemma ds_step_tasks:
  assumes "ds_step env ar s act = Some t" and "tasks_ok s"
  shows "tasks_ok t"
proof (cases act)
  case AMgr
  then show ?thesis using assms mgr_step_tasks by simp
next
  case (ATask i inp)
  then show ?thesis using assms task_step_tasks
    by (auto simp: with_task_def split: option.splits if_splits)
next
  case (APark i)
  then show ?thesis using assms
    by (auto simp: with_task_def intro: tasks_ok_update split: option.splits if_splits)
next
  case (AWake i)
  then show ?thesis using assms
    by (auto simp: with_task_def intro: tasks_ok_update split: option.splits if_splits)
qed (use assms in \<open>auto simp: if_idle_def ds_stop_def method_frame
    intro: tasks_ok_frame [OF assms(2)] split: if_splits\<close>)

text \<open>A server process that runs is in the shared slot or with a task about to put it there.\<close>

definition held :: "nat \<Rightarrow> ds_state \<Rightarrow> bool" where
  "held p s \<longleftrightarrow> dm_child s = Some p \<or> (\<exists>i t d. dm_tasks s i = Some t \<and> t_pc t = Spawned p d)"

definition procs_ok :: "ds_state \<Rightarrow> bool" where
  "procs_ok s \<longleftrightarrow> (\<forall>p\<in>set (dm_alive s). held p s)"

lemma task_step_other_procs:
  assumes "task_step env ar i a pc inp s = Some t"
    and "\<And>p d. pc \<noteq> Spawned p d" and "\<And>e d. pc \<noteq> Spawning e d"
  shows "dm_alive t = dm_alive s \<and> dm_child t = dm_child s"
  using assms
  by (cases "(env, ar, i, a, pc, inp, s)" rule: task_step.cases)
    (auto simp: unless_cancelled_def Let_def split: prod.splits sum.splits option.splits bool.splits if_splits)

lemma task_step_held:
  assumes "task_step env ar i a pc inp s = Some t" and "dm_tasks s i = Some tk" and "t_pc tk = pc"
    and "held p s" and "dm_child t = dm_child s" and "\<And>p d. pc \<noteq> Spawned p d"
  shows "held p t"
proof (cases "dm_child s = Some p")
  case True
  then show ?thesis using assms(5) by (simp add: held_def)
next
  case False
  then obtain j u d where u: "dm_tasks s j = Some u" "t_pc u = Spawned p d"
    using assms(4) by (auto simp: held_def)
  then have "j \<noteq> i" using assms(2,3,6) by (metis option.inject)
  then have "dm_tasks t j = Some u" using task_step_frame [OF assms(1)] u(1) by auto
  then show ?thesis using u(2) by (auto simp: held_def)
qed

lemma task_step_procs:
  assumes "task_step env ar i a (t_pc tk) inp s = Some t" and "dm_tasks s i = Some tk" and "procs_ok s"
  shows "procs_ok t"
proof (cases "t_pc tk")
  case (Spawned q d)
  then have t: "dm_child t = Some q" "dm_alive t = (case dm_child s of Some r \<Rightarrow> removeAll r (dm_alive s) | None \<Rightarrow> dm_alive s)"
    "dm_tasks t = (dm_tasks s)(i \<mapsto> tk\<lparr>t_pc := InSlot q d\<rparr>)"
    using assms(1,2) by auto
  have "held p t" if p: "p \<in> set (dm_alive t)" for p
  proof -
    have "p \<in> set (dm_alive s)" "dm_child s \<noteq> Some p" using p t(2) by (auto split: option.splits)
    then obtain j u e where u: "dm_tasks s j = Some u" "t_pc u = Spawned p e"
      using assms(3) by (auto simp: procs_ok_def held_def)
    then show ?thesis using t Spawned assms(2) by (cases "j = i") (auto simp: held_def)
  qed
  then show ?thesis by (simp add: procs_ok_def)
next
  case (Spawning exe d)
  have child: "dm_child t = dm_child s" using assms(1) Spawning
    by (cases inp) (auto split: sum.splits)
  have "held p t" if p: "p \<in> set (dm_alive t)" for p
  proof (cases "p \<in> set (dm_alive s)")
    case True
    then show ?thesis using task_step_held [OF assms(1,2) refl _ child] assms(3) Spawning
      by (simp add: procs_ok_def)
  next
    case False
    then have "dm_tasks t i = Some (tk\<lparr>t_pc := Spawned p d\<rparr>)" using p assms(1,2) Spawning
      by (cases inp) (auto split: sum.splits)
    then show ?thesis by (force simp: held_def)
  qed
  then show ?thesis by (simp add: procs_ok_def)
qed (use task_step_held [OF assms(1,2) refl] task_step_other_procs [OF assms(1)] assms(3)
     in \<open>auto simp: procs_ok_def\<close>)

lemma held_frame:
  "held p s \<Longrightarrow> dm_child t = dm_child s \<Longrightarrow> dm_tasks t = dm_tasks s \<Longrightarrow> held p t"
  by (simp add: held_def)

text \<open>Changes of a task that keep its place keep what it holds.\<close>

lemma held_update:
  assumes "held p s" and "dm_tasks s i = Some t" and "t_pc u = t_pc t"
  shows "held p (s\<lparr>dm_tasks := (dm_tasks s)(i \<mapsto> u)\<rparr>)"
proof (cases "dm_child s = Some p")
  case False
  then obtain j v d where v: "dm_tasks s j = Some v" "t_pc v = Spawned p d"
    using assms(1) by (auto simp: held_def)
  show ?thesis
  proof (cases "j = i")
    case True
    then show ?thesis using v assms(2,3) by (auto simp: held_def)
  next
    case False
    then show ?thesis using v by (auto simp: held_def)
  qed
qed (simp add: held_def)

lemma held_abort: "held p s \<Longrightarrow> held p (abort_handle s)"
proof (cases "dm_handle s")
  case (Some i)
  assume h: "held p s"
  show ?thesis
  proof (cases "dm_tasks s i")
    case None
    then have "dm_tasks (abort_handle s) = dm_tasks s" using Some by (auto simp: abort_handle_def)
    then show ?thesis using h by (simp add: held_def)
  next
    case (Some t)
    then have "dm_tasks (abort_handle s) = (dm_tasks s)(i \<mapsto> t\<lparr>t_aborted := True\<rparr>)"
      using \<open>dm_handle s = Some i\<close> by (simp add: abort_handle_def)
    then show ?thesis using held_update [OF h Some, of "t\<lparr>t_aborted := True\<rparr>"] by (simp add: held_def)
  qed
qed (simp add: abort_handle_def)

lemma mgr_step_procs:
  assumes "mgr_step pc s = Some t" and "procs_ok s" and "tasks_ok s"
  shows "procs_ok t"
proof -
  have "procs_ok t" if "pc = StartSpawn a" for a
  proof -
    let ?s = "abort_handle s"
    have t: "dm_alive t = dm_alive s" "dm_child t = dm_child ?s"
      "dm_tasks t = (dm_tasks ?s)(dm_next ?s \<mapsto> new_task a)"
      using assms(1) that by (auto simp: Let_def)
    have fresh: "dm_tasks ?s (dm_next ?s) = None"
    proof (rule ccontr)
      assume "dm_tasks ?s (dm_next ?s) \<noteq> None"
      then obtain u where "dm_tasks ?s (dm_next ?s) = Some u" by blast
      then have "dm_next ?s < dm_next ?s"
        using abort_handle_tasks [OF assms(3)] tasks_okD [of ?s "dm_next ?s" u] by blast
      then show False by simp
    qed
    have "held p t" if "held p ?s" for p
      using that t fresh by (auto simp: held_def) (metis fun_upd_other option.distinct(1))
    then show ?thesis using t assms(2) held_abort by (auto simp: procs_ok_def)
  qed
  moreover have "procs_ok t" if "pc = StopAbort"
    using assms(1,2) that held_abort
    by (auto simp: procs_ok_def intro: held_frame [of _ "abort_handle s"])
  moreover have "procs_ok t" if "pc = StopTake"
  proof -
    have "held q t" if "held q s" "dm_child s \<noteq> Some q" for q
      using that assms(1) \<open>pc = StopTake\<close> by (auto simp: held_def)
    then show ?thesis using assms(1,2) that by (auto simp: procs_ok_def split: option.splits)
  qed
  moreover have "procs_ok t" if "pc \<noteq> StopAbort" "pc \<noteq> StopTake" "\<And>a. pc \<noteq> StartSpawn a"
    using assms(1,2) that by (cases pc) (auto simp: procs_ok_def intro: held_frame [of _ s])
  ultimately show ?thesis by blast
qed

lemma procs_ok_frame:
  "procs_ok s \<Longrightarrow> dm_alive t = dm_alive s \<Longrightarrow> dm_child t = dm_child s \<Longrightarrow> dm_tasks t = dm_tasks s \<Longrightarrow> procs_ok t"
  by (simp add: procs_ok_def held_def)

lemma method_procs:
  "dm_alive (snd (ds_start a s)) = dm_alive s" "dm_child (snd (ds_start a s)) = dm_child s"
  "dm_alive (snd (send_command w1 w2 c s)) = dm_alive s" "dm_child (snd (send_command w1 w2 c s)) = dm_child s"
  "dm_alive (snd (set_cheats w1 w2 b s)) = dm_alive s" "dm_child (snd (set_cheats w1 w2 b s)) = dm_child s"
  "dm_alive (snd (ds_list_maps env s)) = dm_alive s" "dm_child (snd (ds_list_maps env s)) = dm_child s"
  by (auto simp: ds_start_def send_command_def set_cheats_def ds_list_maps_def Let_def
      split: option.split sum.split prod.split)

lemma ds_step_procs:
  assumes "ds_step env ar s act = Some t" and "procs_ok s" and "tasks_ok s"
  shows "procs_ok t"
proof (cases act)
  case AMgr
  then show ?thesis using assms mgr_step_procs by simp
next
  case (ATask i inp)
  then show ?thesis using assms task_step_procs
    by (auto simp: with_task_def split: option.splits if_splits)
next
  case (APark i)
  then show ?thesis using assms
    by (auto simp: with_task_def procs_ok_def intro: held_update split: option.splits if_splits)
next
  case (AWake i)
  then show ?thesis using assms
    by (auto simp: with_task_def procs_ok_def intro: held_update split: option.splits if_splits)
next
  case (AExit p)
  then show ?thesis using assms by (auto simp: procs_ok_def intro: held_frame [of _ s] split: if_splits)
next
  case (AStatus e)
  have "dm_alive t = dm_alive s" "dm_tasks t = dm_tasks s"
    "\<forall>q\<in>set (dm_alive s). dm_child s = Some q \<longrightarrow> dm_child t = Some q"
    using assms(1) AStatus
    by (auto simp: if_idle_def ds_status_of_def Let_def split: option.splits if_splits)
  then show ?thesis using assms(2) by (simp add: procs_ok_def held_def) metis
qed (use assms in \<open>auto simp: if_idle_def ds_stop_def method_frame method_procs
    intro: procs_ok_frame [OF assms(2)] split: if_splits\<close>)

definition ds_inv :: "ds_state \<Rightarrow> bool" where
  "ds_inv s \<longleftrightarrow> progress_ok (dm_live s) \<and> tasks_ok s \<and> procs_ok s"

lemma ds_step_inv: "ds_step env ar s a = Some t \<Longrightarrow> ds_inv s \<Longrightarrow> ds_inv t"
  by (auto simp: ds_inv_def intro: ds_step_progress ds_step_tasks ds_step_procs)

lemma ds_new_inv: "ds_inv (ds_new bundle os h)"
  by (simp add: ds_inv_def ds_new_def progress_ok_def live_default_def tasks_ok_def procs_ok_def)

lemma ds_run_inv: "ds_run env ar (ds_new bundle os h) as s \<Longrightarrow> ds_inv s"
  by (erule ds_run_invariant) (auto intro: ds_new_inv ds_step_inv)

text \<open>
  C16: in every state the manager can reach, whatever the interleaving of
  its methods with the background tasks, a download percentage is shown only while pulling,
  a server process that runs is in the shared slot or with a task about to put it there, and
  every task but the one of the handle has been aborted.
\<close>

theorem ds_state_consistent:
  assumes "ds_run env ar (ds_new bundle os h) as s"
  shows "(l_progress (dm_live s) \<noteq> None \<longrightarrow> l_phase (dm_live s) = Pulling)
     \<and> (\<forall>p\<in>set (dm_alive s). dm_child s = Some p
          \<or> (\<exists>i t d. dm_tasks s i = Some t \<and> t_pc t = Spawned p d))
     \<and> (\<forall>i t. dm_tasks s i = Some t \<longrightarrow> t_aborted t \<or> dm_handle s = Some i)"
  using ds_run_inv [OF assms]
  by (auto simp: ds_inv_def progress_ok_def procs_ok_def held_def dest: tasks_okD)

subsection \<open>Stopping\<close>

definition settled :: "ds_state \<Rightarrow> bool" where
  "settled s \<longleftrightarrow> (\<forall>i t. dm_tasks s i = Some t \<longrightarrow> t_parked t \<or> t_pc t = TaskEnd)"

definition stop_actions :: "ds_action list" where
  "stop_actions = [AStop, AMgr, AMgr, AMgr, AMgr]"

definition dead_task :: "ds_task \<Rightarrow> bool" where
  "dead_task t \<longleftrightarrow> t_aborted t \<and> t_parked t \<or> t_pc t = TaskEnd"

lemma dead_task_update [intro]:
  "dead_task t \<Longrightarrow> dead_task (t\<lparr>t_aborted := True\<rparr>)" "dead_task t \<Longrightarrow> dead_task (t\<lparr>t_parked := True\<rparr>)"
  "dead_task t \<Longrightarrow> \<not> t_aborted t \<Longrightarrow> dead_task (t\<lparr>t_parked := False\<rparr>)"
  by (auto simp: dead_task_def)

definition ds_stopped :: "ds_state \<Rightarrow> bool" where
  "ds_stopped s \<longleftrightarrow> dm_child s = None \<and> dm_alive s = [] \<and> dm_stdin s = None
     \<and> l_phase (dm_live s) = Idle \<and> l_port (dm_live s) = None \<and> l_install_dir (dm_live s) = None
     \<and> (\<forall>i t. dm_tasks s i = Some t \<longrightarrow> dead_task t)
     \<and> dm_mgr s \<in> {MgrIdle, StopAbort, StopTake, StopStdin, StopLive}"

lemma stop_result:
  "ds_exec env ar s stop_actions = Some t \<Longrightarrow>
   dm_mgr s = MgrIdle
   \<and> t = (upd_live set_idle ((abort_handle (ds_stop s))\<lparr>dm_child := None,
       dm_alive := (case dm_child s of Some p \<Rightarrow> removeAll p (dm_alive s) | None \<Rightarrow> dm_alive s),
       dm_stdin := None\<rparr>))\<lparr>dm_mgr := MgrIdle\<rparr>"
  by (auto simp: stop_actions_def if_idle_def ds_stop_def upd_live_def split: if_splits option.splits)

lemma abort_handle_pc:
  "dm_tasks (abort_handle s) i = Some t \<Longrightarrow>
   \<exists>u. dm_tasks s i = Some u \<and> t_pc t = t_pc u \<and> t_parked t = t_parked u"
  by (auto simp: abort_handle_def split: option.splits if_splits)

lemma stop_stops:
  assumes "ds_exec env ar s stop_actions = Some t" and "ds_inv s" and "settled s"
  shows "ds_stopped t \<and> dm_mgr t = MgrIdle \<and> dm_cancel t"
proof -
  let ?a = "abort_handle (ds_stop s)"
  note t = conjunct2 [OF stop_result [OF assms(1)]]
  have held: "dm_child s = Some p" if p: "p \<in> set (dm_alive s)" for p
  proof (rule ccontr)
    assume "dm_child s \<noteq> Some p"
    then obtain i u d where u: "dm_tasks s i = Some u" "t_pc u = Spawned p d"
      using assms(2) p by (auto simp: ds_inv_def procs_ok_def held_def)
    have "t_parked u \<or> t_pc u = TaskEnd" using assms(3) u(1) by (simp add: settled_def)
    then show False using tasks_okD [of s i u] assms(2) u by (simp add: ds_inv_def)
  qed
  have alive: "dm_alive t = []"
  proof (cases "dm_child s")
    case None
    then have "dm_alive s = []" using held by (cases "dm_alive s") auto
    then show ?thesis using None by (simp add: t)
  next
    case (Some p)
    then have "set (dm_alive s) \<subseteq> {p}" using held by auto
    then have "set (dm_alive t) = {}" using Some by (auto simp: t)
    then show ?thesis by simp
  qed
  have "dead_task u" if "dm_tasks t i = Some u" for i u
  proof -
    have u: "dm_tasks ?a i = Some u" using that by (simp add: t)
    have "tasks_ok (ds_stop s)" using assms(2) by (auto simp: ds_inv_def ds_stop_def intro: tasks_ok_frame)
    then have "t_aborted u" using abort_handle_tasks u by blast
    moreover have "t_parked u \<or> t_pc u = TaskEnd"
      using abort_handle_pc [OF u] assms(3) by (fastforce simp: settled_def ds_stop_def)
    ultimately show ?thesis by (auto simp: dead_task_def)
  qed
  then show ?thesis using alive by (auto simp: ds_stopped_def t live_defs ds_stop_def)
qed

lemma stopped_stays:
  assumes "ds_step env ar s act = Some t" and "ds_stopped s" and "\<And>a. act \<noteq> AStart a"
  shows "ds_stopped t"
proof (cases act)
  case AMgr
  have ab: "ds_stopped (abort_handle s)" if "ds_stopped s"
    using that by (auto simp: ds_stopped_def abort_handle_def split: option.splits)
  show ?thesis using assms AMgr ab
    by (cases "dm_mgr s") (auto simp: ds_stopped_def live_defs)
next
  case (ATask i inp)
  then obtain u where u: "dm_tasks s i = Some u" "\<not> t_parked u"
    "task_step env ar i (t_args u) (t_pc u) inp s = Some t"
    using assms(1) by (auto simp: with_task_def split: option.splits if_splits)
  then have "t_pc u = TaskEnd" using assms(2) by (auto simp: ds_stopped_def dead_task_def)
  then show ?thesis using u(3) by simp
next
  case (APark i)
  then obtain u where u: "dm_tasks s i = Some u" "t = s\<lparr>dm_tasks := (dm_tasks s)(i \<mapsto> u\<lparr>t_parked := True\<rparr>)\<rparr>"
    using assms(1) by (auto simp: with_task_def split: option.splits if_splits)
  have "dead_task u" using assms(2) u(1) by (auto simp: ds_stopped_def)
  then have "dead_task (u\<lparr>t_parked := True\<rparr>)" by (rule dead_task_update)
  then show ?thesis using assms(2) u(2) by (auto simp: ds_stopped_def)
next
  case (AWake i)
  then obtain u where u: "dm_tasks s i = Some u" "\<not> t_aborted u"
    "t = s\<lparr>dm_tasks := (dm_tasks s)(i \<mapsto> u\<lparr>t_parked := False\<rparr>)\<rparr>"
    using assms(1) by (auto simp: with_task_def split: option.splits if_splits)
  have "dead_task u" using assms(2) u(1) by (auto simp: ds_stopped_def)
  then have "dead_task (u\<lparr>t_parked := False\<rparr>)" using u(2) by (rule dead_task_update)
  then show ?thesis using assms(2) u(3) by (auto simp: ds_stopped_def)
qed (use assms in \<open>auto simp: if_idle_def ds_stop_def ds_status_of_def send_command_def set_cheats_def
    ds_list_maps_def ds_stopped_def Let_def split: if_splits option.splits sum.splits prod.splits\<close>)

text \<open>
  C15: when every background task is suspended or has ended and nothing runs
  in between, \<open>stop\<close> leaves no server process, no console and the idle phase, and this stays
  so, whatever happens short of a new \<open>start\<close>: no task of before ever goes on.
\<close>

theorem ds_stop_is_final:
  assumes "ds_run env ar (ds_new bundle os h) as s" and "settled s"
    and "ds_exec env ar s stop_actions = Some t"
    and "ds_run env ar t bs u" and "\<forall>a. AStart a \<notin> set bs"
  shows "dm_alive u = [] \<and> dm_child u = None \<and> dm_stdin u = None
     \<and> l_phase (dm_live u) = Idle \<and> l_port (dm_live u) = None
     \<and> \<not> st_running (fst (ds_status_of e u)) \<and> \<not> ds_is_running u"
proof -
  have "ds_stopped t" using stop_stops [OF assms(3) ds_run_inv [OF assms(1)] assms(2)] by blast
  then have "ds_stopped u"
    using ds_run_invariant [OF assms(4), of ds_stopped] stopped_stays assms(5) by blast
  then show ?thesis
    by (auto simp: ds_stopped_def ds_status_of_def ds_is_running_def Let_def)
qed

text \<open>A host with an installed server.\<close>

definition ds_demo_host :: host where
  "ds_demo_host = \<lparr>h_files = [(''/b/svends/svends_run'', File [1] True)],
     h_calls = 0, h_urls = [], h_commands = []\<rparr>"

definition ds_demo_args :: ds_start_args where
  "ds_demo_args = ds_start_args_default\<lparr>da_port := 27016\<rparr>"

text \<open>The actions of a start whose task runs without suspension up to the cancel check.\<close>

definition demo_to_spawning :: "ds_action list" where
  "demo_to_spawning = [AStart ds_demo_args, AMgr, AMgr, AMgr, AWake 0, ATask 0 NoInput, ATask 0 NoInput,
     ATask 0 NoInput, ATask 0 NoInput, ATask 0 NoInput, ATask 0 NoInput]"

definition demo_spawn_actions :: "ds_action list" where
  "demo_spawn_actions = [ATask 0 (SpawnResult (Inr ())), ATask 0 NoInput, ATask 0 NoInput, ATask 0 NoInput]"

definition ds_demo :: ds_state where
  "ds_demo = the (ds_exec demo_host_env demo_archive (ds_new ''/b'' Linux ds_demo_host) demo_to_spawning)"

lemma ds_demo_facts:
  "ds_exec demo_host_env demo_archive (ds_new ''/b'' Linux ds_demo_host) demo_to_spawning \<noteq> None"
  "dm_mgr ds_demo = MgrIdle" "dm_child ds_demo = None" "dm_handle ds_demo = Some 0"
  "map_option t_pc (dm_tasks ds_demo 0) = Some (Spawning ''/b/svends/svends_run'' ''/b/svends'')"
  "map_option t_parked (dm_tasks ds_demo 0) = Some False"
  "map_option t_args (dm_tasks ds_demo 0) = Some ds_demo_args"
  by code_simp+

lemma ds_demo_exec:
  "ds_exec demo_host_env demo_archive (ds_new ''/b'' Linux ds_demo_host) demo_to_spawning = Some ds_demo"
  using ds_demo_facts(1) by (auto simp: ds_demo_def)

lemma ds_demo_run:
  "ds_run demo_host_env demo_archive (ds_new ''/b'' Linux ds_demo_host) demo_to_spawning ds_demo"
  by (rule ds_exec_run [OF ds_demo_exec])

lemma ds_demo_task:
  "\<exists>tk. dm_tasks ds_demo 0 = Some tk \<and> t_pc tk = Spawning ''/b/svends/svends_run'' ''/b/svends''
     \<and> \<not> t_parked tk \<and> t_args tk = ds_demo_args"
  using ds_demo_facts(5-7) by auto

theorem ds_state_consistent_witness:
  "l_phase (dm_live ds_demo) = Starting \<and> l_progress (dm_live ds_demo) = None"
proof -
  have "l_phase (dm_live ds_demo) = Starting" by code_simp
  then show ?thesis using ds_state_consistent [OF ds_demo_run] by force
qed

lemma abort_handle_at:
  "dm_tasks s i = Some t \<Longrightarrow> \<exists>u. dm_tasks (abort_handle s) i = Some u \<and> t_pc u = t_pc t
     \<and> t_parked u = t_parked t \<and> t_args u = t_args t"
  by (auto simp: abort_handle_def split: option.split)

lemma stop_exec:
  "dm_mgr s = MgrIdle \<Longrightarrow> ds_exec env ar s stop_actions =
     Some ((upd_live set_idle ((abort_handle (ds_stop s))\<lparr>dm_child := None,
       dm_alive := (case dm_child s of Some p \<Rightarrow> removeAll p (dm_alive s) | None \<Rightarrow> dm_alive s),
       dm_stdin := None\<rparr>))\<lparr>dm_mgr := MgrIdle\<rparr>)"
  by (simp add: stop_actions_def if_idle_def ds_stop_def upd_live_def split: option.split)

text \<open>
  C33: a background task that is past its last cancel check and not
  suspended is not stopped by \<open>stop\<close>: after \<open>stop\<close> has returned, it can still start the
  server, which then runs with the phase that says so, although \<open>cancel\<close> is set.
\<close>

theorem ds_stop_races_spawn:
  assumes "dm_tasks s i = Some tk" and "t_pc tk = Spawning exe dir" and "\<not> t_parked tk"
    and "dm_mgr s = MgrIdle"
  shows "\<exists>t u p. ds_exec env ar s stop_actions = Some t \<and> dm_mgr t = MgrIdle
     \<and> l_phase (dm_live t) = Idle
     \<and> ds_exec env ar t [ATask i (SpawnResult (Inr ())), ATask i NoInput, ATask i NoInput] = Some u
     \<and> dm_mgr u = MgrIdle \<and> dm_cancel u \<and> dm_child u = Some p \<and> p \<in> set (dm_alive u)
     \<and> st_running (fst (ds_status_of False u))"
proof -
  let ?t = "(upd_live set_idle ((abort_handle (ds_stop s))\<lparr>dm_child := None,
       dm_alive := (case dm_child s of Some p \<Rightarrow> removeAll p (dm_alive s) | None \<Rightarrow> dm_alive s),
       dm_stdin := None\<rparr>))\<lparr>dm_mgr := MgrIdle\<rparr>"
  have "dm_tasks (ds_stop s) i = Some tk" using assms(1) by (simp add: ds_stop_def)
  from abort_handle_at [OF this] obtain u where u: "dm_tasks (abort_handle (ds_stop s)) i = Some u"
    "t_pc u = Spawning exe dir" "\<not> t_parked u"
    using assms(2,3) by auto
  have cancel: "dm_cancel (ds_stop s)" "dm_next (ds_stop s) = dm_next s" by (simp_all add: ds_stop_def)
  show ?thesis
    by (rule exI [of _ ?t])
      (use u cancel stop_exec [OF assms(4)] in \<open>simp add: with_task_def live_defs ds_status_of_def Let_def\<close>)
qed

theorem ds_stop_races_spawn_witness:
  "\<exists>t u. ds_exec demo_host_env demo_archive ds_demo stop_actions = Some t \<and> l_phase (dm_live t) = Idle
     \<and> ds_exec demo_host_env demo_archive t [ATask 0 (SpawnResult (Inr ())), ATask 0 NoInput, ATask 0 NoInput] = Some u
     \<and> st_running (fst (ds_status_of False u))"
proof -
  obtain tk where "dm_tasks ds_demo 0 = Some tk" "t_pc tk = Spawning ''/b/svends/svends_run'' ''/b/svends''"
    "\<not> t_parked tk" using ds_demo_task by blast
  from ds_stop_races_spawn [OF this ds_demo_facts(2)] show ?thesis by blast
qed

text \<open>
  Fact: when the server process ends by itself, the status says idle and
  not running (with the port of the dead server), but the live phase is still that of a
  running server, so that the next \<open>start\<close> is refused as already running.
\<close>

theorem ds_exit_blocks_start:
  assumes "dm_child s = Some p" and "p \<notin> set (dm_alive s)" and "l_phase (dm_live s) = DsRunning"
  shows "case ds_status_of False s of (st, t) \<Rightarrow>
     \<not> st_running st \<and> st_phase st = Idle \<and> st_port st = l_port (dm_live s)
     \<and> dm_child t = None \<and> ds_start a t = (Inl ALREADY_RUNNING, t)"
  using assms by (simp add: ds_status_of_def Let_def ds_start_def start_check_def ds_is_running_def)

text \<open>The state after a server has been started and its process has ended.\<close>

definition exited_demo :: ds_state where
  "exited_demo = (ds_new ''/b'' Linux ds_demo_host)\<lparr>dm_child := Some 1, dm_stdin := Some 1, dm_next := 2,
     dm_live := live_default\<lparr>l_phase := DsRunning, l_port := Some 27015\<rparr>\<rparr>"

theorem ds_exit_blocks_start_witness:
  "case ds_status_of False exited_demo of (st, t) \<Rightarrow>
     \<not> st_running st \<and> st_phase st = Idle \<and> ds_start ds_demo_args t = (Inl ALREADY_RUNNING, t)"
proof -
  have f: "dm_child exited_demo = Some 1" "1 \<notin> set (dm_alive exited_demo)"
    "l_phase (dm_live exited_demo) = DsRunning"
    by (simp_all add: exited_demo_def ds_new_def)
  show ?thesis using ds_exit_blocks_start [OF f] by auto
qed

subsection \<open>Starting\<close>

text \<open>
  The task of a start, run without suspension and without a \<open>stop\<close>; the process can be
  spawned, or not.
\<close>

definition start_actions :: "ds_start_args \<Rightarrow> nat \<Rightarrow> ds_action list" where
  "start_actions a i = [AStart a, AMgr, AMgr, AMgr, AWake i] @ replicate 6 (ATask i NoInput)
     @ [ATask i (SpawnResult (Inr ())), ATask i NoInput, ATask i NoInput, ATask i NoInput]"

definition refused_start_actions :: "ds_start_args \<Rightarrow> nat \<Rightarrow> string \<Rightarrow> ds_action list" where
  "refused_start_actions a i e = [AStart a, AMgr, AMgr, AMgr, AWake i] @ replicate 6 (ATask i NoInput)
     @ [ATask i (SpawnResult (Inl e)), ATask i NoInput]"

definition to_ready :: "ds_start_args \<Rightarrow> nat \<Rightarrow> ds_action list" where
  "to_ready a i = [AStart a, AMgr, AMgr, AMgr, AWake i, ATask i NoInput, ATask i NoInput]"

definition ready_task :: "ds_start_args \<Rightarrow> path \<Rightarrow> path \<Rightarrow> ds_task" where
  "ready_task a exe dir = \<lparr>t_args = a, t_pc = Ready exe dir, t_aborted = False, t_parked = False\<rparr>"

lemma ds_exec_append: "ds_exec env ar s (as @ bs) = Option.bind (ds_exec env ar s as) (\<lambda>t. ds_exec env ar t bs)"
  by (induction as arbitrary: s) (auto split: bind_split)

lemma start_to_ready:
  assumes "dm_mgr s = MgrIdle" and "start_check s = Inr ()"
    and "find_svends_inner env (dm_bundle s) (dm_os s) (dm_host s) = (Inr (Some (exe, dir)), h1)"
  shows "\<exists>t. ds_exec env ar s (to_ready a (dm_next s)) = Some t
     \<and> dm_tasks t (dm_next s) = Some (ready_task a exe dir) \<and> dm_mgr t = MgrIdle \<and> \<not> dm_cancel t
     \<and> dm_host t = h1 \<and> dm_child t = dm_child s \<and> dm_alive t = dm_alive s"
  using assms
  by (simp add: to_ready_def if_idle_def ds_start_def Let_def with_task_def new_task_def ready_task_def)

text \<open>The files are prepared without starting a process.\<close>

lemma ready_to_spawning:
  assumes "dm_tasks t i = Some (ready_task a exe dir)" and "\<not> dm_cancel t"
  shows "\<exists>h. h_commands h = h_commands (dm_host t)
     \<and> ds_exec env ar t (replicate 4 (ATask i NoInput)) = Some
          (task_to i (Spawning exe dir) ((upd_live (live_set Starting (''preparing soundcache'' @ ELLIPSIS)) t)\<lparr>dm_host := h\<rparr>))"
proof -
  obtain r1 h1 where p: "precreate_soundcache env dir (dm_host t) = (r1, h1)" by fastforce
  obtain r2 h2 where f: "fix_mapcycle_default env dir h1 = (r2, h2)" by fastforce
  have "h_commands h2 = h_commands (dm_host t)"
    using no_process.keepsD [OF precreate_soundcache_keeps p] no_process.keepsD [OF fix_mapcycle_default_keeps f]
    by simp
  then show ?thesis using assms p f
    by (intro exI [of _ h2])
      (simp add: numeral_eq_Suc with_task_def ready_task_def unless_cancelled_def task_to_def upd_live_def)
qed

lemma ready_to_running:
  assumes "dm_tasks t i = Some (ready_task a exe dir)" and "\<not> dm_cancel t"
  shows "\<exists>u. ds_exec env ar t (replicate 4 (ATask i NoInput)
        @ [ATask i (SpawnResult (Inr ())), ATask i NoInput, ATask i NoInput, ATask i NoInput]) = Some u
     \<and> l_phase (dm_live u) = DsRunning \<and> l_port (dm_live u) = Some (da_port a)
     \<and> l_install_dir (dm_live u) = Some dir \<and> l_cheats (dm_live u) = da_sv_cheats a
     \<and> dm_child u = Some (dm_next t) \<and> dm_stdin u = Some (dm_next t)
     \<and> dm_mgr u = dm_mgr t \<and> h_commands (dm_host u) = h_commands (dm_host t) @ [ds_command exe dir a]
     \<and> (dm_child t \<noteq> Some (dm_next t) \<longrightarrow> dm_next t \<in> set (dm_alive u))"
proof -
  obtain h where h: "h_commands h = h_commands (dm_host t)" "ds_exec env ar t (replicate 4 (ATask i NoInput)) = Some
      (task_to i (Spawning exe dir) ((upd_live (live_set Starting (''preparing soundcache'' @ ELLIPSIS)) t)\<lparr>dm_host := h\<rparr>))"
    using ready_to_spawning [OF assms] by blast
  show ?thesis using assms h(1)
    by (simp add: ds_exec_append h(2) with_task_def ready_task_def with_context_def Let_def live_defs
        task_to_def upd_live_def split: option.split)
qed

lemma ready_to_failed:
  assumes "dm_tasks t i = Some (ready_task a exe dir)" and "\<not> dm_cancel t"
  shows "\<exists>u. ds_exec env ar t (replicate 4 (ATask i NoInput)
        @ [ATask i (SpawnResult (Inl e)), ATask i NoInput]) = Some u
     \<and> l_phase (dm_live u) = DsError \<and> dm_child u = dm_child t \<and> dm_alive u = dm_alive t
     \<and> h_commands (dm_host u) = h_commands (dm_host t)"
proof -
  obtain h where h: "h_commands h = h_commands (dm_host t)" "ds_exec env ar t (replicate 4 (ATask i NoInput)) = Some
      (task_to i (Spawning exe dir) ((upd_live (live_set Starting (''preparing soundcache'' @ ELLIPSIS)) t)\<lparr>dm_host := h\<rparr>))"
    using ready_to_spawning [OF assms] by blast
  show ?thesis using assms h(1)
    by (simp add: ds_exec_append h(2) with_task_def ready_task_def with_context_def Let_def live_defs
        task_to_def upd_live_def split: option.split)
qed

text \<open>Process numbers are handed out once.\<close>

definition ids_ok :: "ds_state \<Rightarrow> bool" where
  "ids_ok s \<longleftrightarrow> (\<forall>p. held p s \<longrightarrow> p < dm_next s)"

lemma task_step_new_ids:
  assumes "task_step env ar i a pc inp s = Some t" and "dm_tasks s i = Some tk"
  shows "(dm_child t = dm_child s \<or> (\<exists>p d. pc = Spawned p d \<and> dm_child t = Some p))
     \<and> (\<forall>u p d. dm_tasks t i = Some u \<longrightarrow> t_pc u = Spawned p d \<longrightarrow> p < dm_next t)"
  using assms
  by (cases "(env, ar, i, a, pc, inp, s)" rule: task_step.cases)
    (auto simp: unless_cancelled_def Let_def split: prod.splits sum.splits option.splits bool.splits if_splits)

lemma task_step_ids:
  assumes "task_step env ar i a (t_pc tk) inp s = Some t" and "dm_tasks s i = Some tk" and "ids_ok s"
  shows "ids_ok t"
  unfolding ids_ok_def
proof (intro allI impI)
  fix p assume p: "held p t"
  note new = task_step_new_ids [OF assms(1,2)] and frame = task_step_frame [OF assms(1)]
  have old: "q < dm_next t" if "held q s" for q
    using that assms(3) frame by (auto simp: ids_ok_def)
  show "p < dm_next t"
  proof (cases "dm_child t = Some p")
    case True
    then have "held p s" using new assms(2) by (auto simp: held_def)
    then show ?thesis by (rule old)
  next
    case False
    then obtain j u d where u: "dm_tasks t j = Some u" "t_pc u = Spawned p d"
      using p by (auto simp: held_def)
    show ?thesis
    proof (cases "j = i")
      case True
      then show ?thesis using new u by blast
    next
      case False
      then have "dm_tasks s j = Some u" using u(1) frame by auto
      then show ?thesis using old [of p] u(2) by (auto simp: held_def)
    qed
  qed
qed

lemma ids_ok_shrink:
  "ids_ok s \<Longrightarrow> (\<And>p. held p t \<Longrightarrow> held p s) \<Longrightarrow> dm_next s \<le> dm_next t \<Longrightarrow> ids_ok t"
  by (meson ids_ok_def less_le_trans)

lemma held_of_abort: "held p (abort_handle s) \<Longrightarrow> held p s"
  using abort_handle_pc [of s] by (fastforce simp: held_def)

lemma mgr_step_held: "mgr_step pc s = Some t \<Longrightarrow> held p t \<Longrightarrow> held p s"
proof (cases pc)
  case (StartSpawn a)
  assume "mgr_step pc s = Some t" "held p t"
  then have "held p (abort_handle s)"
    using StartSpawn by (auto simp: held_def Let_def new_task_def split: if_splits)
  then show ?thesis by (rule held_of_abort)
next
  case StopAbort
  assume "mgr_step pc s = Some t" "held p t"
  then have "held p (abort_handle s)" using StopAbort by (auto simp: held_def)
  then show ?thesis by (rule held_of_abort)
qed (auto simp: held_def)

lemma mgr_step_next: "mgr_step pc s = Some t \<Longrightarrow> dm_next s \<le> dm_next t"
  by (cases pc) (auto simp: Let_def)

lemma ds_step_ids:
  assumes "ds_step env ar s act = Some t" and "ids_ok s"
  shows "ids_ok t"
proof (cases act)
  case AMgr
  then show ?thesis using assms mgr_step_held mgr_step_next by (auto intro: ids_ok_shrink [OF assms(2)])
next
  case (ATask i inp)
  then show ?thesis using assms task_step_ids
    by (auto simp: with_task_def split: option.splits if_splits)
next
  case (AStatus e)
  then show ?thesis using assms
    by (auto simp: if_idle_def ds_status_of_def Let_def held_def intro!: ids_ok_shrink [OF assms(2)]
        split: option.splits if_splits)
next
  case (AExit p)
  then show ?thesis using assms
    by (auto simp: held_def intro!: ids_ok_shrink [OF assms(2)] split: if_splits)
qed (use assms in \<open>auto simp: if_idle_def with_task_def ds_stop_def method_frame method_procs held_def
    intro!: ids_ok_shrink [OF assms(2)] split: if_splits option.splits\<close>)

lemma ds_run_ids: "ds_run env ar (ds_new bundle os h) as s \<Longrightarrow> ids_ok s"
proof (erule ds_run_invariant)
  show "ids_ok (ds_new bundle os h)" by (simp add: ids_ok_def held_def ds_new_def)
qed (auto intro: ds_step_ids)

text \<open>
  C17: a start that passes its checks, whose search finds an install and
  which nothing interrupts, starts exactly one process: the executable found, with the port, the
  number of players and the map of the arguments, in the directory found.  When the spawn
  succeeds, the server runs, with its port, directory and cheats in the status; when it fails, the
  status is an error and no process was started.  The directory in the arguments plays no part.
\<close>

theorem ds_start_runs_install:
  assumes "ds_run env ar (ds_new bundle os h) as s" and "dm_mgr s = MgrIdle" and "start_check s = Inr ()"
    and "find_svends_inner env (dm_bundle s) (dm_os s) (dm_host s) = (Inr (Some (exe, dir)), h1)"
  shows "(\<exists>u. ds_exec env ar s (start_actions a (dm_next s)) = Some u
       \<and> st_running (fst (ds_status_of False u)) \<and> st_port (fst (ds_status_of False u)) = Some (da_port a)
       \<and> st_install_dir (fst (ds_status_of False u)) = Some dir
       \<and> st_cheats (fst (ds_status_of False u)) = da_sv_cheats a
       \<and> h_commands (dm_host u) = h_commands (dm_host s) @
           [\<lparr>program = exe, cmd_args = [''-port'', show_u16 (da_port a), ''+maxplayers'',
               show_nat (unat (da_maxplayers a)), ''+map'', da_map a], cmd_dir = Some dir\<rparr>])
     \<and> (\<exists>u. ds_exec env ar s (refused_start_actions a (dm_next s) e) = Some u
       \<and> st_phase (fst (ds_status_of False u)) = DsError \<and> \<not> st_running (fst (ds_status_of False u))
       \<and> dm_alive u = dm_alive s \<and> h_commands (dm_host u) = h_commands (dm_host s))"
proof -
  let ?i = "dm_next s"
  obtain t where t: "ds_exec env ar s (to_ready a ?i) = Some t"
    "dm_tasks t ?i = Some (ready_task a exe dir)" "dm_mgr t = MgrIdle" "\<not> dm_cancel t"
    "dm_host t = h1" "dm_child t = dm_child s" "dm_alive t = dm_alive s"
    using start_to_ready [OF assms(2-4)] by blast
  have "ids_ok t"
    using ds_run_invariant [OF ds_exec_run [OF t(1)], of ids_ok] ds_run_ids [OF assms(1)] ds_step_ids by blast
  then have new: "dm_child t \<noteq> Some (dm_next t)" by (auto simp: ids_ok_def held_def)
  have h1: "h_commands h1 = h_commands (dm_host s)"
    using no_process.keepsD [OF find_svends_inner_keeps assms(4)] .
  have acts: "start_actions a ?i = to_ready a ?i @ (replicate 4 (ATask ?i NoInput)
        @ [ATask ?i (SpawnResult (Inr ())), ATask ?i NoInput, ATask ?i NoInput, ATask ?i NoInput])"
    "refused_start_actions a ?i e = to_ready a ?i @ (replicate 4 (ATask ?i NoInput)
        @ [ATask ?i (SpawnResult (Inl e)), ATask ?i NoInput])"
    by (simp_all add: start_actions_def refused_start_actions_def to_ready_def numeral_eq_Suc)
  obtain u where u: "ds_exec env ar s (start_actions a ?i) = Some u"
     "l_phase (dm_live u) = DsRunning" "l_port (dm_live u) = Some (da_port a)"
     "l_install_dir (dm_live u) = Some dir" "l_cheats (dm_live u) = da_sv_cheats a"
     "dm_child u = Some (dm_next t)" "h_commands (dm_host u) = h_commands (dm_host s) @ [ds_command exe dir a]"
     "dm_next t \<in> set (dm_alive u)"
    using ready_to_running [OF t(2,4), of env ar] t(1,5) new h1 unfolding acts ds_exec_append by auto
  obtain v where v: "ds_exec env ar s (refused_start_actions a ?i e) = Some v"
     "l_phase (dm_live v) = DsError" "dm_alive v = dm_alive s" "h_commands (dm_host v) = h_commands (dm_host s)"
    using ready_to_failed [OF t(2,4), of env ar e] t(1,5,7) h1 unfolding acts ds_exec_append by auto
  have status: "st_phase (fst (ds_status_of False v)) = DsError" "\<not> st_running (fst (ds_status_of False v))"
    using v(2) by (simp_all add: ds_status_of_def Let_def split: option.split)
  show ?thesis using u v status by (auto simp: ds_status_of_def Let_def ds_command_def)
qed

theorem ds_start_runs_install_witness:
  "\<exists>u. ds_exec demo_host_env demo_archive (ds_new ''/b'' Linux ds_demo_host) (start_actions ds_demo_args 0) = Some u
     \<and> st_running (fst (ds_status_of False u)) \<and> st_port (fst (ds_status_of False u)) = Some 27016"
proof -
  let ?s = "ds_new ''/b'' Linux ds_demo_host"
  have "ds_run demo_host_env demo_archive ?s [] ?s" by (rule ds_run_Nil)
  moreover have "dm_mgr ?s = MgrIdle" "start_check ?s = Inr ()" "dm_next ?s = 0"
    by (simp_all add: ds_new_def start_check_def ds_is_running_def live_default_def supports_dedicated_server_def)
  moreover have "find_svends_inner demo_host_env (dm_bundle ?s) (dm_os ?s) (dm_host ?s)
      = (Inr (Some (''/b/svends/svends_run'', ''/b/svends'')), ds_demo_host\<lparr>h_calls := 1\<rparr>)"
    by code_simp
  moreover have "da_port ds_demo_args = 27016" by (simp add: ds_demo_args_def)
  ultimately show ?thesis using ds_start_runs_install by metis
qed

theorem ds_stop_is_final_witness:
  "\<exists>s t. ds_run demo_host_env demo_archive (ds_new ''/b'' Linux ds_demo_host) [AStart ds_demo_args, AMgr, AMgr, AMgr] s
     \<and> ds_exec demo_host_env demo_archive s stop_actions = Some t \<and> ds_is_running s \<and> \<not> ds_is_running t"
proof -
  obtain s where s: "ds_exec demo_host_env demo_archive (ds_new ''/b'' Linux ds_demo_host)
      [AStart ds_demo_args, AMgr, AMgr, AMgr] = Some s" "settled s" "dm_mgr s = MgrIdle" "ds_is_running s"
    by (auto simp: if_idle_def ds_start_def start_check_def ds_is_running_def ds_new_def live_default_def
        supports_dedicated_server_def Let_def settled_def new_task_def abort_handle_def upd_live_def live_defs)
  obtain t where t: "ds_exec demo_host_env demo_archive s stop_actions = Some t"
    using stop_exec [OF s(3)] by blast
  have "ds_run demo_host_env demo_archive t [] t" by (rule ds_run_Nil)
  from ds_stop_is_final [OF ds_exec_run [OF s(1)] s(2) t this] have "\<not> ds_is_running t" by simp
  then show ?thesis using ds_exec_run [OF s(1)] s(4) t by blast
qed

end
