(* ===== verification/Settings.thy ===== *)
theory Settings
  imports Ds_Files Announce
begin

text \<open>
  The saved state of the controller (the first part of \<open>controller/src/controller.rs\<close>): interface
  descriptors with their endpoint identity, the settings record, its file, and the
  repair of duplicate descriptors.  The JSON text of the settings is made and read by the
  \<open>serde_json\<close> library; both directions are parameters.
\<close>

record interface_descriptor =
  id_id :: "string option"
  id_kind :: string
  id_role :: string
  id_addr :: "string option"
  id_peer_addr :: "string option"
  id_ifac_name :: "string option"
  id_ifac_passphrase :: "string option"

definition default_role :: string where "default_role = ''server''"

record settings =
  set_version :: u32
  set_bridge :: "server_args option"
  set_bridge_running :: bool
  set_client :: "client_args option"
  set_client_running :: bool
  set_ds :: "ds_start_args option"
  set_ds_running :: bool
  set_interfaces :: "interface_descriptor list"

definition SETTINGS_VERSION :: u32 where "SETTINGS_VERSION = 1"

definition settings_new :: settings where
  "settings_new = \<lparr>set_version = SETTINGS_VERSION, set_bridge = None, set_bridge_running = False,
     set_client = None, set_client_running = False, set_ds = None, set_ds_running = False,
     set_interfaces = []\<rparr>"

definition addr_or_kind :: "interface_descriptor \<Rightarrow> string" where
  "addr_or_kind d = (case id_addr d of Some a \<Rightarrow> a | None \<Rightarrow> id_kind d)"

definition same_endpoint :: "interface_descriptor \<Rightarrow> interface_descriptor \<Rightarrow> bool" where
  "same_endpoint d other \<longleftrightarrow> id_kind d = id_kind other \<and> id_role d = id_role other
     \<and> id_addr d = id_addr other \<and> id_peer_addr d = id_peer_addr other"

subsection \<open>The table of interfaces\<close>

text \<open>Overwrite the descriptor of the same endpoint, or push.\<close>

definition upsert_interface ::
  "interface_descriptor \<Rightarrow> interface_descriptor list \<Rightarrow> interface_descriptor list" where
  "upsert_interface d l =
     (case find_mut (\<lambda>k. same_endpoint k d) (\<lambda>_. d) l of Some l' \<Rightarrow> l' | None \<Rightarrow> l @ [d])"

definition dedup_interfaces :: "interface_descriptor list \<Rightarrow> bool \<times> interface_descriptor list" where
  "dedup_interfaces interfaces =
     (let kept = fold upsert_interface interfaces [] in (length kept \<noteq> length interfaces, kept))"

definition endpoint :: "interface_descriptor \<Rightarrow> string \<times> string \<times> string option \<times> string option" where
  "endpoint d = (id_kind d, id_role d, id_addr d, id_peer_addr d)"

lemma same_endpoint_iff: "same_endpoint d e \<longleftrightarrow> endpoint d = endpoint e"
  by (simp add: same_endpoint_def endpoint_def)

lemma upsert_is_update: "upsert_interface = update_or_push endpoint"
  by (simp add: fun_eq_iff upsert_interface_def update_or_push_def same_endpoint_iff)

interpretation ifaces: keyed_store endpoint upsert_interface
  unfolding upsert_is_update by (rule keyed_store_update_or_push)

lemma dedup_eq: "dedup_interfaces l = (length (ifaces.put_all l []) \<noteq> length l, ifaces.put_all l [])"
  by (simp add: dedup_interfaces_def Let_def ifaces.put_all_def)

text \<open>
  Fact: collapsing the saved interfaces leaves one descriptor per endpoint, the last
  one saved for it; the flag says exactly whether there were duplicates, and a second run
  changes nothing.
\<close>

theorem dedup_keeps_last:
  "case dedup_interfaces l of (changed, kept) \<Rightarrow>
     distinct (map endpoint kept) \<and> by_key endpoint kept = by_key endpoint (rev l)
     \<and> (changed \<longleftrightarrow> \<not> distinct (map endpoint l)) \<and> dedup_interfaces kept = (False, kept)"
proof -
  let ?k = "ifaces.put_all l []"
  have d: "distinct (map endpoint ?k)" by (rule ifaces.distinct_put_all) simp
  then have "ifaces.put_all ?k [] = ?k" using ifaces.put_all_distinct [of "[]" ?k] by simp
  then have "dedup_interfaces ?k = (False, ?k)" by (simp add: dedup_eq)
  moreover have "by_key endpoint ?k = by_key endpoint (rev l)"
    using ifaces.put_all_set [of l] by (simp add: fun_eq_iff)
  ultimately show ?thesis using d by (simp add: dedup_eq ifaces.length_put_all_eq)
qed

subsection \<open>The settings file\<close>

record serde_env =
  to_string_pretty :: "settings \<Rightarrow> string result"
  from_slice :: "bytes \<Rightarrow> settings result"

definition load_settings :: "host_env \<Rightarrow> serde_env \<Rightarrow> path \<Rightarrow> settings option io" where
  "load_settings env se p =
     io_bind (io_try (fs_read env p)) (\<lambda>r.
       io_ret (case r of Inl _ \<Rightarrow> None | Inr bs \<Rightarrow> ok_opt (from_slice se bs)))"

text \<open>Failures are logged and dropped.\<close>

definition write_settings :: "host_env \<Rightarrow> serde_env \<Rightarrow> path \<Rightarrow> settings \<Rightarrow> unit io" where
  "write_settings env se p s =
     (case to_string_pretty se s of
        Inl _ \<Rightarrow> io_ret ()
      | Inr json \<Rightarrow> io_bind (io_try (fs_write env p (bytes_of json))) (\<lambda>_. io_ret ()))"

text \<open>What the library documents of a value it has written.\<close>

definition serde_ok :: "serde_env \<Rightarrow> settings \<Rightarrow> bool" where
  "serde_ok se s \<longleftrightarrow> (\<exists>json. to_string_pretty se s = Inr json \<and> from_slice se (bytes_of json) = Inr s)"

lemma write_settings_ok: "\<exists>g. write_settings env se p s h = (Inr (), g)"
  by (cases "to_string_pretty se s") (simp_all add: write_settings_def io_bind_try)

text \<open>After a write that reached the disk the next load finds the settings.\<close>

lemma load_after_write:
  assumes "serde_ok se s" and "to_string_pretty se s = Inr json"
    and "fs_write env p (bytes_of json) h = (Inr (), g)" and "p \<noteq> ''/''"
    and "he_fault env2 (h_calls g) = None"
  shows "\<exists>k. load_settings env2 se p g = (Inr (Some s), k) \<and> h_files k = h_files g"
proof -
  have "h_files g = put_file p (bytes_of json) (h_files h)"
    using assms(3) by (auto simp: fs_write_def syscall_def Let_def split: option.splits if_splits)
  then obtain x where "node_at (h_files g) p = Some (File (bytes_of json) x)"
    using node_at_put_file [OF assms(4)] by metis
  then have "fs_read env2 p g = (Inr (bytes_of json), g\<lparr>h_calls := Suc (h_calls g)\<rparr>)"
    using assms(5) by (simp add: fs_read_def syscall_def Let_def)
  then show ?thesis using assms(1,2)
    by (auto simp: load_settings_def io_bind_try serde_ok_def)
qed

end
