(* ===== verification/Game_Launcher.thy ===== *)
theory Game_Launcher
  imports Steamcmd_Runner
begin

text \<open>
  The game launcher (\<open>controller/src/game.rs\<close>): the \<open>steam://\<close> address of a local port and the
  program that opens it on each operating system.
\<close>

definition SC_GAME_APPID :: u32 where "SC_GAME_APPID = 225840"

definition connect_uri :: "u16 \<Rightarrow> string" where
  "connect_uri port =
     ''steam://run/'' @ show_nat (unat SC_GAME_APPID) @ ''//+connect%20127.0.0.1:'' @ show_nat (unat port)"

text \<open>\<open>Command::spawn\<close> of a process nobody waits for.\<close>

definition spawn_detached :: "host_env \<Rightarrow> command \<Rightarrow> unit io" where
  "spawn_detached env c h =
     (let g = h\<lparr>h_calls := Suc (h_calls h)\<rparr> in
      case he_fault env (h_calls h) of
        Some e \<Rightarrow> (Inl e, g)
      | None \<Rightarrow> (Inr (), g\<lparr>h_commands := h_commands h @ [c]\<rparr>))"

definition uri_handler :: "string \<Rightarrow> string \<Rightarrow> command result" where
  "uri_handler consts_os uri =
     (if consts_os = ''macos'' then Inr \<lparr>program = ''open'', cmd_args = [uri], cmd_dir = None\<rparr>
      else if consts_os = ''linux'' then Inr \<lparr>program = ''xdg-open'', cmd_args = [uri], cmd_dir = None\<rparr>
      else if consts_os = ''windows''
      then Inr \<lparr>program = ''cmd'', cmd_args = [''/C'', ''start'', '''', uri], cmd_dir = None\<rparr>
      else Inl (''no URI handler for OS '' @ consts_os))"

definition launch :: "host_env \<Rightarrow> string \<Rightarrow> u16 \<Rightarrow> unit io" where
  "launch env consts_os port =
     (let uri = connect_uri port in
      io_bind (io_of (uri_handler consts_os uri)) (\<lambda>cmd.
        io_context (''opening game via URI handler: '' @ uri) (spawn_detached env cmd)))"

lemma launch_outcome:
  assumes "launch env os port h = (res, g)"
  shows "h_files g = h_files h \<and> h_urls g = h_urls h
     \<and> (res = Inr () \<longrightarrow> (\<exists>c. uri_handler os (connect_uri port) = Inr c \<and> h_commands g = h_commands h @ [c]
          \<and> last (cmd_args c) = connect_uri port))
     \<and> (res \<noteq> Inr () \<longrightarrow> h_commands g = h_commands h)"
proof -
  have uri: "uri_handler os u = Inr c \<Longrightarrow> last (cmd_args c) = u" for u c
    by (auto simp: uri_handler_def split: if_splits)
  show ?thesis using assms uri
    by (cases "uri_handler os (connect_uri port)"; cases "he_fault env (h_calls h)")
      (auto simp: launch_def Let_def io_bind_def io_context_eq spawn_detached_def)
qed

text \<open>The port can be read back from the address, so two ports never share one.\<close>

lemma connect_uri_port:
  "rfind_char (CHR '':'') (connect_uri p) = Some i \<Longrightarrow> parse_u16 (drop (Suc i) (connect_uri p)) = Some p"
proof -
  let ?pre = "''steam://run/'' @ show_nat (unat SC_GAME_APPID) @ ''//+connect%20127.0.0.1''"
  have eq: "connect_uri p = ?pre @ CHR '':'' # show_nat (unat p)" by (simp add: connect_uri_def)
  assume i: "rfind_char (CHR '':'') (connect_uri p) = Some i"
  have "CHR '':'' \<notin> set (show_nat (unat p))" by (rule show_nat_no) (simp add: is_ascii_digit_def)
  from after_last_char [OF this i [unfolded eq]] show ?thesis
    unfolding eq by (metis parse_u16_show)
qed

end
