(* ===== verification/Controller.thy ===== *)
theory Controller
  imports Bridge_Session A2s_Query Ds_Manager Settings Game_Launcher
begin

text \<open>
  \<open>BridgeController\<close> (\<open>controller/src/controller.rs\<close>): its state, the sessions it starts and stops,
  the server browser and path traces, the operations on the dedicated server, and
  \<open>connect_and_launch\<close>.  Its caller holds a mutex over every method, so a method is one
  function on the state; what happens between two methods is in the theory \<open>Resume\<close>.

  The node of a session is the vendored engine behind \<open>PrnsNodeHandle\<close>.  What the controller
  sees of it is the list of its interfaces and the tables the session fills; how the engine
  changes the list is a parameter.  Every question to the outside is asked with the number
  of the question, \<open>c_clock\<close>, so that no two questions need get the same answer.
\<close>

subsection \<open>What the controller sees of a node\<close>

record iface =
  if_id :: interface_id
  if_name :: "string option"
  if_mode :: string
  if_connection :: string
  if_rx_bytes :: u64
  if_tx_bytes :: u64
  if_links :: u32

datatype iface_request =
  TcpServerOn string
| TcpClientTo string
| AutoWifi
| UdpBetween string string
| WebSocketClientTo string
| WebSocketServerOn string

datatype next_hop = Direct | Via string

record route_entry =
  rt_destination :: destination_hash
  rt_hops :: u8
  rt_via :: next_hop
  rt_interface :: string

text \<open>
  \<open>en_attach n req ifac name\<close> is the list of interfaces after attaching; \<open>en_bind\<close> the socket
  calls that come before.  Modes, connection states, transport and interface ids are carried
  as their \<open>Debug\<close> renderings.
\<close>

record engine_env =
  en_bind :: "nat \<Rightarrow> iface_request \<Rightarrow> unit result"
  en_attach :: "nat \<Rightarrow> iface_request \<Rightarrow> (string option \<times> string option) option \<Rightarrow>
    string option \<Rightarrow> iface list \<Rightarrow> iface list"
  en_remove :: "nat \<Rightarrow> interface_id \<Rightarrow> iface list \<Rightarrow> iface list"
  en_rename :: "nat \<Rightarrow> interface_id \<Rightarrow> string \<Rightarrow> iface list \<Rightarrow> bool \<times> iface list"
  en_request_path :: "nat \<Rightarrow> destination_hash \<Rightarrow> unit result"
  en_routes :: "nat \<Rightarrow> route_entry list option"
  en_announce :: "nat \<Rightarrow> destination_hash \<Rightarrow> bytes \<Rightarrow> unit result"

datatype udp_probe = ProbeBound | ProbeFailed string

record ctrl_env =
  ce_host :: host_env
  ce_os :: string
  ce_serde :: serde_env
  ce_bridge :: "nat \<Rightarrow> bridge_env"
  ce_engine :: engine_env
  ce_hex_encode :: "bytes \<Rightarrow> string"
  ce_hex_decode :: "string \<Rightarrow> bytes result"
  ce_now :: "nat \<Rightarrow> nat"
  ce_try_wait_err :: "nat \<Rightarrow> bool"
  ce_console :: "nat \<Rightarrow> unit result \<times> unit result"
  ce_network :: "nat \<Rightarrow> socket_addr \<Rightarrow> network \<times> unit result \<times> unit result"
  ce_udp_probe :: "nat \<Rightarrow> u16 \<Rightarrow> udp_probe"
  ce_probe_millis :: "nat \<Rightarrow> nat"

subsection \<open>State\<close>

record live_session =
  ls_session :: bridge_session
  ls_ifaces :: "iface list"
  ls_discovered :: "discovered_server list"
  ls_clients :: "identity_hash list"

record controller =
  c_bundle :: path
  c_ds :: ds_state
  c_server :: "live_session option"
  c_client :: "live_session option"
  c_last_server :: "server_args option"
  c_last_client :: "client_args option"
  c_settings :: settings
  c_resume_errors :: "string list"
  c_clock :: nat
  c_ended :: "bridge_session list"

text \<open>
  The host is the one of the dedicated-server manager.  \<open>c_ended\<close> records the sessions that have
  been stopped, as they were when \<open>stop\<close> returned.
\<close>

definition c_host :: "controller \<Rightarrow> host" where "c_host c = dm_host (c_ds c)"

definition set_host :: "host \<Rightarrow> controller \<Rightarrow> controller" where
  "set_host h c = c\<lparr>c_ds := (c_ds c)\<lparr>dm_host := h\<rparr>\<rparr>"

definition tick :: "controller \<Rightarrow> controller" where
  "tick c = c\<lparr>c_clock := Suc (c_clock c)\<rparr>"

definition controller_new :: "ctrl_env \<Rightarrow> path \<Rightarrow> host \<Rightarrow> controller" where
  "controller_new env bundle h =
     (case load_settings (ce_host env) (ce_serde env) (path_join bundle ''settings.json'') h of (r, g) \<Rightarrow>
       let s = (case r of Inr (Some s) \<Rightarrow> s | _ \<Rightarrow> settings_new) in
       \<lparr>c_bundle = bundle, c_ds = ds_new bundle (os_detect (ce_os env)) g, c_server = None, c_client = None,
        c_last_server = set_bridge s, c_last_client = set_client s, c_settings = s,
        c_resume_errors = [], c_clock = 0, c_ended = []\<rparr>)"

definition settings_path :: "controller \<Rightarrow> path" where
  "settings_path c = path_join (c_bundle c) ''settings.json''"

definition save_settings :: "ctrl_env \<Rightarrow> controller \<Rightarrow> controller" where
  "save_settings env c =
     (case write_settings (ce_host env) (ce_serde env) (settings_path c) (c_settings c) (c_host c) of
        (_, h) \<Rightarrow> set_host h c)"

definition upd_settings :: "ctrl_env \<Rightarrow> (settings \<Rightarrow> settings) \<Rightarrow> controller \<Rightarrow> controller" where
  "upd_settings env f c = save_settings env (c\<lparr>c_settings := f (c_settings c)\<rparr>)"

definition is_running :: "controller \<Rightarrow> bool" where
  "is_running c \<longleftrightarrow> c_server c \<noteq> None \<or> c_client c \<noteq> None"

definition session :: "controller \<Rightarrow> string \<Rightarrow> live_session result" where
  "session c r =
     (if r = ''server'' then ok_or ''no bridge server session is running'' (c_server c)
      else if r = ''client'' then ok_or ''no bridge client session is running'' (c_client c)
      else Inl (''unknown role '' @ show_debug r @ '', expected '' @ show_debug ''server'' @ '' or ''
        @ show_debug ''client''))"

text \<open>What a session started with these attachments shows of its node.\<close>

fun request_of :: "attachment \<Rightarrow> iface_request" where
  "request_of (BindTcpServer a) = TcpServerOn a"
| "request_of (AttachTcpClient a) = TcpClientTo a"
| "request_of AttachAutoWifi = AutoWifi"

definition new_live :: "ctrl_env \<Rightarrow> nat \<Rightarrow> bridge_session \<Rightarrow> attachment list \<Rightarrow> live_session" where
  "new_live env n b atts =
     \<lparr>ls_session = b,
      ls_ifaces = fold (\<lambda>a. en_attach (ce_engine env) n (request_of a) None None) atts [],
      ls_discovered = [], ls_clients = []\<rparr>"

text \<open>
  \<open>BridgeSession::stop\<close>, awaited: the node thread runs to its end in between
  (see \<open>stop_end_is_stop\<close>).
\<close>

definition stop_end :: "bridge_session \<Rightarrow> bridge_session" where
  "stop_end b = (let b = stop_signal b in
     if bs_done b then b\<lparr>bs_thread := NodeDone, bs_sockets_held := False, bs_done := False, bs_done_sent := True\<rparr> else b)"

subsection \<open>Bridge server and client sessions\<close>

definition start_bridge_server :: "ctrl_env \<Rightarrow> server_args \<Rightarrow> (unit, controller) st" where
  "start_bridge_server env args c =
     (if c_server c \<noteq> None
      then (Inl ''a bridge server session is already running; stop it first'', c)
      else case start_server (ce_bridge env (c_clock c)) args of
        Inl e \<Rightarrow> (Inl e, tick c)
      | Inr (b, su) \<Rightarrow>
          (Inr (), upd_settings env (\<lambda>s. s\<lparr>set_bridge := Some args, set_bridge_running := True\<rparr>)
             ((tick c)\<lparr>c_server := Some (new_live env (c_clock c) b (ss_attached su)),
                c_last_server := Some args\<rparr>)))"

definition stop_bridge_server :: "ctrl_env \<Rightarrow> (unit, controller) st" where
  "stop_bridge_server env c =
     (Inr (), upd_settings env (\<lambda>s. s\<lparr>set_bridge_running := False\<rparr>)
        (case c_server c of
           None \<Rightarrow> c
         | Some s \<Rightarrow> c\<lparr>c_server := None, c_ended := stop_end (ls_session s) # c_ended c\<rparr>))"

definition restart_bridge_server :: "ctrl_env \<Rightarrow> (unit, controller) st" where
  "restart_bridge_server env c =
     (case c_last_server c of
        None \<Rightarrow> (Inl ''no previous bridge server start to restart from'', c)
      | Some args \<Rightarrow> io_bind (stop_bridge_server env) (\<lambda>_. start_bridge_server env args) c)"

definition start_client_session :: "ctrl_env \<Rightarrow> client_args \<Rightarrow> (unit, controller) st" where
  "start_client_session env args c =
     (if c_client c \<noteq> None
      then (Inl ''a bridge client session is already running; stop it first'', c)
      else case start_client (ce_bridge env (c_clock c)) args of
        Inl e \<Rightarrow> (Inl e, tick c)
      | Inr (b, su) \<Rightarrow>
          (Inr (), upd_settings env (\<lambda>s. s\<lparr>set_client := Some args, set_client_running := True\<rparr>)
             ((tick c)\<lparr>c_client := Some (new_live env (c_clock c) b (cs_attached su)),
                c_last_client := Some args\<rparr>)))"

definition stop_client :: "ctrl_env \<Rightarrow> (unit, controller) st" where
  "stop_client env c =
     (Inr (), upd_settings env (\<lambda>s. s\<lparr>set_client_running := False\<rparr>)
        (case c_client c of
           None \<Rightarrow> c
         | Some s \<Rightarrow> c\<lparr>c_client := None, c_ended := stop_end (ls_session s) # c_ended c\<rparr>))"

definition restart_client :: "ctrl_env \<Rightarrow> (unit, controller) st" where
  "restart_client env c =
     (case c_last_client c of
        None \<Rightarrow> (Inl ''no previous client start to restart from'', c)
      | Some args \<Rightarrow> io_bind (stop_client env) (\<lambda>_. start_client_session env args) c)"

subsection \<open>Browser, connected clients, announces and traces\<close>

text \<open>The client session's browser if there is one, else the server session's.\<close>

definition list_servers :: "ctrl_env \<Rightarrow> controller \<Rightarrow> server_entry list" where
  "list_servers env c =
     (case (case c_client c of Some s \<Rightarrow> Some s | None \<Rightarrow> c_server c) of
        Some s \<Rightarrow> map (from_discovered (ce_hex_encode env) (ce_now env (c_clock c))) (ls_discovered s)
      | None \<Rightarrow> [])"

definition list_connected_clients :: "ctrl_env \<Rightarrow> controller \<Rightarrow> string list" where
  "list_connected_clients env c =
     (case c_server c of Some s \<Rightarrow> map (ce_hex_encode env) (ls_clients s) | None \<Rightarrow> [])"

definition announce_now_ctl :: "ctrl_env \<Rightarrow> (unit, controller) st" where
  "announce_now_ctl env c =
     (rbind (ok_or ''no bridge server session is running'' (c_server c)) (\<lambda>s.
        announce_now (en_announce (ce_engine env) (c_clock c)) (ls_session s)
          (server_announce_app_data (case c_last_server c of None \<Rightarrow> None | Some a \<Rightarrow> sa_name a))),
      tick c)"

record path_trace_result =
  pt_hops :: "u8 option"
  pt_via :: "string option"
  pt_interface :: "string option"
  pt_error :: "string option"

definition trace_destination :: "ctrl_env \<Rightarrow> controller \<Rightarrow> string \<Rightarrow> string \<Rightarrow> destination_hash result" where
  "trace_destination env c r hash_hex =
     rbind (session c r) (\<lambda>_.
     rbind (map_err (\<lambda>e. ''invalid hash: '' @ e) (ce_hex_decode env (trim hash_hex))) (\<lambda>bytes.
       ok_or ''hash must be 16 bytes (32 hex chars)'' (DestinationHash_from_slice bytes)))"

definition trace_path :: "ctrl_env \<Rightarrow> string \<Rightarrow> string \<Rightarrow> (path_trace_result, controller) st" where
  "trace_path env r hash_hex c =
     (case trace_destination env c r hash_hex of
        Inl e \<Rightarrow> (Inl e, c)
      | Inr destination \<Rightarrow>
          (let request = en_request_path (ce_engine env) (c_clock c) destination;
               route = Option.bind (en_routes (ce_engine env) (c_clock c))
                 (find (\<lambda>e. rt_destination e = destination))
           in (Inr (case route of
                Some e \<Rightarrow> \<lparr>pt_hops = Some (rt_hops e),
                  pt_via = Some (case rt_via e of Direct \<Rightarrow> ''direct'' | Via i \<Rightarrow> ''via '' @ i),
                  pt_interface = Some (rt_interface e), pt_error = None\<rparr>
              | None \<Rightarrow> \<lparr>pt_hops = None, pt_via = None, pt_interface = None,
                  pt_error = Some (case request of
                    Inl e \<Rightarrow> ''no route known; path request failed: '' @ e
                  | Inr _ \<Rightarrow> ''no route known yet'')\<rparr>), tick c)))"

subsection \<open>The dedicated server\<close>

text \<open>A method of the manager runs to its end: at most four steps remain after its first.\<close>

fun mgr_finish :: "nat \<Rightarrow> ds_state \<Rightarrow> ds_state" where
  "mgr_finish 0 s = s"
| "mgr_finish (Suc n) s = (case mgr_step (dm_mgr s) s of None \<Rightarrow> s | Some t \<Rightarrow> mgr_finish n t)"

definition upd_saved_ds :: "(ds_start_args \<Rightarrow> ds_start_args) \<Rightarrow> settings \<Rightarrow> settings" where
  "upd_saved_ds f s = s\<lparr>set_ds := map_option f (set_ds s)\<rparr>"

definition ds_start_ctl :: "ctrl_env \<Rightarrow> ds_start_args \<Rightarrow> (unit, controller) st" where
  "ds_start_ctl env args c =
     (case ds_start args (c_ds c) of
        (Inl e, d) \<Rightarrow> (Inl e, c\<lparr>c_ds := d\<rparr>)
      | (Inr _, d) \<Rightarrow> (Inr (), upd_settings env (\<lambda>s. s\<lparr>set_ds := Some args, set_ds_running := True\<rparr>)
           (c\<lparr>c_ds := mgr_finish 4 d\<rparr>)))"

definition ds_stop_ctl :: "ctrl_env \<Rightarrow> (unit, controller) st" where
  "ds_stop_ctl env c = (Inr (), upd_settings env (\<lambda>s. s\<lparr>set_ds_running := False\<rparr>)
     (c\<lparr>c_ds := mgr_finish 4 (ds_stop (c_ds c))\<rparr>))"

definition ds_status_ctl :: "ctrl_env \<Rightarrow> controller \<Rightarrow> ds_status \<times> controller" where
  "ds_status_ctl env c =
     (case ds_status_of (ce_try_wait_err env (c_clock c)) (c_ds c) of
        (st, d) \<Rightarrow> (st, (tick c)\<lparr>c_ds := d\<rparr>))"

definition ds_query :: "ctrl_env \<Rightarrow> (a2s_stats, controller) st" where
  "ds_query env c =
     (case ds_status_ctl env c of (status, c) \<Rightarrow>
        if \<not> st_running status then (Inl ''dedicated server is not running'', c)
        else case st_port status of
          None \<Rightarrow> (Inl ''dedicated server has no port recorded'', c)
        | Some p \<Rightarrow> (case ce_network env (c_clock c) (0x7F000001, p) of (net, bind, connect) \<Rightarrow>
            (fst (query net bind connect), tick c)))"

definition ds_changelevel :: "ctrl_env \<Rightarrow> string \<Rightarrow> (unit, controller) st" where
  "ds_changelevel env m c =
     (case ce_console env (c_clock c) of (w1, w2) \<Rightarrow>
      case send_command w1 w2 (''changelevel '' @ m) (c_ds c) of
        (Inl e, d) \<Rightarrow> (Inl e, (tick c)\<lparr>c_ds := d\<rparr>)
      | (Inr _, d) \<Rightarrow> (Inr (), upd_settings env (upd_saved_ds (\<lambda>a. a\<lparr>da_map := m\<rparr>))
           ((tick c)\<lparr>c_ds := d\<rparr>)))"

definition ds_set_cheats :: "ctrl_env \<Rightarrow> bool \<Rightarrow> (unit, controller) st" where
  "ds_set_cheats env enabled c =
     (case ce_console env (c_clock c) of (w1, w2) \<Rightarrow>
      case set_cheats w1 w2 enabled (c_ds c) of
        (Inl e, d) \<Rightarrow> (Inl e, (tick c)\<lparr>c_ds := d\<rparr>)
      | (Inr _, d) \<Rightarrow> (Inr (), upd_settings env (upd_saved_ds (\<lambda>a. a\<lparr>da_sv_cheats := enabled\<rparr>))
           ((tick c)\<lparr>c_ds := d\<rparr>)))"

definition ds_list_maps_ctl :: "ctrl_env \<Rightarrow> controller \<Rightarrow> string list \<times> controller" where
  "ds_list_maps_ctl env c =
     (case ds_list_maps (ce_host env) (c_ds c) of (ms, d) \<Rightarrow> (ms, c\<lparr>c_ds := d\<rparr>))"

subsection \<open>Connecting the game\<close>

definition validate_hex_hash :: "ctrl_env \<Rightarrow> string \<Rightarrow> unit result" where
  "validate_hex_hash env hex_str =
     rbind (map_err (\<lambda>e. ''invalid server hash: '' @ e) (ce_hex_decode env (trim hex_str))) (\<lambda>bytes.
       if length bytes \<noteq> 16
       then Inl (''server hash must be 16 bytes (32 hex chars), got '' @ show_nat (length bytes) @ '' bytes'')
       else Inr ())"

text \<open>A failed bind says that the client owns the port; every other answer is a reason to retry.\<close>

definition in_use :: "string \<Rightarrow> bool" where
  "in_use e \<longleftrightarrow> str_contains (to_ascii_lowercase e) ''in use''"

definition port_taken :: "udp_probe \<Rightarrow> bool" where
  "port_taken p = (case p of ProbeFailed e \<Rightarrow> in_use e | ProbeBound \<Rightarrow> False)"

text \<open>
  The loop of \<open>wait_for_udp_bind\<close>: \<open>t\<close> is the milliseconds since its start, and the wait
  between two probes is at least 150 of them.  (\<open>to_lowercase\<close> makes no letter of the text
  looked for out of a character outside ASCII, so the ASCII mapping gives the same answer.)
\<close>

function wait_loop :: "ctrl_env \<Rightarrow> u16 \<Rightarrow> nat \<Rightarrow> nat \<Rightarrow> nat \<Rightarrow> unit result \<times> nat" where
  "wait_loop env port timeout t n =
     (let t' = t + ce_probe_millis env n in
      if port_taken (ce_udp_probe env n port) then (Inr (), Suc n)
      else if timeout \<le> t'
      then (Inl (''timed out waiting for bridge client to bind UDP port '' @ show_nat (unat port)), Suc n)
      else wait_loop env port timeout (t' + 150) (Suc n))"
  by pat_completeness auto
termination by (relation "measure (\<lambda>(_, _, timeout, t, _). timeout - t)") (auto simp: Let_def)

declare wait_loop.simps [simp del]

definition wait_for_udp_bind :: "ctrl_env \<Rightarrow> u16 \<Rightarrow> nat \<Rightarrow> (unit, controller) st" where
  "wait_for_udp_bind env port timeout c =
     (case wait_loop env port timeout 0 (c_clock c) of (r, n) \<Rightarrow> (r, c\<lparr>c_clock := n\<rparr>))"

text \<open>A host operation as an operation of the controller.\<close>

definition on_host :: "'a io \<Rightarrow> ('a, controller) st" where
  "on_host m c = (case m (c_host c) of (r, h) \<Rightarrow> (r, set_host h c))"

definition connect_and_launch :: "ctrl_env \<Rightarrow> string \<Rightarrow> (unit, controller) st" where
  "connect_and_launch env server_hash_hex c =
     (case c_last_client c of
        None \<Rightarrow> (Inl ''start a client first (set its listen port + interface), then click Connect'', c)
      | Some args \<Rightarrow>
          io_bind (io_of (validate_hex_hash env server_hash_hex)) (\<lambda>_.
          let args = args\<lparr>server_hash := Some server_hash_hex\<rparr> in
          io_bind (stop_client env) (\<lambda>_.
          io_bind (start_client_session env args) (\<lambda>_.
          io_bind (wait_for_udp_bind env (listen_port args) 8000) (\<lambda>_.
            on_host (launch (ce_host env) (ce_os env) (listen_port args)))))) c)"

subsection \<open>Frame rules\<close>

lemma set_host_sel [simp, state_simps]:
  "c_bundle (set_host h c) = c_bundle c" "c_server (set_host h c) = c_server c"
  "c_client (set_host h c) = c_client c" "c_last_server (set_host h c) = c_last_server c"
  "c_last_client (set_host h c) = c_last_client c" "c_settings (set_host h c) = c_settings c"
  "c_resume_errors (set_host h c) = c_resume_errors c" "c_clock (set_host h c) = c_clock c"
  "c_ended (set_host h c) = c_ended c" "c_host (set_host h c) = h"
  "c_ds (set_host h c) = (c_ds c)\<lparr>dm_host := h\<rparr>"
  by (simp_all add: set_host_def c_host_def)

lemma save_settings_eq: "\<exists>h. save_settings env c = set_host h c"
  by (auto simp: save_settings_def split: prod.split)

lemma save_settings_sel [simp, state_simps]:
  "c_bundle (save_settings env c) = c_bundle c" "c_server (save_settings env c) = c_server c"
  "c_client (save_settings env c) = c_client c" "c_last_server (save_settings env c) = c_last_server c"
  "c_last_client (save_settings env c) = c_last_client c" "c_settings (save_settings env c) = c_settings c"
  "c_resume_errors (save_settings env c) = c_resume_errors c" "c_clock (save_settings env c) = c_clock c"
  "c_ended (save_settings env c) = c_ended c"
  by (simp_all add: save_settings_def split: prod.split)

lemma upd_settings_sel [simp, state_simps]:
  "c_bundle (upd_settings env f c) = c_bundle c" "c_server (upd_settings env f c) = c_server c"
  "c_client (upd_settings env f c) = c_client c" "c_last_server (upd_settings env f c) = c_last_server c"
  "c_last_client (upd_settings env f c) = c_last_client c"
  "c_settings (upd_settings env f c) = f (c_settings c)"
  "c_resume_errors (upd_settings env f c) = c_resume_errors c" "c_clock (upd_settings env f c) = c_clock c"
  "c_ended (upd_settings env f c) = c_ended c"
  by (simp_all add: upd_settings_def)

lemma tick_sel [simp, state_simps]:
  "c_bundle (tick c) = c_bundle c" "c_server (tick c) = c_server c"
  "c_client (tick c) = c_client c" "c_last_server (tick c) = c_last_server c"
  "c_last_client (tick c) = c_last_client c" "c_settings (tick c) = c_settings c"
  "c_resume_errors (tick c) = c_resume_errors c" "c_clock (tick c) = Suc (c_clock c)"
  "c_ended (tick c) = c_ended c" "c_ds (tick c) = c_ds c"
  by (simp_all add: tick_def)

text \<open>The manager but for its host, which saving the settings may change.\<close>

definition same_ds :: "ds_state \<Rightarrow> ds_state \<Rightarrow> bool" where
  "same_ds d e \<longleftrightarrow> (\<exists>h. e = d\<lparr>dm_host := h\<rparr>)"

lemma same_ds_refl [simp]: "same_ds d d"
  unfolding same_ds_def by (rule exI [of _ "dm_host d"]) simp

lemma same_ds_host [simp]: "same_ds d (d\<lparr>dm_host := h\<rparr>)"
  by (auto simp: same_ds_def)

lemma same_ds_sel:
  assumes "same_ds d e"
  shows "dm_mgr e = dm_mgr d" "dm_live e = dm_live d" "dm_tasks e = dm_tasks d" "dm_alive e = dm_alive d"
    "dm_child e = dm_child d" "dm_handle e = dm_handle d" "dm_stdin e = dm_stdin d"
    "dm_cancel e = dm_cancel d" "dm_next e = dm_next d" "dm_console e = dm_console d"
    "dm_bundle e = dm_bundle d" "dm_os e = dm_os d"
  using assms by (auto simp: same_ds_def)

lemma save_settings_ds [simp]: "same_ds (c_ds c) (c_ds (save_settings env c))"
  using save_settings_eq [of env c] by auto

lemma upd_settings_ds [simp]: "same_ds (c_ds c) (c_ds (upd_settings env f c))"
  using save_settings_ds [of "c\<lparr>c_settings := f (c_settings c)\<rparr>" env] by (simp add: upd_settings_def)

lemmas upd_settings_ds_sel [simp] = same_ds_sel [OF upd_settings_ds]

subsection \<open>Stopping a session\<close>

text \<open>\<open>stop_end\<close> is the one result \<open>stop\<close> can have, whatever the node thread did before.\<close>

lemma stop_end_is_stop:
  assumes "session_inv b" and "bs_done b"
  shows "stops b d \<longleftrightarrow> d = stop_end b"
proof -
  have only: "d = stop_end b" if "stops b d" for d
  proof -
    from that obtain c where c: "session_steps (stop_signal b) c" "await_done c = Some d"
      by (auto simp: stops_def)
    have frame: "session_steps x y \<Longrightarrow> y = x\<lparr>bs_thread := bs_thread y, bs_sockets_held := bs_sockets_held y,
        bs_done_sent := bs_done_sent y\<rparr>" for x y
    proof (induction rule: session_steps.induct)
      case (steps_step b c d)
      have "c = b\<lparr>bs_thread := bs_thread c, bs_sockets_held := bs_sockets_held c, bs_done_sent := bs_done_sent c\<rparr>"
        using steps_step.hyps(1)
        by (auto simp: thread_defs elim!: session_stepE split: if_splits)
      from arg_cong [OF this, of "\<lambda>c. c\<lparr>bs_thread := bs_thread d, bs_sockets_held := bs_sockets_held d,
          bs_done_sent := bs_done_sent d\<rparr>"]
      show ?case using steps_step.IH by simp
    qed simp
    have "session_inv (stop_signal b)" "bs_done (stop_signal b)"
      using stop_signal_inv [OF assms(1)] assms(2) by auto
    then have "session_inv c" "bs_done c" using session_steps_inv [OF c(1)] by auto
    then have "d = c\<lparr>bs_done := False\<rparr>" "bs_thread c = NodeDone" "\<not> bs_sockets_held c" "bs_done_sent c"
      using c(2) by (auto simp: await_done_def session_inv_def split: if_splits)
    moreover have "bs_done (stop_signal b)" using stop_signal_inv [OF assms(1)] assms(2) by simp
    ultimately show ?thesis using frame [OF c(1)] by (simp add: stop_end_def Let_def)
  qed
  then show ?thesis using stops_exists [OF assms(1)] by blast
qed

lemma stop_end_released: "session_inv b \<Longrightarrow> bs_thread (stop_end b) = NodeDone \<or> \<not> bs_done b"
  by (auto simp: stop_end_def Let_def stop_signal_def)

subsection \<open>Methods of the dedicated-server manager run to their end\<close>

text \<open>How many steps a method has left.\<close>

fun mgr_left :: "mgr_pc \<Rightarrow> nat" where
  "mgr_left MgrIdle = 0"
| "mgr_left StopAbort = 4"
| "mgr_left StopTake = 3"
| "mgr_left StopStdin = 2"
| "mgr_left StopLive = 1"
| "mgr_left (StartCancel a) = 3"
| "mgr_left (StartLive a) = 2"
| "mgr_left (StartSpawn a) = 1"

lemma mgr_step_left:
  "mgr_step pc s = Some t \<Longrightarrow> Suc (mgr_left (dm_mgr t)) = mgr_left pc"
  by (erule mgr_stepE) (auto simp: Let_def upd_live_def)

lemma mgr_step_None: "mgr_step pc s = None \<longleftrightarrow> pc = MgrIdle"
  by (cases pc) (auto simp: Let_def)

lemma mgr_finish_idle: "mgr_left (dm_mgr s) \<le> n \<Longrightarrow> dm_mgr (mgr_finish n s) = MgrIdle"
proof (induction n arbitrary: s)
  case 0
  then show ?case by (cases "dm_mgr s") auto
next
  case (Suc n)
  then show ?case using mgr_step_left [of "dm_mgr s" s]
    by (fastforce simp: mgr_step_None split: option.split)
qed

lemma mgr_left_le: "mgr_left pc \<le> 4" by (cases pc) auto

lemma mgr_finish_4 [simp]: "dm_mgr (mgr_finish 4 s) = MgrIdle"
  by (rule mgr_finish_idle) (rule mgr_left_le)

text \<open>A method that runs to its end is a sequence of steps of the manager.\<close>

lemma mgr_finish_run: "\<exists>n. ds_run env ar s (replicate n AMgr) (mgr_finish k s)"
proof (induction k arbitrary: s)
  case 0
  show ?case using ds_run_Nil [of env ar s] by (intro exI [of _ 0]) simp
next
  case (Suc k)
  show ?case
  proof (cases "mgr_step (dm_mgr s) s")
    case None
    then show ?thesis using ds_run_Nil [of env ar s] by (intro exI [of _ 0]) simp
  next
    case (Some t)
    obtain n where "ds_run env ar t (replicate n AMgr) (mgr_finish k t)" using Suc by blast
    then have "ds_run env ar s (replicate (Suc n) AMgr) (mgr_finish (Suc k) s)"
      using Some by (auto intro: ds_run_Cons)
    then show ?thesis by blast
  qed
qed

subsection \<open>A session slot\<close>

text \<open>
  The server and the client half of the controller keep the same contract: a session that is
  or is not there (\<open>up\<close>), the arguments of the last start, and the two saved fields, of
  which \<open>wanted\<close> decides whether a resume starts the session.
\<close>

locale session_slot =
  fixes start :: "'a \<Rightarrow> (unit, 's) st" and stop :: "(unit, 's) st" and restart :: "(unit, 's) st"
    and up :: "'s \<Rightarrow> bool" and last_args :: "'s \<Rightarrow> 'a option"
    and saved :: "'s \<Rightarrow> 'a option" and wanted :: "'s \<Rightarrow> bool"
  assumes start_busy: "up c \<Longrightarrow> \<exists>e. start a c = (Inl e, c)"
    and start_ok: "start a c = (Inr u, d) \<Longrightarrow> \<not> up c \<and> up d \<and> last_args d = Some a \<and> saved d = Some a \<and> wanted d"
    and start_fails: "start a c = (Inl e, d) \<Longrightarrow>
      up d = up c \<and> last_args d = last_args c \<and> saved d = saved c \<and> wanted d = wanted c"
    and stop_ok: "\<exists>d. stop c = (Inr (), d) \<and> \<not> up d \<and> last_args d = last_args c \<and> saved d = saved c \<and> \<not> wanted d"
    and restart_is: "last_args c = Some a \<Longrightarrow> restart c = io_bind stop (\<lambda>_. start a) c"
    and restart_first: "last_args c = None \<Longrightarrow> \<exists>e. restart c = (Inl e, c)"
begin

text \<open>The memory copy of the arguments is the saved one, and a session that is up is wanted.\<close>

definition in_step :: "'s \<Rightarrow> bool" where
  "in_step c \<longleftrightarrow> last_args c = saved c \<and> (up c \<longrightarrow> wanted c \<and> saved c \<noteq> None)"

lemma start_in_step: "in_step c \<Longrightarrow> start a c = (r, d) \<Longrightarrow> in_step d"
  using start_ok [of a c _ d] start_fails [of a c _ d] by (cases r) (auto simp: in_step_def)

lemma stop_in_step: "in_step c \<Longrightarrow> stop c = (r, d) \<Longrightarrow> in_step d"
  using stop_ok [of c] by (auto simp: in_step_def)

text \<open>A restart runs again with the same arguments, or leaves the session down and unwanted.\<close>

lemma restart_cases:
  assumes "restart c = (r, d)"
  shows "(\<exists>e. r = Inl e \<and> d = c \<and> last_args c = None)
    \<or> (r = Inr () \<and> up d \<and> wanted d \<and> last_args d = last_args c \<and> saved d = last_args c \<and> last_args c \<noteq> None)
    \<or> (\<exists>e. r = Inl e \<and> \<not> up d \<and> \<not> wanted d \<and> last_args d = last_args c \<and> saved d = saved c)"
proof (cases "last_args c")
  case None
  then show ?thesis using restart_first [OF None] assms by auto
next
  case (Some a)
  obtain k where k: "stop c = (Inr (), k)" "\<not> up k" "last_args k = last_args c" "saved k = saved c" "\<not> wanted k"
    using stop_ok [of c] by blast
  have "start a k = (r, d)" using assms restart_is [OF Some] k(1) by (simp add: io_bind_def)
  then show ?thesis using start_ok [of a k _ d] start_fails [of a k _ d] k(2-) Some
    by (cases r) auto
qed

lemma restart_in_step: "in_step c \<Longrightarrow> restart c = (r, d) \<Longrightarrow> in_step d"
  using restart_cases [of c r d] by (auto simp: in_step_def)

text \<open>What comes after a stop can start again: the slot is free.\<close>

lemma start_after_stop:
  assumes "stop c = (Inr (), d)" and "start a d = (Inl e, k)"
  shows "\<not> up k \<and> \<not> wanted k"
  using assms stop_ok [of c] start_fails [OF assms(2)] by auto

end

definition server_up :: "controller \<Rightarrow> bool" where "server_up c \<longleftrightarrow> c_server c \<noteq> None"
definition client_up :: "controller \<Rightarrow> bool" where "client_up c \<longleftrightarrow> c_client c \<noteq> None"

interpretation srv: session_slot "start_bridge_server env" "stop_bridge_server env" "restart_bridge_server env"
  server_up c_last_server "\<lambda>c. set_bridge (c_settings c)" "\<lambda>c. set_bridge_running (c_settings c)"
  by unfold_locales
    (auto simp: server_up_def start_bridge_server_def stop_bridge_server_def restart_bridge_server_def
      split: if_splits sum.splits option.splits)

interpretation cli: session_slot "start_client_session env" "stop_client env" "restart_client env"
  client_up c_last_client "\<lambda>c. set_client (c_settings c)" "\<lambda>c. set_client_running (c_settings c)"
  by unfold_locales
    (auto simp: client_up_def start_client_session_def stop_client_def restart_client_def
      split: if_splits sum.splits option.splits)

text \<open>
  Fact: a restart of the bridge server ends in one of three ways.  It runs again with the
  arguments of the last start, which are also the saved ones; or there was no last start and
  nothing has changed; or the new start failed, and then no server runs any more and the
  saved settings say so: unlike a start that fails at boot, it is not tried again at
  the next resume.
\<close>

theorem restart_outcome:
  assumes "restart_bridge_server env c = (r, d)"
  shows "(\<exists>e. r = Inl e \<and> d = c \<and> c_last_server c = None)
    \<or> (r = Inr () \<and> c_server d \<noteq> None \<and> c_last_server d = c_last_server c
        \<and> set_bridge (c_settings d) = c_last_server c \<and> set_bridge_running (c_settings d))
    \<or> (\<exists>e. r = Inl e \<and> c_server d = None \<and> c_last_server d = c_last_server c
        \<and> \<not> set_bridge_running (c_settings d))"
  using srv.restart_cases [OF assms] by (auto simp: server_up_def)

subsection \<open>Waiting for the port\<close>

lemma wait_loop_outcome:
  assumes "wait_loop env port timeout t n = (r, m)"
  shows "n < m \<and> (\<forall>i. n \<le> i \<and> Suc i < m \<longrightarrow> \<not> port_taken (ce_udp_probe env i port))
    \<and> (is_ok r \<longleftrightarrow> port_taken (ce_udp_probe env (m - 1) port))
    \<and> m - n \<le> Suc ((timeout - t + 149) div 150)"
  using assms
proof (induction env port timeout t n rule: wait_loop.induct)
  case (1 env port timeout t n)
  let ?t = "t + ce_probe_millis env n"
  show ?case
  proof (cases "port_taken (ce_udp_probe env n port) \<or> timeout \<le> ?t")
    case True
    then show ?thesis using 1 (2) by (subst (asm) wait_loop.simps) (auto simp: Let_def split: if_splits)
  next
    case False
    then have rec: "wait_loop env port timeout (?t + 150) (Suc n) = (r, m)"
      using 1 (2) by (subst (asm) wait_loop.simps) (auto simp: Let_def)
    have ih: "Suc n < m \<and> (\<forall>i. Suc n \<le> i \<and> Suc i < m \<longrightarrow> \<not> port_taken (ce_udp_probe env i port))
      \<and> (is_ok r \<longleftrightarrow> port_taken (ce_udp_probe env (m - 1) port))
      \<and> m - Suc n \<le> Suc ((timeout - (?t + 150) + 149) div 150)"
      using 1 (1) [OF refl _ _ rec] False by auto
    have lt: "?t < timeout" using False by simp
    have "Suc ((timeout - (?t + 150) + 149) div 150) \<le> (timeout - t + 149) div 150"
    proof -
      have "timeout - (?t + 150) + 149 + 150 \<le> timeout - t + 149 \<or> timeout - (?t + 150) = 0" using lt by linarith
      moreover have "150 \<le> timeout - t + 149" using lt by linarith
      ultimately show ?thesis by (auto dest: div_le_mono [of _ _ 150])
    qed
    then have "m - n \<le> Suc ((timeout - t + 149) div 150)" using ih by linarith
    moreover have "\<not> port_taken (ce_udp_probe env i port)" if "n \<le> i" "Suc i < m" for i
      using ih False that by (cases "i = n") auto
    ultimately show ?thesis using ih by auto
  qed
qed

text \<open>
  C40: the wait for the client's port ends after at most one probe per 150 milliseconds of the time
  limit, and one more; it ends well exactly when its last probe found the port in use, no
  earlier probe did, and it changes nothing else.
\<close>

theorem port_wait_ends:
  "case wait_for_udp_bind env p timeout c of (r, d) \<Rightarrow>
     d = c\<lparr>c_clock := c_clock d\<rparr> \<and> c_clock c < c_clock d
     \<and> c_clock d - c_clock c \<le> 1 + (timeout + 149) div 150
     \<and> (is_ok r \<longleftrightarrow> port_taken (ce_udp_probe env (c_clock d - 1) p))
     \<and> \<not> (\<exists>i. c_clock c \<le> i \<and> Suc i < c_clock d \<and> port_taken (ce_udp_probe env i p))"
proof -
  obtain r n where w: "wait_loop env p timeout 0 (c_clock c) = (r, n)" by fastforce
  then have d: "wait_for_udp_bind env p timeout c = (r, c\<lparr>c_clock := n\<rparr>)" by (simp add: wait_for_udp_bind_def)
  show ?thesis unfolding d using wait_loop_outcome [OF w] by auto
qed

subsection \<open>Connecting and changing maps\<close>

lemma write_settings_commands: "h_commands (snd (write_settings env se p s h)) = h_commands h"
proof -
  have "no_process.keeps (write_settings env se p s)"
    by (auto simp: write_settings_def intro!: no_process.keeps_bind no_process.keeps_try split: sum.split)
  then show ?thesis by (simp add: no_process.keeps_def)
qed

lemma save_settings_commands [simp]: "h_commands (c_host (save_settings env c)) = h_commands (c_host c)"
  using write_settings_commands [of "ce_host env" "ce_serde env" "settings_path c" "c_settings c" "c_host c"]
  by (auto simp: save_settings_def split: prod.split)

lemma upd_settings_commands [simp]: "h_commands (c_host (upd_settings env f c)) = h_commands (c_host c)"
  using save_settings_commands [of env "c\<lparr>c_settings := f (c_settings c)\<rparr>"]
  by (simp add: upd_settings_def) (simp add: c_host_def)

lemma c_host_upd [simp]:
  "c_host (c\<lparr>c_server := x\<rparr>) = c_host c" "c_host (c\<lparr>c_client := y\<rparr>) = c_host c"
  "c_host (c\<lparr>c_last_server := a\<rparr>) = c_host c" "c_host (c\<lparr>c_last_client := b\<rparr>) = c_host c"
  "c_host (c\<lparr>c_clock := n\<rparr>) = c_host c" "c_host (c\<lparr>c_ended := es\<rparr>) = c_host c"
  "c_host (c\<lparr>c_resume_errors := rs\<rparr>) = c_host c" "c_host (tick c) = c_host c"
  by (simp_all add: c_host_def)

lemma client_session_commands:
  "start_client_session env args c = (r, d) \<Longrightarrow> h_commands (c_host d) = h_commands (c_host c)"
  "stop_client env c = (r, d) \<Longrightarrow> h_commands (c_host d) = h_commands (c_host c)"
  by (auto simp: start_client_session_def stop_client_def split: if_splits sum.splits option.splits)

lemma start_client_outcome:
  "start_client_session env args c = (Inr u, d) \<Longrightarrow>
   c_client d \<noteq> None \<and> c_last_client d = Some args \<and> set_client (c_settings d) = Some args
   \<and> set_client_running (c_settings d)"
  using cli.start_ok [of env args c u d] by (simp add: client_up_def)

text \<open>
  C19: \<open>connect_and_launch\<close> succeeds only in this order: the client is stopped, started again with the
  clicked server's hash, its listen port is probed from then on until it is seen to be in use, and
  only then is one program started, with the address of that port; the session restarted is the one
  that stays.  An invalid hash changes nothing, and when any later part fails no program is started.
\<close>

theorem connect_order:
  assumes "connect_and_launch env hash c = (r, d)" and "c_last_client c = Some args"
  shows "(r = Inr () \<longrightarrow> c_client d \<noteq> None \<and> c_last_client d = Some (args\<lparr>server_hash := Some hash\<rparr>)
        \<and> set_client (c_settings d) = c_last_client d
        \<and> (\<exists>k m. stop_client env c = (Inr (), k) \<and> c_client k = None
             \<and> start_client_session env (args\<lparr>server_hash := Some hash\<rparr>) k = (Inr (), m)
             \<and> c_client d = c_client m \<and> h_commands (c_host m) = h_commands (c_host c)
             \<and> c_clock m < c_clock d \<and> port_taken (ce_udp_probe env (c_clock d - 1) (listen_port args))
             \<and> \<not> (\<exists>i. c_clock m \<le> i \<and> Suc i < c_clock d \<and> port_taken (ce_udp_probe env i (listen_port args))))
        \<and> (\<exists>cmd. h_commands (c_host d) = h_commands (c_host c) @ [cmd]
             \<and> last (cmd_args cmd) = connect_uri (listen_port args)))
     \<and> (validate_hex_hash env hash \<noteq> Inr () \<longrightarrow> d = c)
     \<and> (r \<noteq> Inr () \<longrightarrow> h_commands (c_host d) = h_commands (c_host c))"
proof (cases "validate_hex_hash env hash")
  case (Inl e)
  then show ?thesis using assms by (auto simp: connect_and_launch_def io_bind_def)
next
  case (Inr u)
  let ?args = "args\<lparr>server_hash := Some hash\<rparr>"
  obtain k where k: "stop_client env c = (Inr (), k)" "c_client k = None"
    using cli.stop_ok [of env c] by (auto simp: client_up_def)
  have hk: "h_commands (c_host k) = h_commands (c_host c)" by (rule client_session_commands(2) [OF k(1)])
  obtain s m where s: "start_client_session env ?args k = (s, m)" by fastforce
  have hm: "h_commands (c_host m) = h_commands (c_host k)" by (rule client_session_commands(1) [OF s])
  show ?thesis
  proof (cases s)
    case (Inl e)
    then show ?thesis using assms k hk s hm Inr
      by (auto simp: connect_and_launch_def io_bind_def)
  next
    case started: (Inr v)
    have m: "c_client m \<noteq> None" "c_last_client m = Some ?args" "set_client (c_settings m) = Some ?args"
      using start_client_outcome [of env ?args k v m] s started by auto
    obtain w n where w: "wait_loop env (listen_port args) 8000 0 (c_clock m) = (w, n)" by fastforce
    show ?thesis
    proof (cases w)
      case (Inl e)
      then show ?thesis using assms k hk s hm Inr started w
        by (auto simp: connect_and_launch_def io_bind_def wait_for_udp_bind_def)
    next
      case waited: (Inr x)
      have probes: "c_clock m < n" "port_taken (ce_udp_probe env (n - 1) (listen_port args))"
        "\<not> (\<exists>i. c_clock m \<le> i \<and> Suc i < n \<and> port_taken (ce_udp_probe env i (listen_port args)))"
        using wait_loop_outcome [OF w] waited by auto
      obtain l g where l: "launch (ce_host env) (ce_os env) (listen_port args) (c_host m) = (l, g)" by fastforce
      have d: "r = l" "d = set_host g (m\<lparr>c_clock := n\<rparr>)"
        using assms k s Inr started w waited l
        by (simp_all add: connect_and_launch_def io_bind_def wait_for_udp_bind_def on_host_def)
      have "start_client_session env ?args k = (Inr (), m)" using s started by simp
      then show ?thesis unfolding d using m k probes hk hm launch_outcome [OF l] Inr by auto
    qed
  qed
qed

lemma changelevel_outcome:
  assumes "ds_changelevel env m c = (Inr u, d)"
  shows "\<exists>p. dm_stdin (c_ds c) = Some p \<and> dm_console (c_ds d) = dm_console (c_ds c) @ [(p, ''changelevel '' @ m @ LF)]
     \<and> c_settings d = upd_saved_ds (\<lambda>a. a\<lparr>da_map := m\<rparr>) (c_settings c)"
  using assms by (auto simp: ds_changelevel_def send_command_def split: prod.splits option.splits sum.splits)

text \<open>
  Fact: a successful map change has sent one line to the console of the running server and saved the
  map; a map name with a line end in it is sent as it is and is two commands for the server,
  the second of the caller's choice.
\<close>

theorem changelevel_lines:
  assumes "ds_changelevel env m c = (Inr u, d)"
  shows "\<exists>p text. dm_stdin (c_ds c) = Some p \<and> dm_console (c_ds d) = dm_console (c_ds c) @ [(p, text)]
     \<and> (clean_line m \<longrightarrow> str_lines text = [''changelevel '' @ m])
     \<and> (\<forall>a b. m = a @ LF @ b \<and> clean_line a \<and> clean_line b \<longrightarrow> str_lines text = [''changelevel '' @ a, b])
     \<and> (\<forall>a. set_ds (c_settings c) = Some a \<longrightarrow> set_ds (c_settings d) = Some (a\<lparr>da_map := m\<rparr>))"
proof -
  obtain p where p: "dm_stdin (c_ds c) = Some p"
    "dm_console (c_ds d) = dm_console (c_ds c) @ [(p, ''changelevel '' @ m @ LF)]"
    "c_settings d = upd_saved_ds (\<lambda>a. a\<lparr>da_map := m\<rparr>) (c_settings c)"
    using changelevel_outcome [OF assms] by blast
  have clean: "clean_line (''changelevel '' @ a)" if "clean_line a" for a
    using that by (cases a rule: rev_cases) (auto simp: clean_line_def)
  have one: "str_lines (''changelevel '' @ a @ LF) = [''changelevel '' @ a]" if "clean_line a" for a
    using str_lines_terminated [of "[''changelevel '' @ a]"] clean [OF that] by (simp add: LF_def)
  have two: "str_lines (''changelevel '' @ (a @ LF @ b) @ LF) = [''changelevel '' @ a, b]"
    if "clean_line a" "clean_line b" for a b
    using str_lines_terminated [of "[''changelevel '' @ a, b]"] clean that by (simp add: LF_def)
  show ?thesis using p one two by (auto simp: upd_saved_ds_def)
qed

end
