(* ===== verification/Interfaces.thy ===== *)
theory Interfaces
  imports Controller
begin

text \<open>
  Live interfaces (\<open>controller/src/controller.rs\<close>): adding, listing, removing and renaming the
  interfaces of the running sessions, with the descriptors saved for the next resume.
\<close>

definition parse_host_port :: "string \<Rightarrow> (string \<times> u16) result" where
  "parse_host_port addr =
     rbind (ok_or (''TCP address '' @ addr @ '' has no port'') (rfind_char (CHR '':'') addr)) (\<lambda>colon.
     rbind (ok_or (''TCP address '' @ addr @ '' has a non-numeric port'') (parse_u16 (drop (Suc colon) addr))) (\<lambda>port.
       Inr (take colon addr, port)))"

definition find_interface_by_hex :: "ctrl_env \<Rightarrow> live_session \<Rightarrow> string \<Rightarrow> interface_id option" where
  "find_interface_by_hex env s id_hex =
     map_option if_id (find (\<lambda>i. ce_hex_encode env (if_id i) = to_ascii_lowercase id_hex) (ls_ifaces s))"

record interface_info =
  ii_id :: string
  ii_role :: string
  ii_name :: "string option"
  ii_mode :: string
  ii_connection :: string
  ii_rx_bytes :: u64
  ii_tx_bytes :: u64
  ii_links :: u32

definition interface_info_of :: "ctrl_env \<Rightarrow> string \<Rightarrow> iface \<Rightarrow> interface_info" where
  "interface_info_of env r i =
     \<lparr>ii_id = ce_hex_encode env (if_id i), ii_role = r, ii_name = if_name i, ii_mode = if_mode i,
      ii_connection = if_connection i, ii_rx_bytes = if_rx_bytes i, ii_tx_bytes = if_tx_bytes i,
      ii_links = if_links i\<rparr>"

definition list_interfaces :: "ctrl_env \<Rightarrow> controller \<Rightarrow> interface_info list" where
  "list_interfaces env c =
     concat (map (\<lambda>(r, slot). case slot of None \<Rightarrow> [] | Some s \<Rightarrow> map (interface_info_of env r) (ls_ifaces s))
       [(''server'', c_server c), (''client'', c_client c)])"

definition record_interface :: "ctrl_env \<Rightarrow> interface_descriptor \<Rightarrow> controller \<Rightarrow> controller" where
  "record_interface env d =
     upd_settings env (\<lambda>s. s\<lparr>set_interfaces := upsert_interface d (set_interfaces s)\<rparr>)"

text \<open>The interface list of the session of a role, written back.\<close>

definition set_ifaces :: "string \<Rightarrow> iface list \<Rightarrow> controller \<Rightarrow> controller" where
  "set_ifaces r l c =
     (if r = ''server'' then c\<lparr>c_server := map_option (\<lambda>s. s\<lparr>ls_ifaces := l\<rparr>) (c_server c)\<rparr>
      else c\<lparr>c_client := map_option (\<lambda>s. s\<lparr>ls_ifaces := l\<rparr>) (c_client c)\<rparr>)"

text \<open>
  The common part of the four \<open>add_interface\<close> methods after their sockets are open: attach, find
  the id that was not there before, save the descriptor.
\<close>

definition new_interface_id :: "ctrl_env \<Rightarrow> iface list \<Rightarrow> iface list \<Rightarrow> string option" where
  "new_interface_id env before after =
     map_option (\<lambda>i. ce_hex_encode env (if_id i)) (find (\<lambda>i. if_id i \<notin> if_id ` set before) after)"

definition attach_and_record ::
  "ctrl_env \<Rightarrow> live_session \<Rightarrow> iface_request \<Rightarrow> string option \<Rightarrow> interface_descriptor \<Rightarrow> controller \<Rightarrow> controller" where
  "attach_and_record env s req name d c =
     (let before = ls_ifaces s;
          ifac = derive_ifac (id_ifac_name d) (id_ifac_passphrase d);
          after = en_attach (ce_engine env) (c_clock c) req ifac (if ifac = None then None else name) before
      in record_interface env (d\<lparr>id_id := new_interface_id env before after\<rparr>)
           (set_ifaces (id_role d) after (tick c)))"

definition bind_request :: "ctrl_env \<Rightarrow> iface_request \<Rightarrow> string \<Rightarrow> controller \<Rightarrow> unit result" where
  "bind_request env req what c = with_context what (en_bind (ce_engine env) (c_clock c) req)"

text \<open>A TCP address: what to attach, or why not.\<close>

definition tcp_request :: "ctrl_env \<Rightarrow> string \<Rightarrow> controller \<Rightarrow> iface_request result" where
  "tcp_request env addr c =
     rbind (parse_host_port addr) (\<lambda>(host, port).
       if host = ''0.0.0.0'' \<or> host = []
       then rbind (bind_request env (TcpServerOn addr) (''binding TCP server on '' @ addr) c) (\<lambda>_. Inr (TcpServerOn addr))
       else if 0 < port then Inr (TcpClientTo addr)
       else Inl (''invalid TCP address '' @ addr @ '': no port''))"

definition add_interface_tcp ::
  "ctrl_env \<Rightarrow> string \<Rightarrow> string \<Rightarrow> string option \<Rightarrow> string option \<Rightarrow> (unit, controller) st" where
  "add_interface_tcp env addr r ifac_name ifac_passphrase c =
     (case rbind (session c r) (\<lambda>s. rbind (tcp_request env addr c) (\<lambda>req. Inr (s, req))) of
        Inl e \<Rightarrow> (Inl e, tick c)
      | Inr (s, req) \<Rightarrow> (Inr (), attach_and_record env s req None
          \<lparr>id_id = None, id_kind = ''tcp'', id_role = r, id_addr = Some addr, id_peer_addr = None,
           id_ifac_name = ifac_name, id_ifac_passphrase = ifac_passphrase\<rparr> c))"

definition add_interface_auto ::
  "ctrl_env \<Rightarrow> string \<Rightarrow> string option \<Rightarrow> string option \<Rightarrow> (unit, controller) st" where
  "add_interface_auto env r ifac_name ifac_passphrase c =
     (case session c r of
        Inl e \<Rightarrow> (Inl e, tick c)
      | Inr s \<Rightarrow> (Inr (), attach_and_record env s AutoWifi ifac_name
          \<lparr>id_id = None, id_kind = ''auto'', id_role = r, id_addr = None, id_peer_addr = None,
           id_ifac_name = ifac_name, id_ifac_passphrase = ifac_passphrase\<rparr> c))"

definition add_interface_udp ::
  "ctrl_env \<Rightarrow> string \<Rightarrow> string \<Rightarrow> string \<Rightarrow> string option \<Rightarrow> string option \<Rightarrow> (unit, controller) st" where
  "add_interface_udp env local peer r ifac_name ifac_passphrase c =
     (case rbind (session c r) (\<lambda>s.
             rbind (bind_request env (UdpBetween local peer)
               (''binding UDP interface '' @ local @ '' <-> '' @ peer) c) (\<lambda>_. Inr s)) of
        Inl e \<Rightarrow> (Inl e, tick c)
      | Inr s \<Rightarrow> (Inr (), attach_and_record env s (UdpBetween local peer) ifac_name
          \<lparr>id_id = None, id_kind = ''udp'', id_role = r, id_addr = Some local, id_peer_addr = Some peer,
           id_ifac_name = ifac_name, id_ifac_passphrase = ifac_passphrase\<rparr> c))"

text \<open>A WebSocket address: a URL is a client, anything else a server; only a client keeps the name.\<close>

definition websocket_request :: "ctrl_env \<Rightarrow> string \<Rightarrow> controller \<Rightarrow> iface_request result" where
  "websocket_request env addr c =
     (if starts_with addr ''ws://'' \<or> starts_with addr ''wss://'' then Inr (WebSocketClientTo addr)
      else rbind (parse_host_port addr) (\<lambda>(_, port).
        if port = 0 then Inl (''invalid WebSocket bind address '' @ addr @ '': no port'')
        else rbind (bind_request env (WebSocketServerOn addr) (''binding WebSocket server on '' @ addr) c)
               (\<lambda>_. Inr (WebSocketServerOn addr))))"

definition add_interface_websocket ::
  "ctrl_env \<Rightarrow> string \<Rightarrow> string \<Rightarrow> string option \<Rightarrow> string option \<Rightarrow> (unit, controller) st" where
  "add_interface_websocket env addr r ifac_name ifac_passphrase c =
     (case rbind (session c r) (\<lambda>s. rbind (websocket_request env addr c) (\<lambda>req. Inr (s, req))) of
        Inl e \<Rightarrow> (Inl e, tick c)
      | Inr (s, req) \<Rightarrow> (Inr (), attach_and_record env s req
          (case req of WebSocketClientTo _ \<Rightarrow> ifac_name | _ \<Rightarrow> None)
          \<lparr>id_id = None, id_kind = ''websocket'', id_role = r, id_addr = Some addr, id_peer_addr = None,
           id_ifac_name = ifac_name, id_ifac_passphrase = ifac_passphrase\<rparr> c))"

text \<open>The first session, server before client, that has an interface of this id.\<close>

definition session_owning_interface :: "ctrl_env \<Rightarrow> controller \<Rightarrow> string \<Rightarrow> (string \<times> live_session) option" where
  "session_owning_interface env c id_hex =
     find (\<lambda>(_, s). find_interface_by_hex env s id_hex \<noteq> None)
       (List.map_filter (\<lambda>(r, slot). map_option (Pair r) slot) [(''server'', c_server c), (''client'', c_client c)])"

definition owned_interface :: "ctrl_env \<Rightarrow> controller \<Rightarrow> string \<Rightarrow> (string \<times> live_session \<times> interface_id) result" where
  "owned_interface env c id_hex =
     rbind (ok_or (''no interface with id '' @ id_hex) (session_owning_interface env c id_hex)) (\<lambda>(r, s).
     rbind (ok_or (''no interface with id '' @ id_hex) (find_interface_by_hex env s id_hex)) (\<lambda>i.
       Inr (r, s, i)))"

definition keeps_descriptor :: "string \<Rightarrow> interface_descriptor \<Rightarrow> bool" where
  "keeps_descriptor target d \<longleftrightarrow>
     (case id_id d of None \<Rightarrow> True | Some i \<Rightarrow> \<not> eq_ignore_ascii_case i target)"

definition remove_interface :: "ctrl_env \<Rightarrow> string \<Rightarrow> (unit, controller) st" where
  "remove_interface env id_hex c =
     (case owned_interface env c id_hex of
        Inl e \<Rightarrow> (Inl e, c)
      | Inr (r, s, i) \<Rightarrow>
          (Inr (), upd_settings env
             (\<lambda>t. t\<lparr>set_interfaces := filter (keeps_descriptor (to_ascii_lowercase id_hex)) (set_interfaces t)\<rparr>)
             (set_ifaces r (en_remove (ce_engine env) (c_clock c) i (ls_ifaces s)) (tick c))))"

definition rename_interface :: "ctrl_env \<Rightarrow> string \<Rightarrow> string \<Rightarrow> (unit, controller) st" where
  "rename_interface env id_hex name c =
     (case owned_interface env c id_hex of
        Inl e \<Rightarrow> (Inl e, c)
      | Inr (r, s, i) \<Rightarrow>
          (case en_rename (ce_engine env) (c_clock c) i name (ls_ifaces s) of
             (True, l) \<Rightarrow> (Inr (), set_ifaces r l (tick c))
           | (False, l) \<Rightarrow> (Inl (''failed to rename interface '' @ id_hex), set_ifaces r l (tick c))))"

subsection \<open>Addresses\<close>

text \<open>
  Fact: an address parses exactly when what follows its last colon is a 16-bit number, into what
  comes before that colon and the number; in particular an address written from a host and
  a port is read back.
\<close>

theorem host_port_parses:
  "(parse_host_port addr = Inr (host, p) \<longleftrightarrow>
     (\<exists>port. addr = host @ '':'' @ port \<and> CHR '':'' \<notin> set port \<and> parse_u16 port = Some p))
   \<and> parse_host_port (host @ '':'' @ show_nat (unat p)) = Inr (host, p)"
proof -
  have split: "parse_host_port (h @ '':'' @ port) = Inr (h, q)"
    if "CHR '':'' \<notin> set port" "parse_u16 port = Some q" for h port q
    using that rfind_char_append [of "CHR '':''" port h] by (simp add: parse_host_port_def)
  have "\<exists>port. addr = host @ '':'' @ port \<and> CHR '':'' \<notin> set port \<and> parse_u16 port = Some p"
    if parsed: "parse_host_port addr = Inr (host, p)"
  proof -
    obtain i where i: "rfind_char (CHR '':'') addr = Some i" "parse_u16 (drop (Suc i) addr) = Some p" "host = take i addr"
      using parsed by (auto simp: parse_host_port_def rbind_eq_Inr ok_or_eq_Inr)
    have "\<exists>h port. addr = h @ '':'' @ port \<and> CHR '':'' \<notin> set port \<and> h = host \<and> parse_u16 port = Some p"
      using rfind_char_split [OF i(1), of "\<lambda>h port. h = host \<and> parse_u16 port = Some p"] i(2,3) by simp
    then show ?thesis by blast
  qed
  moreover have "CHR '':'' \<notin> set (show_nat (unat p))" by (rule show_nat_no) (simp add: is_ascii_digit_def)
  ultimately show ?thesis using split parse_u16_show [of p] by blast
qed

subsection \<open>Saved descriptors\<close>

lemma set_ifaces_sel [simp, state_simps]:
  "c_bundle (set_ifaces r l c) = c_bundle c" "c_last_server (set_ifaces r l c) = c_last_server c"
  "c_last_client (set_ifaces r l c) = c_last_client c" "c_settings (set_ifaces r l c) = c_settings c"
  "c_resume_errors (set_ifaces r l c) = c_resume_errors c" "c_clock (set_ifaces r l c) = c_clock c"
  "c_ended (set_ifaces r l c) = c_ended c" "c_ds (set_ifaces r l c) = c_ds c"
  by (simp_all add: set_ifaces_def)

lemma session_cases:
  "session c r = Inr s \<longleftrightarrow> (r = ''server'' \<and> c_server c = Some s) \<or> (r = ''client'' \<and> c_client c = Some s)"
  by (auto simp: session_def ok_or_eq_Inr)

text \<open>
  Frame lemmas are stated through a view of the state that the interface methods leave alone:
  the state without interface lists, saved descriptors, host and clock.
\<close>

definition no_host :: host where
  "no_host = \<lparr>h_files = [], h_calls = 0, h_urls = [], h_commands = []\<rparr>"

definition iface_view :: "controller \<Rightarrow> controller" where
  "iface_view c = c\<lparr>c_ds := (c_ds c)\<lparr>dm_host := no_host\<rparr>,
     c_server := map_option (\<lambda>s. s\<lparr>ls_ifaces := []\<rparr>) (c_server c),
     c_client := map_option (\<lambda>s. s\<lparr>ls_ifaces := []\<rparr>) (c_client c),
     c_settings := (c_settings c)\<lparr>set_interfaces := []\<rparr>, c_clock := 0\<rparr>"

lemma iface_viewD:
  assumes "iface_view k = iface_view c"
  shows "c_bundle k = c_bundle c" "c_last_server k = c_last_server c" "c_last_client k = c_last_client c"
    "c_resume_errors k = c_resume_errors c" "c_ended k = c_ended c"
    "map_option ls_session (c_server k) = map_option ls_session (c_server c)"
    "map_option ls_session (c_client k) = map_option ls_session (c_client c)"
    "(c_settings k)\<lparr>set_interfaces := []\<rparr> = (c_settings c)\<lparr>set_interfaces := []\<rparr>"
    "(c_ds k)\<lparr>dm_host := no_host\<rparr> = (c_ds c)\<lparr>dm_host := no_host\<rparr>"
proof -
  have sess: "map_option ls_session (map_option (\<lambda>s. s\<lparr>ls_ifaces := []\<rparr>) s) = map_option ls_session s" for s :: "live_session option"
    by (cases s) auto
  show "c_bundle k = c_bundle c" using arg_cong [OF assms, of c_bundle] by (simp add: iface_view_def)
  show "c_last_server k = c_last_server c" using arg_cong [OF assms, of c_last_server] by (simp add: iface_view_def)
  show "c_last_client k = c_last_client c" using arg_cong [OF assms, of c_last_client] by (simp add: iface_view_def)
  show "c_resume_errors k = c_resume_errors c" using arg_cong [OF assms, of c_resume_errors] by (simp add: iface_view_def)
  show "c_ended k = c_ended c" using arg_cong [OF assms, of c_ended] by (simp add: iface_view_def)
  show "map_option ls_session (c_server k) = map_option ls_session (c_server c)"
    using arg_cong [OF assms, of "\<lambda>c. map_option ls_session (c_server c)"] sess by (simp add: iface_view_def)
  show "map_option ls_session (c_client k) = map_option ls_session (c_client c)"
    using arg_cong [OF assms, of "\<lambda>c. map_option ls_session (c_client c)"] sess by (simp add: iface_view_def)
  show "(c_settings k)\<lparr>set_interfaces := []\<rparr> = (c_settings c)\<lparr>set_interfaces := []\<rparr>"
    using arg_cong [OF assms, of c_settings] by (simp add: iface_view_def)
  show "(c_ds k)\<lparr>dm_host := no_host\<rparr> = (c_ds c)\<lparr>dm_host := no_host\<rparr>"
    using arg_cong [OF assms, of c_ds] by (simp add: iface_view_def)
qed

lemma set_ifaces_view [simp]: "iface_view (set_ifaces r l c) = iface_view c"
  by (auto simp: iface_view_def set_ifaces_def option.map_comp comp_def)

lemma set_host_view [simp]: "iface_view (set_host h c) = iface_view c"
  by (simp add: iface_view_def set_host_def)

lemma save_settings_view [simp]: "iface_view (save_settings env c) = iface_view c"
  using save_settings_eq [of env c] by auto

lemma tick_view [simp]: "iface_view (tick c) = iface_view c"
  by (simp add: iface_view_def tick_def)

lemma upd_interfaces_view [simp]: "iface_view (upd_settings env (\<lambda>s. s\<lparr>set_interfaces := f s\<rparr>) c) = iface_view c"
  by (simp add: upd_settings_def) (simp add: iface_view_def)

lemma session_set_ifaces:
  "session c r = Inr s \<Longrightarrow> session (set_ifaces r l c) r = Inr (s\<lparr>ls_ifaces := l\<rparr>)"
  by (auto simp: session_cases set_ifaces_def)

lemma session_frame:
  "c_server d = c_server c \<Longrightarrow> c_client d = c_client c \<Longrightarrow> session d r = session c r"
  by (simp add: session_def)

lemma record_interface_sel [simp]:
  "c_settings (record_interface env d c) =
     (c_settings c)\<lparr>set_interfaces := upsert_interface d (set_interfaces (c_settings c))\<rparr>"
  "c_server (record_interface env d c) = c_server c" "c_client (record_interface env d c) = c_client c"
  "iface_view (record_interface env d c) = iface_view c" "c_clock (record_interface env d c) = c_clock c"
  by (simp_all add: record_interface_def)

text \<open>
  What a successful \<open>add_interface\<close> has done: the list of that session is the one after
  attaching, and the descriptor \<open>d\<close> with the new id replaces or follows the saved ones.
\<close>

definition added :: "ctrl_env \<Rightarrow> interface_descriptor \<Rightarrow> controller \<Rightarrow> controller \<Rightarrow> bool" where
  "added env d c k \<longleftrightarrow> (\<exists>s req name after.
     session c (id_role d) = Inr s
     \<and> after = en_attach (ce_engine env) (c_clock c) req (derive_ifac (id_ifac_name d) (id_ifac_passphrase d)) name (ls_ifaces s)
     \<and> session k (id_role d) = Inr (s\<lparr>ls_ifaces := after\<rparr>)
     \<and> set_interfaces (c_settings k) =
         upsert_interface (d\<lparr>id_id := new_interface_id env (ls_ifaces s) after\<rparr>) (set_interfaces (c_settings c))
     \<and> iface_view k = iface_view c \<and> (\<forall>r. r \<noteq> id_role d \<longrightarrow> session k r = session c r))"

lemma attach_added:
  assumes "session c (id_role d) = Inr s" and "k = attach_and_record env s req name d c"
  shows "added env d c k"
proof -
  let ?ifac = "derive_ifac (id_ifac_name d) (id_ifac_passphrase d)"
  let ?after = "en_attach (ce_engine env) (c_clock c) req ?ifac (if ?ifac = None then None else name) (ls_ifaces s)"
  let ?mid = "set_ifaces (id_role d) ?after (tick c)"
  have k: "k = record_interface env (d\<lparr>id_id := new_interface_id env (ls_ifaces s) ?after\<rparr>) ?mid"
    by (simp add: assms(2) attach_and_record_def Let_def)
  have "session (tick c) (id_role d) = Inr s" using assms(1) session_frame [of "tick c" c] by simp
  from session_set_ifaces [OF this] have "session ?mid (id_role d) = Inr (s\<lparr>ls_ifaces := ?after\<rparr>)" .
  then have "session k (id_role d) = Inr (s\<lparr>ls_ifaces := ?after\<rparr>)"
    using session_frame [of k ?mid] by (simp add: k)
  moreover have "iface_view k = iface_view c" by (simp add: k)
  moreover have "set_interfaces (c_settings k) =
      upsert_interface (d\<lparr>id_id := new_interface_id env (ls_ifaces s) ?after\<rparr>) (set_interfaces (c_settings c))"
    by (simp add: k)
  moreover have "session k r = session c r" if "r \<noteq> id_role d" for r
    using that assms(1) session_frame [of k ?mid r] by (auto simp: k session_def set_ifaces_def split: if_splits)
  ultimately show ?thesis using assms(1) unfolding added_def by blast
qed

text \<open>\<open>add_interface\<close> of any kind, as \<open>resume\<close> calls it for a saved descriptor.\<close>

definition reattach :: "ctrl_env \<Rightarrow> interface_descriptor \<Rightarrow> (unit, controller) st" where
  "reattach env d =
     (let addr = (case id_addr d of Some a \<Rightarrow> a | None \<Rightarrow> []);
          peer = (case id_peer_addr d of Some a \<Rightarrow> a | None \<Rightarrow> []) in
      if id_kind d = ''tcp'' then add_interface_tcp env addr (id_role d) (id_ifac_name d) (id_ifac_passphrase d)
      else if id_kind d = ''auto'' then add_interface_auto env (id_role d) (id_ifac_name d) (id_ifac_passphrase d)
      else if id_kind d = ''udp'' then add_interface_udp env addr peer (id_role d) (id_ifac_name d) (id_ifac_passphrase d)
      else if id_kind d = ''websocket''
      then add_interface_websocket env addr (id_role d) (id_ifac_name d) (id_ifac_passphrase d)
      else io_of (Inl (''unknown interface kind '' @ id_kind d @ '' in settings'')))"

text \<open>The descriptor such a call saves; for one saved by the program itself it is the same but for the id.\<close>

definition as_saved :: "interface_descriptor \<Rightarrow> interface_descriptor" where
  "as_saved d = d\<lparr>id_id := None,
     id_addr := (if id_kind d = ''auto'' then None else Some (case id_addr d of Some a \<Rightarrow> a | None \<Rightarrow> [])),
     id_peer_addr := (if id_kind d = ''udp'' then Some (case id_peer_addr d of Some a \<Rightarrow> a | None \<Rightarrow> []) else None)\<rparr>"

lemma reattach_outcome:
  assumes "reattach env d c = (r, k)"
  shows "(r = Inr () \<longrightarrow> added env (as_saved d) c k) \<and> (r \<noteq> Inr () \<longrightarrow> k = c \<or> k = tick c)"
proof (cases "id_kind d \<in> {''tcp'', ''auto'', ''udp'', ''websocket''}")
  case False
  then show ?thesis using assms by (auto simp: reattach_def Let_def)
next
  case True
  show ?thesis
  proof (cases r)
    case (Inl e)
    have "k = tick c" using assms True Inl
      by (auto simp: reattach_def Let_def add_interface_tcp_def add_interface_auto_def add_interface_udp_def
          add_interface_websocket_def split: if_splits sum.splits)
    then show ?thesis using Inl by simp
  next
    case (Inr u)
    then have "\<exists>s req name. session c (id_role d) = Inr s \<and> k = attach_and_record env s req name (as_saved d) c"
      using assms True
      by (cases d) (auto simp: reattach_def as_saved_def Let_def add_interface_tcp_def add_interface_auto_def add_interface_udp_def
          add_interface_websocket_def rbind_eq_Inr split: if_splits sum.splits)
    moreover have "id_role (as_saved d) = id_role d" by (simp add: as_saved_def)
    ultimately have "added env (as_saved d) c k" using attach_added by metis
    then show ?thesis using Inr by simp
  qed
qed

text \<open>
  Fact: adding an interface saves exactly one descriptor for its endpoint, with the access
  settings of the call, in place of an older one, and leaves every other endpoint alone; an
  interface that could not be added changes neither the saved descriptors nor a session.
\<close>

theorem added_interface_is_saved:
  assumes "reattach env d c = (r, k)"
  shows "(r = Inr () \<longrightarrow> (\<exists>i. by_key endpoint (set_interfaces (c_settings k)) =
        (by_key endpoint (set_interfaces (c_settings c)))(endpoint (as_saved d) \<mapsto> (as_saved d)\<lparr>id_id := i\<rparr>))
      \<and> (distinct (map endpoint (set_interfaces (c_settings c))) \<longrightarrow>
           distinct (map endpoint (set_interfaces (c_settings k)))))
    \<and> (r \<noteq> Inr () \<longrightarrow> c_settings k = c_settings c \<and> c_server k = c_server c \<and> c_client k = c_client c)"
proof (cases "r = Inr ()")
  case True
  then obtain i where "set_interfaces (c_settings k) =
      upsert_interface ((as_saved d)\<lparr>id_id := i\<rparr>) (set_interfaces (c_settings c))"
    using reattach_outcome [OF assms] by (auto simp: added_def)
  moreover have "endpoint ((as_saved d)\<lparr>id_id := i\<rparr>) = endpoint (as_saved d)" by (simp add: endpoint_def)
  ultimately show ?thesis using True ifaces.lookup_put ifaces.distinct_put by metis
next
  case False
  then show ?thesis using reattach_outcome [OF assms] by auto
qed

subsection \<open>Removing\<close>

text \<open>What the \<open>hex\<close> library documents: lower case, and different bytes have different texts.\<close>

definition hex_ok :: "ctrl_env \<Rightarrow> bool" where
  "hex_ok env \<longleftrightarrow> (\<forall>b. to_ascii_lowercase (ce_hex_encode env b) = ce_hex_encode env b)
     \<and> (\<forall>a b. ce_hex_encode env a = ce_hex_encode env b \<longrightarrow> a = b)"

lemma find_by_hex:
  assumes "hex_ok env"
  shows "find_interface_by_hex env s (ce_hex_encode env i) = (if i \<in> if_id ` set (ls_ifaces s) then Some i else None)"
proof -
  have *: "find (\<lambda>x. ce_hex_encode env (if_id x) = ce_hex_encode env i) l = find (\<lambda>x. if_id x = i) l" for l
    using assms by (intro find_cong) (auto simp: hex_ok_def)
  have "map_option if_id (find (\<lambda>x. if_id x = i) l) = (if i \<in> if_id ` set l then Some i else None)" for l
    by (induction l) auto
  moreover have "to_ascii_lowercase (ce_hex_encode env i) = ce_hex_encode env i" using assms by (simp add: hex_ok_def)
  ultimately show ?thesis unfolding find_interface_by_hex_def by (simp only: *)
qed

lemma owning_cases:
  "session_owning_interface env c id_hex =
     (case c_server c of
        Some s \<Rightarrow> if find_interface_by_hex env s id_hex \<noteq> None then Some (''server'', s)
          else (case c_client c of Some t \<Rightarrow> if find_interface_by_hex env t id_hex \<noteq> None then Some (''client'', t) else None
            | None \<Rightarrow> None)
      | None \<Rightarrow> (case c_client c of
          Some t \<Rightarrow> if find_interface_by_hex env t id_hex \<noteq> None then Some (''client'', t) else None | None \<Rightarrow> None))"
  by (simp add: session_owning_interface_def map_filter_simps split: option.split)

lemma remove_interface_settings:
  assumes "remove_interface env id_hex c = (r, d)"
  shows "r = Inr () \<longrightarrow> set_interfaces (c_settings d) =
      filter (keeps_descriptor (to_ascii_lowercase id_hex)) (set_interfaces (c_settings c))"
    and "r \<noteq> Inr () \<longrightarrow> d = c"
  using assms by (auto simp: remove_interface_def split: sum.splits prod.splits)

text \<open>
  Fact: when both sessions have an interface with this id, removing it takes it from the server
  session and leaves the client session as it is, but drops the saved descriptors of both.
  (The engine makes the id of a TCP client interface from its target, so two
  sessions connected to the same target are in this case.)
\<close>

theorem removed_from_server_first:
  assumes "c_server c = Some s" and "c_client c = Some t"
    and "find_interface_by_hex env s id_hex = Some i" and "find_interface_by_hex env t id_hex \<noteq> None"
  shows "\<exists>d. remove_interface env id_hex c = (Inr (), d) \<and> c_client d = Some t
     \<and> c_server d = Some (s\<lparr>ls_ifaces := en_remove (ce_engine env) (c_clock c) i (ls_ifaces s)\<rparr>)
     \<and> (\<forall>x\<in>set (set_interfaces (c_settings d)). x \<in> set (set_interfaces (c_settings c))
          \<and> (\<forall>j. id_id x = Some j \<longrightarrow> \<not> eq_ignore_ascii_case j id_hex))"
proof -
  have "owned_interface env c id_hex = Inr (''server'', s, i)"
    using assms by (simp add: owned_interface_def owning_cases)
  moreover have "eq_ignore_ascii_case j (to_ascii_lowercase id_hex) = eq_ignore_ascii_case j id_hex" for j
    by (simp add: eq_ignore_ascii_case_def)
  ultimately show ?thesis using assms(1,2)
    by (auto simp: remove_interface_def keeps_descriptor_def set_ifaces_def split: option.splits)
qed

text \<open>
  Fact: when attaching brings no new id (the endpoint was attached already), the saved
  descriptor has no id, and no removal of an interface ever drops it: it comes back at the next
  resume.
\<close>

theorem readded_interface_stays_saved:
  assumes "reattach env d c = (Inr (), k)" and "session c (id_role d) = Inr s"
    and "session k (id_role d) = Inr t" and "if_id ` set (ls_ifaces t) \<subseteq> if_id ` set (ls_ifaces s)"
    and "remove_interface env id_hex k = (Inr (), m)"
  shows "as_saved d \<in> set (set_interfaces (c_settings k)) \<and> as_saved d \<in> set (set_interfaces (c_settings m))"
proof -
  have "id_role (as_saved d) = id_role d" by (simp add: as_saved_def)
  moreover have "added env (as_saved d) c k" using reattach_outcome [OF assms(1)] by simp
  ultimately have "set_interfaces (c_settings k) =
      upsert_interface ((as_saved d)\<lparr>id_id := new_interface_id env (ls_ifaces s) (ls_ifaces t)\<rparr>) (set_interfaces (c_settings c))"
    using assms(2,3) by (auto simp: added_def)
  moreover have "new_interface_id env (ls_ifaces s) (ls_ifaces t) = None"
    using assms(4) by (auto simp: new_interface_id_def find_None_iff)
  moreover have "(as_saved d)\<lparr>id_id := None\<rparr> = as_saved d" by (simp add: as_saved_def)
  ultimately have "by_key endpoint (set_interfaces (c_settings k)) (endpoint (as_saved d)) = Some (as_saved d)"
    using ifaces.lookup_put [of "as_saved d"] by simp
  then have k: "as_saved d \<in> set (set_interfaces (c_settings k))" using by_key_Some by fastforce
  moreover have "keeps_descriptor x (as_saved d)" for x by (simp add: keeps_descriptor_def as_saved_def)
  ultimately show ?thesis using remove_interface_settings(1) [OF assms(5)] by simp
qed

lemma set_ifaces_other:
  "session c q = Inr t \<Longrightarrow> r \<noteq> q \<Longrightarrow> session (set_ifaces q l c) r = session c r"
  by (auto simp: session_def set_ifaces_def ok_or_eq_Inr split: if_splits)

lemma listed_id:
  "session c r = Inr t \<Longrightarrow> i \<in> if_id ` set (ls_ifaces t) \<Longrightarrow>
   (ce_hex_encode env i, r) \<in> (\<lambda>x. (ii_id x, ii_role x)) ` set (list_interfaces env c)"
  by (force simp: session_cases list_interfaces_def interface_info_of_def image_iff split: option.splits)

lemma added_id:
  assumes "if_id ` set after = insert i (if_id ` set before)" and "i \<notin> if_id ` set before"
  shows "\<exists>x. find (\<lambda>x. if_id x \<notin> if_id ` set before) after = Some x \<and> if_id x = i"
proof -
  obtain y where "y \<in> set after" "if_id y = i" using assms(1) by (metis imageE insertI1)
  then obtain x where x: "find (\<lambda>x. if_id x \<notin> if_id ` set before) after = Some x"
    using assms(2) by (fastforce simp: find_None_iff intro: that dest: not_None_eq [THEN iffD1])
  have "x \<in> set after" "if_id x \<notin> if_id ` set before" using find_in_set [OF x] by blast+
  then show ?thesis using x assms(1) by blast
qed

text \<open>
  C39: an interface that was added under a new id is listed under its session's role, and removing
  the id listed works: the engine is asked to remove exactly that interface from the session it was added to,
  the other session is left alone, and the saved descriptors are those from before without that
  endpoint, each in its place.
\<close>

theorem add_remove_round_trip:
  assumes "hex_ok env" and "reattach env d c = (Inr (), k)"
    and "session c (id_role d) = Inr s" and "session k (id_role d) = Inr t"
    and "if_id ` set (ls_ifaces t) = insert i (if_id ` set (ls_ifaces s))"
    and "\<forall>r u. session c r = Inr u \<longrightarrow> i \<notin> if_id ` set (ls_ifaces u)"
    and "distinct (map endpoint (set_interfaces (c_settings c)))"
    and "\<forall>x\<in>set (set_interfaces (c_settings c)). keeps_descriptor (ce_hex_encode env i) x"
  shows "(ce_hex_encode env i, id_role d) \<in> (\<lambda>x. (ii_id x, ii_role x)) ` set (list_interfaces env k)
     \<and> (\<exists>m. remove_interface env (ce_hex_encode env i) k = (Inr (), m)
         \<and> session m (id_role d) = Inr (t\<lparr>ls_ifaces := en_remove (ce_engine env) (c_clock k) i (ls_ifaces t)\<rparr>)
         \<and> (\<forall>r. r \<noteq> id_role d \<longrightarrow> session m r = session c r)
         \<and> set_interfaces (c_settings m) =
             filter (\<lambda>x. endpoint x \<noteq> endpoint (as_saved d)) (set_interfaces (c_settings c)))"
proof -
  let ?h = "ce_hex_encode env i"
  let ?e = "(as_saved d)\<lparr>id_id := Some ?h\<rparr>"
  let ?l = "en_remove (ce_engine env) (c_clock k) i (ls_ifaces t)"
  have role: "id_role (as_saved d) = id_role d" by (simp add: as_saved_def)
  have key: "endpoint ?e = endpoint (as_saved d)" by (simp add: endpoint_def)
  have lower: "to_ascii_lowercase ?h = ?h" using assms(1) by (simp add: hex_ok_def)
  have new: "new_interface_id env (ls_ifaces s) (ls_ifaces t) = Some ?h"
    using added_id [OF assms(5)] assms(3,6) by (auto simp: new_interface_id_def)
  have k: "added env (as_saved d) c k" using reattach_outcome [OF assms(2)] by simp
  then have saved: "set_interfaces (c_settings k) = upsert_interface ?e (set_interfaces (c_settings c))"
    using assms(3,4) new by (auto simp: added_def role)
  have other: "session k r = session c r" if "r \<noteq> id_role d" for r
    using k that by (auto simp: added_def role)
  have owner: "owned_interface env k ?h = Inr (id_role d, t, i)"
  proof -
    have "find_interface_by_hex env t ?h = Some i" using find_by_hex [OF assms(1)] assms(5) by simp
    moreover have "c_server k = Some u \<Longrightarrow> id_role d = ''client'' \<Longrightarrow> find_interface_by_hex env u ?h = None" for u
      using find_by_hex [OF assms(1), of u i] other [of "''server''"] assms(6) session_cases [of k "''server''" u] by auto
    ultimately show ?thesis using assms(4)
      by (auto simp: owned_interface_def owning_cases session_cases split: option.split)
  qed
  have keeps: "filter (keeps_descriptor ?h) (set_interfaces (c_settings k)) =
      filter (\<lambda>x. endpoint x \<noteq> endpoint ?e) (set_interfaces (c_settings c))"
  proof -
    have "keeps_descriptor ?h x \<longleftrightarrow> endpoint x \<noteq> endpoint ?e" if "x \<in> set (set_interfaces (c_settings k))" for x
      using ifaces.put_elem [OF assms(7), of x ?e] that assms(8)
      by (auto simp: saved keeps_descriptor_def eq_ignore_ascii_case_def)
    then have "filter (keeps_descriptor ?h) (set_interfaces (c_settings k)) =
        filter (\<lambda>x. endpoint x \<noteq> endpoint ?e) (set_interfaces (c_settings k))"
      by (rule filter_cong [OF refl])
    then show ?thesis using ifaces.filter_put [OF assms(7)] by (simp add: saved)
  qed
  have "session (set_ifaces (id_role d) ?l (tick k)) (id_role d) = Inr (t\<lparr>ls_ifaces := ?l\<rparr>)"
    using session_set_ifaces [of "tick k" "id_role d" t ?l] session_frame [of "tick k" k] assms(4) by simp
  moreover have "session (set_ifaces (id_role d) ?l (tick k)) r = session c r" if "r \<noteq> id_role d" for r
    using set_ifaces_other [OF _ that, of "tick k" t ?l] session_frame [of "tick k" k] assms(4) other [OF that] by simp
  moreover have "session (upd_settings env f (set_ifaces (id_role d) ?l (tick k))) r =
      session (set_ifaces (id_role d) ?l (tick k)) r" for f r
    by (rule session_frame) simp_all
  ultimately show ?thesis using keeps lower key owner listed_id [OF assms(4), of i env] assms(5)
    by (simp add: remove_interface_def)
qed

end
