(* ===== verification/Resume.thy ===== *)
theory Resume
  imports Interfaces
begin

text \<open>
  What the controller does at boot and what it shows: \<open>resume\<close> and \<open>state\<close>
  (\<open>controller/src/controller.rs\<close>).
\<close>

text \<open>An attempt whose failure is recorded and passed over.\<close>

definition attempt :: "string \<Rightarrow> (unit, controller) st \<Rightarrow> controller \<Rightarrow> controller" where
  "attempt what m c =
     (case m c of
        (Inr _, d) \<Rightarrow> d
      | (Inl e, d) \<Rightarrow> d\<lparr>c_resume_errors := c_resume_errors d @ [what @ '': '' @ e]\<rparr>)"

definition attempt_if :: "bool \<Rightarrow> 'a option \<Rightarrow> string \<Rightarrow> ('a \<Rightarrow> (unit, controller) st) \<Rightarrow> controller \<Rightarrow> controller" where
  "attempt_if wanted args what f c =
     (if wanted then (case args of Some a \<Rightarrow> attempt what (f a) c | None \<Rightarrow> c) else c)"

definition resume_dedup :: "ctrl_env \<Rightarrow> controller \<Rightarrow> controller" where
  "resume_dedup env c =
     (case dedup_interfaces (set_interfaces (c_settings c)) of (changed, kept) \<Rightarrow>
        if changed then upd_settings env (\<lambda>s. s\<lparr>set_interfaces := kept\<rparr>) c
        else c\<lparr>c_settings := (c_settings c)\<lparr>set_interfaces := kept\<rparr>\<rparr>)"

definition resume_interface :: "ctrl_env \<Rightarrow> interface_descriptor \<Rightarrow> controller \<Rightarrow> controller" where
  "resume_interface env d = attempt (''interface '' @ show_debug (addr_or_kind d)) (reattach env d)"

text \<open>
  The bridge sessions first, each with its chance, then the interfaces, which attach to one or
  the other, then the dedicated server.  The settings looked at are those before the first start.
\<close>

definition resume_bridge :: "ctrl_env \<Rightarrow> controller \<Rightarrow> controller" where
  "resume_bridge env c =
     (let s = c_settings c;
          c = attempt_if (set_bridge_running s) (set_bridge s) ''bridge server'' (start_bridge_server env) c
      in attempt_if (set_client_running s) (set_client s) ''bridge client'' (start_client_session env) c)"

definition resume_rest :: "ctrl_env \<Rightarrow> settings \<Rightarrow> controller \<Rightarrow> controller" where
  "resume_rest env s c =
     attempt_if (set_ds_running s) (set_ds s) ''dedicated server'' (ds_start_ctl env)
       (fold (resume_interface env) (set_interfaces s) c)"

definition resume :: "ctrl_env \<Rightarrow> controller \<Rightarrow> controller" where
  "resume env c =
     (let c = resume_dedup env (c\<lparr>c_resume_errors := []\<rparr>); s = c_settings c
      in resume_rest env s (resume_bridge env c))"

subsection \<open>The snapshot\<close>

record controller_state =
  cs_bridge_running :: bool
  cs_bridge_role :: "string option"
  cs_server_running :: bool
  cs_client_running :: bool
  cs_server_hash :: "string option"
  cs_client_hash :: "string option"
  cs_server_config :: "server_args option"
  cs_client_config :: "client_args option"
  cs_ds :: ds_status
  cs_servers :: "server_entry list"
  cs_interfaces :: "interface_info list"
  cs_connected_clients :: "string list"
  cs_resume_errors :: "string list"

definition bridge_role_text :: "bool \<Rightarrow> bool \<Rightarrow> string option" where
  "bridge_role_text server client =
     (if server \<and> client then Some ''Server + Client''
      else if server then Some ''Server'' else if client then Some ''Client'' else None)"

definition shown_hash :: "ctrl_env \<Rightarrow> live_session option \<Rightarrow> string option" where
  "shown_hash env s = Option.bind s (\<lambda>s. map_option (ce_hex_encode env) (bs_own_hash (ls_session s)))"

definition state_of :: "ctrl_env \<Rightarrow> controller \<Rightarrow> controller_state \<times> controller" where
  "state_of env c =
     (let server_running = (c_server c \<noteq> None); client_running = (c_client c \<noteq> None) in
      case ds_status_ctl env c of (ds, d) \<Rightarrow>
        (\<lparr>cs_bridge_running = server_running \<or> client_running,
          cs_bridge_role = bridge_role_text server_running client_running,
          cs_server_running = server_running, cs_client_running = client_running,
          cs_server_hash = shown_hash env (c_server c), cs_client_hash = shown_hash env (c_client c),
          cs_server_config = c_last_server c, cs_client_config = c_last_client c, cs_ds = ds,
          cs_servers = list_servers env c, cs_interfaces = list_interfaces env c,
          cs_connected_clients = list_connected_clients env c, cs_resume_errors = c_resume_errors c\<rparr>, d))"

subsection \<open>What a resume leaves\<close>

text \<open>What the steps for one side leave of the other: its session, its arguments and its flag.\<close>

definition srv_view ::
  "controller \<Rightarrow> bridge_session option \<times> server_args option \<times> server_args option \<times> bool" where
  "srv_view c = (map_option ls_session (c_server c), c_last_server c,
     set_bridge (c_settings c), set_bridge_running (c_settings c))"

definition cli_view ::
  "controller \<Rightarrow> bridge_session option \<times> client_args option \<times> client_args option \<times> bool" where
  "cli_view c = (map_option ls_session (c_client c), c_last_client c,
     set_client (c_settings c), set_client_running (c_settings c))"

text \<open>The frame of an attempt: errors may be added, nothing else of the view changes.\<close>

definition framed :: "(controller \<Rightarrow> 'v) \<Rightarrow> controller \<Rightarrow> controller \<Rightarrow> bool" where
  "framed V c d \<longleftrightarrow> V d = V c \<and> prefix (c_resume_errors c) (c_resume_errors d)"

lemma framed_refl: "framed V c c" by (simp add: framed_def)

lemma framed_trans: "framed V a b \<Longrightarrow> framed V b c \<Longrightarrow> framed V a c"
  by (auto simp: framed_def intro: prefix_order.trans)

definition ignores_errors :: "(controller \<Rightarrow> 'v) \<Rightarrow> bool" where
  "ignores_errors V \<longleftrightarrow> (\<forall>c e. V (c\<lparr>c_resume_errors := e\<rparr>) = V c)"

lemma views_ignore_errors [simp]:
  "ignores_errors srv_view" "ignores_errors cli_view" "ignores_errors (\<lambda>c. set_interfaces (c_settings c))"
  by (simp_all add: ignores_errors_def srv_view_def cli_view_def)

lemma attempt_frame:
  assumes "ignores_errors V" and "framed V c (snd (m c))"
  shows "framed V c (attempt what m c)"
  using assms by (auto simp: attempt_def framed_def ignores_errors_def split: prod.splits sum.splits intro: prefix_prefix)

lemma attempt_if_frame:
  assumes "ignores_errors V" and "\<And>a. framed V c (snd (f a c))"
  shows "framed V c (attempt_if w args what f c)"
  using attempt_frame [OF assms(1), of c] assms(2) by (auto simp: attempt_if_def framed_refl split: option.split)

lemma fold_frame:
  assumes "\<And>c d. d \<in> set l \<Longrightarrow> framed V c (f d c)"
  shows "framed V c (fold f l c)"
  using assms
proof (induction l arbitrary: c)
  case (Cons d l)
  have "framed V c (f d c)" using Cons.prems by simp
  moreover have "framed V (f d c) (fold f l (f d c))" using Cons.IH Cons.prems by simp
  ultimately show ?case using framed_trans by fastforce
qed (simp add: framed_refl)

lemma start_frames:
  "framed cli_view c (snd (start_bridge_server env a c))" "framed srv_view c (snd (start_client_session env b c))"
  "framed srv_view c (snd (ds_start_ctl env ds c))" "framed cli_view c (snd (ds_start_ctl env ds c))"
  "framed (\<lambda>c. set_interfaces (c_settings c)) c (snd (start_bridge_server env a c))"
  "framed (\<lambda>c. set_interfaces (c_settings c)) c (snd (start_client_session env b c))"
  "framed (\<lambda>c. set_interfaces (c_settings c)) c (snd (ds_start_ctl env ds c))"
  by (auto simp: framed_def srv_view_def cli_view_def start_bridge_server_def start_client_session_def ds_start_ctl_def
      split: prod.splits sum.splits)

lemma settings_fields:
  assumes "s\<lparr>set_interfaces := []\<rparr> = t\<lparr>set_interfaces := []\<rparr>"
  shows "set_bridge s = set_bridge t" "set_bridge_running s = set_bridge_running t" "set_client s = set_client t"
    "set_client_running s = set_client_running t" "set_ds s = set_ds t" "set_ds_running s = set_ds_running t"
  using arg_cong [OF assms, of set_bridge] arg_cong [OF assms, of set_bridge_running]
    arg_cong [OF assms, of set_client] arg_cong [OF assms, of set_client_running]
    arg_cong [OF assms, of set_ds] arg_cong [OF assms, of set_ds_running]
  by simp_all

lemma iface_view_views:
  assumes "iface_view k = iface_view c"
  shows "srv_view k = srv_view c" "cli_view k = cli_view c"
  using iface_viewD [OF assms] settings_fields [OF iface_viewD(8) [OF assms]]
  by (simp_all add: srv_view_def cli_view_def)

lemma reattach_view: "iface_view (snd (reattach env d c)) = iface_view c"
proof -
  obtain r k where k: "reattach env d c = (r, k)" by fastforce
  then show ?thesis using reattach_outcome [OF k] by (cases "r = Inr ()") (auto simp: added_def)
qed

lemma resume_interface_frame: "framed srv_view c (resume_interface env d c)" "framed cli_view c (resume_interface env d c)"
proof -
  have "framed srv_view c (snd (reattach env d c))" "framed cli_view c (snd (reattach env d c))"
    by (simp_all add: framed_def iface_view_views [OF reattach_view] iface_viewD(4) [OF reattach_view])
  then show "framed srv_view c (resume_interface env d c)" "framed cli_view c (resume_interface env d c)"
    by (simp_all add: resume_interface_def attempt_frame)
qed

text \<open>The attempt for the side itself: a session slot whose state is that of the controller.\<close>

locale resumed_slot = session_slot start stop restart up last_args saved wanted
  for start :: "'a \<Rightarrow> (unit, controller) st" and stop restart up last_args saved wanted +
  assumes errors_apart: "up (c\<lparr>c_resume_errors := e\<rparr>) = up c" "saved (c\<lparr>c_resume_errors := e\<rparr>) = saved c"
      "wanted (c\<lparr>c_resume_errors := e\<rparr>) = wanted c" "last_args (c\<lparr>c_resume_errors := e\<rparr>) = last_args c"
begin

text \<open>Started with the saved arguments, or down with the reason recorded; the flag stays as it was.\<close>

definition resumed :: "string \<Rightarrow> controller \<Rightarrow> controller \<Rightarrow> bool" where
  "resumed what c d \<longleftrightarrow> saved d = saved c \<and> wanted d = wanted c
     \<and> (case (if wanted c then saved c else None) of
          None \<Rightarrow> \<not> up d
        | Some a \<Rightarrow> up d \<and> last_args d = Some a \<or> \<not> up d \<and> (\<exists>e. what @ '': '' @ e \<in> set (c_resume_errors d)))"

lemma attempt_resumed:
  assumes "\<not> up c"
  shows "resumed what c (attempt_if (wanted c) (saved c) what start c)"
proof (cases "if wanted c then saved c else None")
  case None
  then show ?thesis using assms by (auto simp: resumed_def attempt_if_def split: if_splits)
next
  case (Some a)
  then have a: "wanted c" "saved c = Some a" by (auto split: if_splits)
  obtain r k where k: "start a c = (r, k)" by fastforce
  have d: "attempt_if (wanted c) (saved c) what start c = attempt what (start a) c" by (simp add: attempt_if_def a)
  show ?thesis
  proof (cases r)
    case (Inl e)
    then show ?thesis using start_fails [of a c e k] k assms a
      unfolding d by (auto simp: resumed_def attempt_def errors_apart)
  next
    case (Inr u)
    then show ?thesis using start_ok [of a c u k] k a
      unfolding d by (auto simp: resumed_def attempt_def)
  qed
qed

end

interpretation rsrv: resumed_slot "start_bridge_server env" "stop_bridge_server env" "restart_bridge_server env"
  server_up c_last_server "\<lambda>c. set_bridge (c_settings c)" "\<lambda>c. set_bridge_running (c_settings c)"
  by unfold_locales (simp_all add: server_up_def)

interpretation rcli: resumed_slot "start_client_session env" "stop_client env" "restart_client env"
  client_up c_last_client "\<lambda>c. set_client (c_settings c)" "\<lambda>c. set_client_running (c_settings c)"
  by unfold_locales (simp_all add: client_up_def)

lemma resumed_server_frame:
  "rsrv.resumed what c d \<Longrightarrow> framed srv_view d e \<Longrightarrow> rsrv.resumed what c e"
  by (auto simp: rsrv.resumed_def framed_def srv_view_def server_up_def dest: set_mono_prefix split: option.splits)

lemma resumed_client_frame:
  "cli_view c = cli_view b \<Longrightarrow> rcli.resumed what c d \<Longrightarrow> framed cli_view d e \<Longrightarrow> rcli.resumed what b e"
  by (auto simp: rcli.resumed_def framed_def cli_view_def client_up_def dest: set_mono_prefix split: option.splits)

subsection \<open>The saved interfaces over a resume\<close>

text \<open>A descriptor as the program itself saves it.\<close>

definition own_descriptor :: "interface_descriptor \<Rightarrow> bool" where
  "own_descriptor d \<longleftrightarrow> endpoint (as_saved d) = endpoint d"

lemma resume_interface_saved:
  "(own_descriptor d \<longrightarrow> endpoint d \<in> endpoint ` set (set_interfaces (c_settings c)) \<longrightarrow>
      endpoint ` set (set_interfaces (c_settings (resume_interface env d c))) = endpoint ` set (set_interfaces (c_settings c)))
   \<and> (distinct (map endpoint (set_interfaces (c_settings c))) \<longrightarrow>
      distinct (map endpoint (set_interfaces (c_settings (resume_interface env d c)))))"
proof -
  obtain r k where k: "reattach env d c = (r, k)" by fastforce
  have l: "set_interfaces (c_settings (resume_interface env d c)) = set_interfaces (c_settings k)"
    using k by (auto simp: resume_interface_def attempt_def split: sum.split)
  show ?thesis
  proof (cases "r = Inr ()")
    case True
    then obtain i where i: "set_interfaces (c_settings k) =
        upsert_interface ((as_saved d)\<lparr>id_id := i\<rparr>) (set_interfaces (c_settings c))"
      using reattach_outcome [OF k] by (auto simp: added_def)
    have "endpoint ((as_saved d)\<lparr>id_id := i\<rparr>) = endpoint (as_saved d)" by (simp add: endpoint_def)
    then show ?thesis unfolding l i ifaces.keyset_put own_descriptor_def
      by (simp add: insert_absorb ifaces.distinct_put)
  next
    case False
    then show ?thesis using reattach_outcome [OF k] l by auto
  qed
qed

lemma resume_interfaces_saved:
  assumes "\<forall>d\<in>set l. endpoint d \<in> endpoint ` set (set_interfaces (c_settings c))"
  shows "((\<forall>d\<in>set l. own_descriptor d) \<longrightarrow>
      endpoint ` set (set_interfaces (c_settings (fold (resume_interface env) l c))) = endpoint ` set (set_interfaces (c_settings c)))
   \<and> (distinct (map endpoint (set_interfaces (c_settings c))) \<longrightarrow>
      distinct (map endpoint (set_interfaces (c_settings (fold (resume_interface env) l c)))))"
  using assms
proof (induction l arbitrary: c)
  case (Cons d l)
  note one = resume_interface_saved [of d c env]
  have rest: "\<forall>x\<in>set l. endpoint x \<in> endpoint ` set (set_interfaces (c_settings (resume_interface env d c)))"
    if "own_descriptor d" using one that Cons.prems by auto
  show ?case
  proof (cases "own_descriptor d")
    case True
    then show ?thesis using one Cons.IH [OF rest [OF True]] Cons.prems by auto
  next
    case False
    have "distinct (map endpoint (set_interfaces (c_settings c))) \<Longrightarrow>
        distinct (map endpoint (set_interfaces (c_settings (fold (resume_interface env) m c))))" for m c
      by (induction m arbitrary: c) (use resume_interface_saved in auto)
    then show ?thesis using False one by simp
  qed
qed simp

lemma resume_dedup_eq:
  "srv_view (resume_dedup env c) = srv_view c" "cli_view (resume_dedup env c) = cli_view c"
  "c_server (resume_dedup env c) = c_server c" "c_client (resume_dedup env c) = c_client c"
  "set_ds (c_settings (resume_dedup env c)) = set_ds (c_settings c)"
  "set_ds_running (c_settings (resume_dedup env c)) = set_ds_running (c_settings c)"
  "set_interfaces (c_settings (resume_dedup env c)) = snd (dedup_interfaces (set_interfaces (c_settings c)))"
  "c_resume_errors (resume_dedup env c) = c_resume_errors c"
  by (simp_all add: resume_dedup_def srv_view_def cli_view_def split: prod.split)

lemma dedup_endpoints:
  "distinct (map endpoint (snd (dedup_interfaces l)))"
  "endpoint ` set (snd (dedup_interfaces l)) = endpoint ` set l" "set (snd (dedup_interfaces l)) \<subseteq> set l"
proof -
  show d: "distinct (map endpoint (snd (dedup_interfaces l)))"
    unfolding dedup_eq snd_conv by (rule ifaces.distinct_put_all) simp
  show "endpoint ` set (snd (dedup_interfaces l)) = endpoint ` set l"
    unfolding dedup_eq snd_conv ifaces.keyset_put_all by simp
  have "x \<in> set l" if "x \<in> set (snd (dedup_interfaces l))" for x
  proof -
    have "by_key endpoint (snd (dedup_interfaces l)) (endpoint x) = Some x" using by_key_distinct [OF d that] .
    then have "by_key endpoint (rev l) (endpoint x) = Some x" by (simp add: dedup_eq ifaces.put_all_set)
    then show ?thesis using by_key_Some [of endpoint "rev l"] by simp
  qed
  then show "set (snd (dedup_interfaces l)) \<subseteq> set l" by blast
qed

lemma resume_bridge_sides:
  assumes "c_server c = None" and "c_client c = None"
  shows "rsrv.resumed ''bridge server'' c (resume_bridge env c)"
    and "rcli.resumed ''bridge client'' c (resume_bridge env c)"
    and "set_interfaces (c_settings (resume_bridge env c)) = set_interfaces (c_settings c)"
proof -
  let ?s = "c_settings c"
  let ?m = "attempt_if (set_bridge_running ?s) (set_bridge ?s) ''bridge server'' (start_bridge_server env) c"
  let ?d = "attempt_if (set_client_running ?s) (set_client ?s) ''bridge client'' (start_client_session env) ?m"
  have d: "resume_bridge env c = ?d" by (simp add: resume_bridge_def Let_def)
  have cli: "framed cli_view c ?m" and srv: "framed srv_view ?m ?d" by (intro attempt_if_frame start_frames; simp)+
  have m: "rsrv.resumed ''bridge server'' c ?m" using rsrv.attempt_resumed assms(1) by (simp add: server_up_def)
  show "rsrv.resumed ''bridge server'' c (resume_bridge env c)" unfolding d using resumed_server_frame [OF m srv] .
  have v: "cli_view ?m = cli_view c" using cli by (simp add: framed_def)
  then have "\<not> client_up ?m" "set_client_running ?s = set_client_running (c_settings ?m)"
    "set_client ?s = set_client (c_settings ?m)"
    using assms(2) by (simp_all add: cli_view_def client_up_def)
  then have "rcli.resumed ''bridge client'' ?m ?d" using rcli.attempt_resumed [of ?m _ env] by simp
  then show "rcli.resumed ''bridge client'' c (resume_bridge env c)"
    unfolding d using resumed_client_frame [OF v _ framed_refl] by blast
  have "framed (\<lambda>c. set_interfaces (c_settings c)) c ?m" "framed (\<lambda>c. set_interfaces (c_settings c)) ?m ?d"
    by (intro attempt_if_frame start_frames; simp)+
  then show "set_interfaces (c_settings (resume_bridge env c)) = set_interfaces (c_settings c)"
    by (simp add: d framed_def)
qed

lemma resume_rest_frame: "framed srv_view c (resume_rest env s c)" "framed cli_view c (resume_rest env s c)"
  unfolding resume_rest_def
  by (rule framed_trans [OF fold_frame attempt_if_frame], rule resume_interface_frame, simp, rule start_frames)+

lemma resume_rest_interfaces:
  assumes "set_interfaces s = set_interfaces (c_settings c)"
  shows "(list_all own_descriptor (set_interfaces s) \<longrightarrow>
      endpoint ` set (set_interfaces (c_settings (resume_rest env s c))) = endpoint ` set (set_interfaces s))
   \<and> (distinct (map endpoint (set_interfaces s)) \<longrightarrow>
      distinct (map endpoint (set_interfaces (c_settings (resume_rest env s c)))))"
proof -
  let ?m = "fold (resume_interface env) (set_interfaces s) c"
  have "framed (\<lambda>c. set_interfaces (c_settings c)) ?m (resume_rest env s c)"
    unfolding resume_rest_def by (intro attempt_if_frame start_frames) simp
  then show ?thesis
    using resume_interfaces_saved [of "set_interfaces s" c env] by (simp add: framed_def list_all_iff assms)
qed

lemma resume_sides:
  assumes "c_server c = None" and "c_client c = None"
  shows "rsrv.resumed ''bridge server'' c (resume env c)" and "rcli.resumed ''bridge client'' c (resume env c)"
proof -
  let ?b = "resume_dedup env (c\<lparr>c_resume_errors := []\<rparr>)"
  have d: "resume env c = resume_rest env (c_settings ?b) (resume_bridge env ?b)" by (simp add: resume_def Let_def)
  have b: "c_server ?b = None" "c_client ?b = None" by (simp_all add: assms resume_dedup_eq)
  have v: "srv_view ?b = srv_view c" "cli_view ?b = cli_view c"
    using resume_dedup_eq(1,2) by (simp_all add: srv_view_def cli_view_def)
  have same: "set_bridge (c_settings ?b) = set_bridge (c_settings c)"
    "set_bridge_running (c_settings ?b) = set_bridge_running (c_settings c)"
    using v(1) by (simp_all add: srv_view_def)
  have "rsrv.resumed ''bridge server'' ?b (resume env c)"
    unfolding d by (rule resumed_server_frame [OF resume_bridge_sides(1) [OF b] resume_rest_frame(1)])
  then show "rsrv.resumed ''bridge server'' c (resume env c)" unfolding rsrv.resumed_def same .
  show "rcli.resumed ''bridge client'' c (resume env c)"
    unfolding d by (rule resumed_client_frame [OF v(2) resume_bridge_sides(2) [OF b] resume_rest_frame(2)])
qed

text \<open>
  C18: a resume of a controller without sessions starts each side that was running, with its saved
  arguments, or records why not and leaves it down; a side that was not running stays down.
  Either way the flags keep saying what should run, so that the next boot tries again.  No
  endpoint is saved twice afterwards, and the endpoints the program saved are all still there.
\<close>

theorem resume_outcome:
  fixes env :: ctrl_env and c :: controller
  assumes "c_server c = None" and "c_client c = None"
  defines "d \<equiv> resume env c" and "s \<equiv> c_settings c" and "t \<equiv> c_settings (resume env c)"
  shows "(case (if set_bridge_running s then set_bridge s else None) of
        None \<Rightarrow> c_server d = None
      | Some a \<Rightarrow> c_server d \<noteq> None \<and> c_last_server d = Some a
          \<or> c_server d = None \<and> (\<exists>e. ''bridge server: '' @ e \<in> set (c_resume_errors d)))
    \<and> (case (if set_client_running s then set_client s else None) of
        None \<Rightarrow> c_client d = None
      | Some a \<Rightarrow> c_client d \<noteq> None \<and> c_last_client d = Some a
          \<or> c_client d = None \<and> (\<exists>e. ''bridge client: '' @ e \<in> set (c_resume_errors d)))
    \<and> set_bridge t = set_bridge s \<and> set_bridge_running t = set_bridge_running s
    \<and> set_client t = set_client s \<and> set_client_running t = set_client_running s
    \<and> distinct (map endpoint (set_interfaces t))
    \<and> (list_all own_descriptor (set_interfaces s) \<longrightarrow>
         endpoint ` set (set_interfaces t) = endpoint ` set (set_interfaces s))"
proof -
  let ?b = "resume_dedup env (c\<lparr>c_resume_errors := []\<rparr>)"
  have d: "d = resume_rest env (c_settings ?b) (resume_bridge env ?b)" by (simp add: d_def resume_def Let_def)
  have t: "t = c_settings d" by (simp add: t_def d_def)
  have b: "c_server ?b = None" "c_client ?b = None" by (simp_all add: assms resume_dedup_eq)
  have srv: "rsrv.resumed ''bridge server'' c d" and cli: "rcli.resumed ''bridge client'' c d"
    unfolding d_def by (rule resume_sides [OF assms(1,2)])+
  have i: "set_interfaces (c_settings ?b) = snd (dedup_interfaces (set_interfaces s))"
    by (simp add: resume_dedup_eq s_def)
  note rest = resume_rest_interfaces [OF resume_bridge_sides(3) [OF b, of env, symmetric], of env, folded d, folded t, unfolded i]
  note dd = dedup_endpoints [of "set_interfaces s"]
  have "list_all own_descriptor (set_interfaces s) \<Longrightarrow> list_all own_descriptor (snd (dedup_interfaces (set_interfaces s)))"
    using dd(3) unfolding list_all_iff by blast
  then have inv: "distinct (map endpoint (set_interfaces t))"
    "list_all own_descriptor (set_interfaces s) \<longrightarrow> endpoint ` set (set_interfaces t) = endpoint ` set (set_interfaces s)"
    using rest dd(1,2) by metis+
  have str: "''bridge server: '' @ e = ''bridge server'' @ '': '' @ e"
    "''bridge client: '' @ e = ''bridge client'' @ '': '' @ e" for e
    by simp_all
  show ?thesis
    using srv cli inv unfolding rsrv.resumed_def rcli.resumed_def s_def [symmetric] server_up_def client_up_def not_not t str by blast
qed

end
