(* ===== verification/Gui_Shell.thy ===== *)
theory Gui_Shell
  imports Resume
begin

text \<open>
  The desktop shell (\<open>gui/src-tauri/src/lib.rs\<close>): the commands the frontend can invoke,
  each one controller method under the controller's mutex, and the choice of the bundle
  directory.  How Tauri decodes the arguments of a call is not part of the repository: a call
  arrives with its arguments.
\<close>

datatype tauri_command =
  StartBridgeServer string u16 "string option" bool u64 "string option"
| AnnounceNow
| StopBridgeServer
| RestartBridgeServer
| StartClient u16 "string option" "string option" bool
| StopClient
| RestartClient
| ListServers
| ListInterfaces
| AddInterfaceTcp string string "string option" "string option"
| AddInterfaceAuto string "string option" "string option"
| AddInterfaceUdp string string string "string option" "string option"
| AddInterfaceWebsocket string string "string option" "string option"
| RemoveInterface string
| RenameInterface string string
| DsStart u16 u32 string "string option" "bool option"
| DsStop
| DsStatus
| DsQuery
| DsChangelevel string
| DsSetCheats bool
| DsListMaps
| ConnectAndLaunch string
| TracePath string string
| GetState

datatype reply =
  Done
| Servers "server_entry list"
| InterfaceRows "interface_info list"
| DsStatusRow ds_status
| Stats a2s_stats
| Maps "string list"
| Trace path_trace_result
| Snapshot controller_state

definition returns :: "('a \<Rightarrow> reply) \<Rightarrow> ('a, controller) st \<Rightarrow> (reply, controller) st" where
  "returns f m = io_bind m (\<lambda>x. io_ret (f x))"

text \<open>Methods that cannot fail.\<close>

definition shows_state :: "('a \<Rightarrow> reply) \<Rightarrow> (controller \<Rightarrow> 'a \<times> controller) \<Rightarrow> (reply, controller) st" where
  "shows_state f m c = (case m c of (x, d) \<Rightarrow> (Inr (f x), d))"

definition gui_server_args ::
  "path \<Rightarrow> string \<Rightarrow> u16 \<Rightarrow> string option \<Rightarrow> bool \<Rightarrow> u64 \<Rightarrow> string option \<Rightarrow> server_args" where
  "gui_server_args bundle host port tcp auto interval name =
     \<lparr>sc_port = port, sc_host = host, sa_identity = path_join bundle ''server.identity'', sa_tcp = tcp,
      sa_auto = auto, announce_interval = interval, sa_name = name\<rparr>"

definition gui_client_args :: "path \<Rightarrow> u16 \<Rightarrow> string option \<Rightarrow> string option \<Rightarrow> bool \<Rightarrow> client_args" where
  "gui_client_args bundle port hash tcp auto =
     \<lparr>listen_port = port, server_hash = hash, ca_identity = path_join bundle ''client.identity'',
      ca_tcp = tcp, ca_auto = auto\<rparr>"

definition gui_ds_args :: "u16 \<Rightarrow> u32 \<Rightarrow> string \<Rightarrow> string option \<Rightarrow> bool option \<Rightarrow> ds_start_args" where
  "gui_ds_args port maxplayers m install_dir sv_cheats =
     \<lparr>da_port = port, da_maxplayers = maxplayers, da_map = m, da_install_dir = install_dir,
      da_sv_cheats = (case sv_cheats of Some b \<Rightarrow> b | None \<Rightarrow> False)\<rparr>"

fun invoke :: "ctrl_env \<Rightarrow> path \<Rightarrow> tauri_command \<Rightarrow> (reply, controller) st" where
  "invoke env bundle (StartBridgeServer host port tcp auto interval name) =
     returns (\<lambda>_. Done) (start_bridge_server env (gui_server_args bundle host port tcp auto interval name))"
| "invoke env bundle AnnounceNow = returns (\<lambda>_. Done) (announce_now_ctl env)"
| "invoke env bundle StopBridgeServer = returns (\<lambda>_. Done) (stop_bridge_server env)"
| "invoke env bundle RestartBridgeServer = returns (\<lambda>_. Done) (restart_bridge_server env)"
| "invoke env bundle (StartClient port hash tcp auto) =
     returns (\<lambda>_. Done) (start_client_session env (gui_client_args bundle port hash tcp auto))"
| "invoke env bundle StopClient = returns (\<lambda>_. Done) (stop_client env)"
| "invoke env bundle RestartClient = returns (\<lambda>_. Done) (restart_client env)"
| "invoke env bundle ListServers = shows_state Servers (\<lambda>c. (list_servers env c, c))"
| "invoke env bundle ListInterfaces = shows_state InterfaceRows (\<lambda>c. (list_interfaces env c, c))"
| "invoke env bundle (AddInterfaceTcp addr r n p) = returns (\<lambda>_. Done) (add_interface_tcp env addr r n p)"
| "invoke env bundle (AddInterfaceAuto r n p) = returns (\<lambda>_. Done) (add_interface_auto env r n p)"
| "invoke env bundle (AddInterfaceUdp local peer r n p) = returns (\<lambda>_. Done) (add_interface_udp env local peer r n p)"
| "invoke env bundle (AddInterfaceWebsocket addr r n p) = returns (\<lambda>_. Done) (add_interface_websocket env addr r n p)"
| "invoke env bundle (RemoveInterface i) = returns (\<lambda>_. Done) (remove_interface env i)"
| "invoke env bundle (RenameInterface i name) = returns (\<lambda>_. Done) (rename_interface env i name)"
| "invoke env bundle (DsStart port maxplayers m install_dir sv_cheats) =
     returns (\<lambda>_. Done) (ds_start_ctl env (gui_ds_args port maxplayers m install_dir sv_cheats))"
| "invoke env bundle DsStop = returns (\<lambda>_. Done) (ds_stop_ctl env)"
| "invoke env bundle DsStatus = shows_state DsStatusRow (ds_status_ctl env)"
| "invoke env bundle DsQuery = returns Stats (ds_query env)"
| "invoke env bundle (DsChangelevel m) = returns (\<lambda>_. Done) (ds_changelevel env m)"
| "invoke env bundle (DsSetCheats b) = returns (\<lambda>_. Done) (ds_set_cheats env b)"
| "invoke env bundle DsListMaps = shows_state Maps (ds_list_maps_ctl env)"
| "invoke env bundle (ConnectAndLaunch hash) = returns (\<lambda>_. Done) (connect_and_launch env hash)"
| "invoke env bundle (TracePath r hash) = returns Trace (trace_path env r hash)"
| "invoke env bundle GetState = shows_state Snapshot (state_of env)"

subsection \<open>The bundle directory\<close>

record gui_env =
  ge_current_exe :: "path result"
  ge_app_data_dir :: "path result"
  ge_current_dir :: "path result"

definition PORTABLE_DIR_NAME :: string where "PORTABLE_DIR_NAME = ''sc-rns-data''"

text \<open>The directory of the AppImage file if there is one, else that of the executable.\<close>

definition portable_candidate :: "host_env \<Rightarrow> gui_env \<Rightarrow> path option" where
  "portable_candidate env ge =
     Option.bind (ok_opt (ge_current_exe ge)) (\<lambda>exe.
     Option.bind (path_parent exe) (\<lambda>exe_dir.
       case Option.bind (he_var env ''APPIMAGE'') (\<lambda>a. if a = [] then None else path_parent a) of
         Some d \<Rightarrow> Some (path_join d PORTABLE_DIR_NAME)
       | None \<Rightarrow> Some (path_join exe_dir PORTABLE_DIR_NAME)))"

definition PORTABLE_TEXT :: string where
  "PORTABLE_TEXT = ''Sven Co-op over Reticulum '' @ [CHR 0xE2, CHR 0x80, CHR 0x94]
     @ '' portable data folder.'' @ LF @ ''This folder holds settings.json, RNS identities, the'' @ LF
     @ ''steamcmd bootstrap, and the pulled Sven Co-op dedicated'' @ LF
     @ ''server (~2.74 GB). Keep it with the executable.'' @ LF"

text \<open>The marker file is written once; whether that works does not matter.\<close>

definition drop_marker :: "host_env \<Rightarrow> path \<Rightarrow> unit io" where
  "drop_marker env portable =
     (let marker = path_join portable ''PORTABLE.txt'' in
      io_bind (fs_exists env marker) (\<lambda>there.
        if there then io_ret ()
        else io_bind (io_try (fs_write env marker (bytes_of PORTABLE_TEXT))) (\<lambda>_. io_ret ())))"

definition fallback_dir :: "gui_env \<Rightarrow> path" where
  "fallback_dir ge = (case ge_app_data_dir ge of Inr d \<Rightarrow> d | Inl _ \<Rightarrow> unwrap_or [] (ge_current_dir ge))"

definition resolve_bundle_dir :: "host_env \<Rightarrow> gui_env \<Rightarrow> path io" where
  "resolve_bundle_dir env ge =
     (case portable_candidate env ge of
        None \<Rightarrow> io_ret (fallback_dir ge)
      | Some portable \<Rightarrow>
          io_bind (fs_exists env portable) (\<lambda>there.
          if there then io_ret portable
          else io_bind (io_try (fs_create_dir_all env portable)) (\<lambda>r.
            if is_ok r then io_bind (drop_marker env portable) (\<lambda>_. io_ret portable)
            else io_ret (fallback_dir ge))))"

text \<open>The setup of the application: a controller, which is not told to resume.\<close>

definition gui_setup :: "ctrl_env \<Rightarrow> gui_env \<Rightarrow> host \<Rightarrow> controller" where
  "gui_setup env ge h =
     (case resolve_bundle_dir (ce_host env) ge h of (r, g) \<Rightarrow>
      let bundle = unwrap_or [] r in
      case fs_create_dir_all (ce_host env) bundle g of (_, k) \<Rightarrow> controller_new env bundle k)"

end
