(* ===== verification/Web_Panel.thy ===== *)
theory Web_Panel
  imports Gui_Shell
begin

text \<open>
  The headless web panel (\<open>controller/src/bin/web.rs\<close>): the boot of the host process and the
  handler that dispatches a posted command to the controller.  The routes, the JSON
  library and the deserialisers derived from the request structs are outside; a body is of any
  type \<open>'j\<close>, with one deserialiser per request struct.
\<close>

subsection \<open>Request types\<close>

record ds_start_req =
  dr_port :: u16
  dr_maxplayers :: u32
  dr_map :: string
  dr_install_dir :: "string option"
  dr_sv_cheats :: bool

definition default_ds_port :: u16 where "default_ds_port = 27015"
definition default_ds_maxplayers :: u32 where "default_ds_maxplayers = 8"
definition default_ds_map :: string where "default_ds_map = ''svencoop1''"

record server_start_req =
  sr_sc_host :: string
  sr_sc_port :: u16
  sr_tcp :: "string option"
  sr_auto :: bool
  sr_announce_interval :: u64
  sr_name :: "string option"

definition default_sc_host :: string where "default_sc_host = ''127.0.0.1''"
definition default_announce :: u64 where "default_announce = 15"

record client_start_req =
  cr_listen_port :: u16
  cr_server_hash :: "string option"
  cr_tcp :: "string option"
  cr_auto :: bool

record add_tcp_req =
  ar_addr :: string
  ar_role :: string
  ar_ifac_name :: "string option"
  ar_ifac_passphrase :: "string option"

definition web_default_role :: string where "web_default_role = ''server''"

record add_auto_req =
  aa_role :: string
  aa_ifac_name :: "string option"
  aa_ifac_passphrase :: "string option"

record add_udp_req =
  au_local :: string
  au_peer :: string
  au_role :: string
  au_ifac_name :: "string option"
  au_ifac_passphrase :: "string option"

record add_websocket_req =
  aw_addr :: string
  aw_role :: string
  aw_ifac_name :: "string option"
  aw_ifac_passphrase :: "string option"

record 'j serde_requests =
  de_ds_start :: "'j \<Rightarrow> ds_start_req result"
  de_changelevel :: "'j \<Rightarrow> string result"
  de_set_cheats :: "'j \<Rightarrow> bool result"
  de_server_start :: "'j \<Rightarrow> server_start_req result"
  de_client_start :: "'j \<Rightarrow> client_start_req result"
  de_add_tcp :: "'j \<Rightarrow> add_tcp_req result"
  de_add_auto :: "'j \<Rightarrow> add_auto_req result"
  de_add_udp :: "'j \<Rightarrow> add_udp_req result"
  de_add_websocket :: "'j \<Rightarrow> add_websocket_req result"
  de_id :: "'j \<Rightarrow> string result"
  de_rename :: "'j \<Rightarrow> (string \<times> string) result"
  de_server_hash :: "'j \<Rightarrow> string result"
  de_trace_path :: "'j \<Rightarrow> (string \<times> string) result"

subsection \<open>The handler\<close>

datatype http_answer = Json reply | Failure nat string

definition INTERNAL_SERVER_ERROR :: nat where "INTERNAL_SERVER_ERROR = 500"
definition BAD_REQUEST :: nat where "BAD_REQUEST = 400"
definition NOT_FOUND :: nat where "NOT_FOUND = 404"

definition parse_body :: "('j \<Rightarrow> 'r result) \<Rightarrow> 'j \<Rightarrow> 'r result" where
  "parse_body de body = map_err (\<lambda>e. ''invalid request body: '' @ e) (de body)"

definition answer :: "nat \<Rightarrow> (reply, controller) st \<Rightarrow> controller \<Rightarrow> http_answer \<times> controller" where
  "answer status m c =
     (case m c of (Inr x, d) \<Rightarrow> (Json x, d) | (Inl e, d) \<Rightarrow> (Failure status e, d))"

text \<open>A command whose answer is \<open>null\<close>, without and with a body.\<close>

definition runs :: "(unit, controller) st \<Rightarrow> controller \<Rightarrow> http_answer \<times> controller" where
  "runs m = answer BAD_REQUEST (returns (\<lambda>_. Done) m)"

definition with_body ::
  "('j \<Rightarrow> 'r result) \<Rightarrow> 'j \<Rightarrow> ('r \<Rightarrow> controller \<Rightarrow> http_answer \<times> controller) \<Rightarrow> controller \<Rightarrow> http_answer \<times> controller" where
  "with_body de body f c =
     (case parse_body de body of Inl e \<Rightarrow> (Failure BAD_REQUEST e, c) | Inr r \<Rightarrow> f r c)"

definition get_state :: "ctrl_env \<Rightarrow> controller \<Rightarrow> http_answer \<times> controller" where
  "get_state env = answer INTERNAL_SERVER_ERROR (shows_state Snapshot (state_of env))"

definition api_dispatch ::
  "ctrl_env \<Rightarrow> 'j serde_requests \<Rightarrow> path \<Rightarrow> string \<Rightarrow> 'j \<Rightarrow> controller \<Rightarrow> http_answer \<times> controller" where
  "api_dispatch env de bundle cmd body =
     (if cmd = ''get_state'' \<or> cmd = ''state'' then get_state env
      else if cmd = ''ds_start'' then with_body (de_ds_start de) body (\<lambda>r. runs (ds_start_ctl env
        \<lparr>da_port = dr_port r, da_maxplayers = dr_maxplayers r, da_map = dr_map r,
         da_install_dir = dr_install_dir r, da_sv_cheats = dr_sv_cheats r\<rparr>))
      else if cmd = ''ds_stop'' then runs (ds_stop_ctl env)
      else if cmd = ''ds_changelevel'' then with_body (de_changelevel de) body (\<lambda>m. runs (ds_changelevel env m))
      else if cmd = ''ds_set_cheats'' then with_body (de_set_cheats de) body (\<lambda>b. runs (ds_set_cheats env b))
      else if cmd = ''ds_list_maps'' then answer BAD_REQUEST (shows_state Maps (ds_list_maps_ctl env))
      else if cmd = ''ds_query'' then answer BAD_REQUEST (returns Stats (ds_query env))
      else if cmd = ''start_bridge_server'' then with_body (de_server_start de) body (\<lambda>r. runs (start_bridge_server env
        \<lparr>sc_port = sr_sc_port r, sc_host = sr_sc_host r, sa_identity = path_join bundle ''server.identity'',
         sa_tcp = sr_tcp r, sa_auto = sr_auto r, announce_interval = sr_announce_interval r, sa_name = sr_name r\<rparr>))
      else if cmd = ''stop_bridge_server'' then runs (stop_bridge_server env)
      else if cmd = ''restart_bridge_server'' then runs (restart_bridge_server env)
      else if cmd = ''announce_now'' then runs (announce_now_ctl env)
      else if cmd = ''trace_path'' then with_body (de_trace_path de) body
        (\<lambda>(r, hash). answer BAD_REQUEST (returns Trace (trace_path env r hash)))
      else if cmd = ''start_client'' then with_body (de_client_start de) body (\<lambda>r. runs (start_client_session env
        \<lparr>listen_port = cr_listen_port r, server_hash = cr_server_hash r,
         ca_identity = path_join bundle ''client.identity'', ca_tcp = cr_tcp r, ca_auto = cr_auto r\<rparr>))
      else if cmd = ''stop_client'' then runs (stop_client env)
      else if cmd = ''restart_client'' then runs (restart_client env)
      else if cmd = ''add_interface_tcp'' then with_body (de_add_tcp de) body (\<lambda>r. runs
        (add_interface_tcp env (ar_addr r) (ar_role r) (ar_ifac_name r) (ar_ifac_passphrase r)))
      else if cmd = ''add_interface_auto'' then with_body (de_add_auto de) body (\<lambda>r. runs
        (add_interface_auto env (aa_role r) (aa_ifac_name r) (aa_ifac_passphrase r)))
      else if cmd = ''add_interface_udp'' then with_body (de_add_udp de) body (\<lambda>r. runs
        (add_interface_udp env (au_local r) (au_peer r) (au_role r) (au_ifac_name r) (au_ifac_passphrase r)))
      else if cmd = ''add_interface_websocket'' then with_body (de_add_websocket de) body (\<lambda>r. runs
        (add_interface_websocket env (aw_addr r) (aw_role r) (aw_ifac_name r) (aw_ifac_passphrase r)))
      else if cmd = ''remove_interface'' then with_body (de_id de) body (\<lambda>i. runs (remove_interface env i))
      else if cmd = ''rename_interface'' then with_body (de_rename de) body
        (\<lambda>(i, name). runs (rename_interface env i name))
      else if cmd = ''connect_and_launch'' then with_body (de_server_hash de) body
        (\<lambda>hash. runs (connect_and_launch env hash))
      else Pair (Failure NOT_FOUND (''unknown command: '' @ cmd)))"

subsection \<open>Boot\<close>

definition var_or :: "host_env \<Rightarrow> string \<Rightarrow> string \<Rightarrow> string" where
  "var_or env name absent = (case he_var env name of Some v \<Rightarrow> v | None \<Rightarrow> absent)"

definition web_port :: "host_env \<Rightarrow> u16" where
  "web_port env = (case Option.bind (he_var env ''WEB_PORT'') parse_u16 of Some p \<Rightarrow> p | None \<Rightarrow> 8080)"

definition web_boot :: "ctrl_env \<Rightarrow> host \<Rightarrow> controller" where
  "web_boot env h =
     (let bundle_dir = var_or (ce_host env) ''BUNDLE_DIR'' ''/data'' in
      case fs_create_dir_all (ce_host env) bundle_dir h of (_, g) \<Rightarrow>
        resume env (controller_new env bundle_dir g))"

subsection \<open>The panel and the desktop shell\<close>

text \<open>
  The call of the desktop shell that a posted command stands for; errors of the panel itself are
  on the left.
\<close>

definition decode :: "('j \<Rightarrow> 'r result) \<Rightarrow> 'j \<Rightarrow> ('r \<Rightarrow> tauri_command) \<Rightarrow> http_answer + tauri_command" where
  "decode de body f =
     (case parse_body de body of Inl e \<Rightarrow> Inl (Failure BAD_REQUEST e) | Inr r \<Rightarrow> Inr (f r))"

definition posted :: "'j serde_requests \<Rightarrow> string \<Rightarrow> 'j \<Rightarrow> http_answer + tauri_command" where
  "posted de cmd body =
     (if cmd = ''get_state'' \<or> cmd = ''state'' then Inr GetState
      else if cmd = ''ds_start'' then decode (de_ds_start de) body
        (\<lambda>r. DsStart (dr_port r) (dr_maxplayers r) (dr_map r) (dr_install_dir r) (Some (dr_sv_cheats r)))
      else if cmd = ''ds_stop'' then Inr DsStop
      else if cmd = ''ds_changelevel'' then decode (de_changelevel de) body DsChangelevel
      else if cmd = ''ds_set_cheats'' then decode (de_set_cheats de) body DsSetCheats
      else if cmd = ''ds_list_maps'' then Inr DsListMaps
      else if cmd = ''ds_query'' then Inr DsQuery
      else if cmd = ''start_bridge_server'' then decode (de_server_start de) body
        (\<lambda>r. StartBridgeServer (sr_sc_host r) (sr_sc_port r) (sr_tcp r) (sr_auto r) (sr_announce_interval r) (sr_name r))
      else if cmd = ''stop_bridge_server'' then Inr StopBridgeServer
      else if cmd = ''restart_bridge_server'' then Inr RestartBridgeServer
      else if cmd = ''announce_now'' then Inr AnnounceNow
      else if cmd = ''trace_path'' then decode (de_trace_path de) body (\<lambda>(r, hash). TracePath r hash)
      else if cmd = ''start_client'' then decode (de_client_start de) body
        (\<lambda>r. StartClient (cr_listen_port r) (cr_server_hash r) (cr_tcp r) (cr_auto r))
      else if cmd = ''stop_client'' then Inr StopClient
      else if cmd = ''restart_client'' then Inr RestartClient
      else if cmd = ''add_interface_tcp'' then decode (de_add_tcp de) body
        (\<lambda>r. AddInterfaceTcp (ar_addr r) (ar_role r) (ar_ifac_name r) (ar_ifac_passphrase r))
      else if cmd = ''add_interface_auto'' then decode (de_add_auto de) body
        (\<lambda>r. AddInterfaceAuto (aa_role r) (aa_ifac_name r) (aa_ifac_passphrase r))
      else if cmd = ''add_interface_udp'' then decode (de_add_udp de) body
        (\<lambda>r. AddInterfaceUdp (au_local r) (au_peer r) (au_role r) (au_ifac_name r) (au_ifac_passphrase r))
      else if cmd = ''add_interface_websocket'' then decode (de_add_websocket de) body
        (\<lambda>r. AddInterfaceWebsocket (aw_addr r) (aw_role r) (aw_ifac_name r) (aw_ifac_passphrase r))
      else if cmd = ''remove_interface'' then decode (de_id de) body RemoveInterface
      else if cmd = ''rename_interface'' then decode (de_rename de) body (\<lambda>(i, name). RenameInterface i name)
      else if cmd = ''connect_and_launch'' then decode (de_server_hash de) body ConnectAndLaunch
      else Inl (Failure NOT_FOUND (''unknown command: '' @ cmd)))"

definition failure_status :: "tauri_command \<Rightarrow> nat" where
  "failure_status t = (case t of GetState \<Rightarrow> INTERNAL_SERVER_ERROR | _ \<Rightarrow> BAD_REQUEST)"

text \<open>A handler agrees with the shell on what a request stands for.\<close>

definition agrees ::
  "ctrl_env \<Rightarrow> path \<Rightarrow> http_answer + tauri_command \<Rightarrow> (controller \<Rightarrow> http_answer \<times> controller) \<Rightarrow> bool" where
  "agrees env bundle p h \<longleftrightarrow>
     (\<forall>c. h c = (case p of Inl a \<Rightarrow> (a, c) | Inr t \<Rightarrow> answer (failure_status t) (invoke env bundle t) c))"

lemma agrees_if:
  "(b \<Longrightarrow> agrees env bundle p h) \<Longrightarrow> (\<not> b \<Longrightarrow> agrees env bundle q k) \<Longrightarrow>
   agrees env bundle (if b then p else q) (if b then h else k)"
  by simp

lemma agrees_decode:
  "(\<And>r. agrees env bundle (Inr (f r)) (g r)) \<Longrightarrow> agrees env bundle (decode de body f) (with_body de body g)"
  by (auto simp: agrees_def decode_def with_body_def split: sum.split)

lemma agrees_commands:
  "invoke env bundle t = returns (\<lambda>_. Done) m \<Longrightarrow> failure_status t = BAD_REQUEST \<Longrightarrow> agrees env bundle (Inr t) (runs m)"
  "invoke env bundle t = m' \<Longrightarrow> failure_status t = BAD_REQUEST \<Longrightarrow> agrees env bundle (Inr t) (answer BAD_REQUEST m')"
  "agrees env bundle (Inr GetState) (get_state env)" "agrees env bundle (Inl a) (Pair a)"
  by (simp_all add: agrees_def runs_def get_state_def failure_status_def)

lemma dispatch_agrees: "agrees env bundle (posted de cmd body) (api_dispatch env de bundle cmd body)"
  unfolding posted_def api_dispatch_def
  by (intro agrees_if agrees_decode agrees_commands(3,4))
    (auto simp: failure_status_def gui_ds_args_def gui_server_args_def gui_client_args_def
      intro!: agrees_commands(1,2) split: prod.split)

text \<open>
  C20: the web panel does for every posted command exactly what the desktop shell does for the call
  the command stands for: same change of the state, same reply, same error text.  A
  request that cannot be read or is not known changes nothing.
\<close>

theorem panel_is_shell:
  "api_dispatch env de bundle cmd body c =
     (case posted de cmd body of
        Inl a \<Rightarrow> (a, c)
      | Inr t \<Rightarrow> (case invoke env bundle t c of
          (Inr x, d) \<Rightarrow> (Json x, d)
        | (Inl e, d) \<Rightarrow> (Failure (if t = GetState then 500 else 400) e, d)))"
proof -
  have "failure_status t = (if t = GetState then 500 else 400)" for t
    by (cases t) (simp_all add: failure_status_def INTERNAL_SERVER_ERROR_def BAD_REQUEST_def)
  then show ?thesis using dispatch_agrees [of env "bundle" de cmd body]
    by (auto simp: agrees_def answer_def split: sum.split prod.split)
qed

end
