(* ===== verification/Controller_Runs.thy ===== *)
theory Controller_Runs
  imports Web_Panel
begin

text \<open>
  The controller over time: the calls of the shells, one after another as the mutex around it
  makes them, and between two calls whatever the nodes of the sessions and the background task of the
  dedicated server do.
\<close>

datatype ctl_event =
  Call tauri_command
| Resume
| NodeTables string "iface list" "discovered_server list" "identity_hash list"
| NodeSelect string bool
| NodeDrop string
| NodeSignal string
| Background ds_action

text \<open>The steps of the manager that are not calls of its methods.\<close>

fun background :: "ds_action \<Rightarrow> bool" where
  "background (APark i) = True"
| "background (AWake i) = True"
| "background (ATask i inp) = True"
| "background (AExit p) = True"
| "background _ = False"

definition upd_session :: "string \<Rightarrow> (live_session \<Rightarrow> live_session option) \<Rightarrow> controller \<Rightarrow> controller option" where
  "upd_session r f c =
     (if r = ''server''
      then map_option (\<lambda>s. c\<lparr>c_server := Some s\<rparr>) (Option.bind (c_server c) f)
      else if r = ''client''
      then map_option (\<lambda>s. c\<lparr>c_client := Some s\<rparr>) (Option.bind (c_client c) f)
      else None)"

definition upd_node :: "(bridge_session \<Rightarrow> bridge_session option) \<Rightarrow> live_session \<Rightarrow> live_session option" where
  "upd_node f s = map_option (\<lambda>b. s\<lparr>ls_session := b\<rparr>) (f (ls_session s))"

fun ctl_step :: "ctrl_env \<Rightarrow> archive_env \<Rightarrow> path \<Rightarrow> controller \<Rightarrow> ctl_event \<Rightarrow> controller option" where
  "ctl_step env ar home c (Call t) = Some (snd (invoke env home t c))"
| "ctl_step env ar home c Resume = Some (resume env c)"
| "ctl_step env ar home c (NodeTables r l ds cs) =
     upd_session r (\<lambda>s. Some (s\<lparr>ls_ifaces := l, ls_discovered := ds, ls_clients := cs\<rparr>)) c"
| "ctl_step env ar home c (NodeSelect r ended) = upd_session r (upd_node (thread_select ended)) c"
| "ctl_step env ar home c (NodeDrop r) = upd_session r (upd_node thread_drop_runtime) c"
| "ctl_step env ar home c (NodeSignal r) = upd_session r (upd_node thread_signal_done) c"
| "ctl_step env ar home c (Background a) =
     (if background a then map_option (\<lambda>d. c\<lparr>c_ds := d\<rparr>) (ds_step (ce_host env) ar (c_ds c) a) else None)"

inductive ctl_run ::
  "ctrl_env \<Rightarrow> archive_env \<Rightarrow> path \<Rightarrow> controller \<Rightarrow> ctl_event list \<Rightarrow> controller \<Rightarrow> bool" for env ar home where
  ctl_run_Nil: "ctl_run env ar home c [] c"
| ctl_run_Cons: "ctl_step env ar home c e = Some d \<Longrightarrow> ctl_run env ar home d es f \<Longrightarrow>
    ctl_run env ar home c (e # es) f"

inductive_simps ctl_run_simps: "ctl_run env ar home c [] d" "ctl_run env ar home c (e # es) d"

lemma ctl_run_invariant:
  assumes "ctl_run env ar home c es d" and "P c"
    and "\<And>c e d. ctl_step env ar home c e = Some d \<Longrightarrow> P c \<Longrightarrow> P d"
  shows "P d"
  using assms by (induction rule: ctl_run.induct) blast+

subsection \<open>The invariant\<close>

definition slot_ok :: "bridge_role \<Rightarrow> live_session option \<Rightarrow> bool" where
  "slot_ok r slot \<longleftrightarrow> (case slot of None \<Rightarrow> True
     | Some s \<Rightarrow> session_inv (ls_session s) \<and> bs_done (ls_session s) \<and> bs_role (ls_session s) = r)"

definition released :: "bridge_session \<Rightarrow> bool" where
  "released b \<longleftrightarrow> bs_thread b = NodeDone \<and> \<not> bs_sockets_held b"

definition ctl_inv :: "controller \<Rightarrow> bool" where
  "ctl_inv c \<longleftrightarrow> srv.in_step c \<and> cli.in_step c \<and> slot_ok Server (c_server c) \<and> slot_ok Client (c_client c)
     \<and> list_all released (c_ended c) \<and> ds_inv (c_ds c) \<and> dm_mgr (c_ds c) = MgrIdle"

lemmas slot_defs = srv.in_step_def cli.in_step_def server_up_def client_up_def

lemma ds_inv_host [simp]: "ds_inv (d\<lparr>dm_host := h\<rparr>) = ds_inv d"
  by (simp add: ds_inv_def tasks_ok_def procs_ok_def held_def)

lemma upd_settings_ds_inv [simp]: "ds_inv (c_ds (upd_settings env f c)) = ds_inv (c_ds c)"
  using upd_settings_ds [of c env f] by (auto simp: same_ds_def)

lemma stop_end_ok: "session_inv b \<Longrightarrow> bs_done b \<Longrightarrow> released (stop_end b)"
  by (simp add: released_def stop_end_def Let_def stop_signal_def)

lemma started_ok:
  "start_server env a = Inr (b, su) \<Longrightarrow> session_inv b \<and> bs_done b \<and> bs_role b = Server"
  "start_client env d = Inr (b, cu) \<Longrightarrow> session_inv b \<and> bs_done b \<and> bs_role b = Client"
  by (auto simp: start_server_def start_client_def rbind_eq_Inr dest: spawn_session_inv)

interpretation whole: io_frame "\<lambda>a b. ctl_inv a \<longrightarrow> ctl_inv b"
  by unfold_locales auto

lemma session_ops_keep:
  "whole.keeps (start_bridge_server env a)" "whole.keeps (stop_bridge_server env)"
  "whole.keeps (start_client_session env b)" "whole.keeps (stop_client env)"
  unfolding whole.keeps_def
  by (auto simp: ctl_inv_def slot_defs slot_ok_def start_bridge_server_def stop_bridge_server_def
      start_client_session_def stop_client_def new_live_def stop_end_ok
      dest: started_ok split: sum.splits option.splits)

lemma ctl_inv_view:
  assumes "iface_view k = iface_view c"
  shows "ctl_inv k = ctl_inv c"
proof -
  note v = iface_viewD [OF assms]
  have "dm_mgr (c_ds k) = dm_mgr (c_ds c)" "ds_inv (c_ds k) = ds_inv (c_ds c)"
    using arg_cong [OF v(9), of dm_mgr] arg_cong [OF v(9), of ds_inv] by simp_all
  moreover have slot: "slot_ok r s = slot_ok r t \<and> (s = None) = (t = None)"
    if "map_option ls_session s = map_option ls_session t" for r s t
    using that by (cases s; cases t) (auto simp: slot_ok_def)
  ultimately show ?thesis
    unfolding ctl_inv_def slot_defs v(2,3,5) settings_fields [OF v(8)]
    using slot [OF v(6)] slot [OF v(7)] by metis
qed

lemma view_keeps: "(\<And>c. iface_view (snd (m c)) = iface_view c) \<Longrightarrow> whole.keeps m"
  unfolding whole.keeps_def using ctl_inv_view by blast

lemma add_is_reattach:
  "add_interface_tcp env a r n p = reattach env \<lparr>id_id = None, id_kind = ''tcp'', id_role = r, id_addr = Some a,
     id_peer_addr = None, id_ifac_name = n, id_ifac_passphrase = p\<rparr>"
  "add_interface_auto env r n p = reattach env \<lparr>id_id = None, id_kind = ''auto'', id_role = r, id_addr = None,
     id_peer_addr = None, id_ifac_name = n, id_ifac_passphrase = p\<rparr>"
  "add_interface_udp env a b r n p = reattach env \<lparr>id_id = None, id_kind = ''udp'', id_role = r, id_addr = Some a,
     id_peer_addr = Some b, id_ifac_name = n, id_ifac_passphrase = p\<rparr>"
  "add_interface_websocket env a r n p = reattach env \<lparr>id_id = None, id_kind = ''websocket'', id_role = r,
     id_addr = Some a, id_peer_addr = None, id_ifac_name = n, id_ifac_passphrase = p\<rparr>"
  by (simp_all add: reattach_def Let_def)

lemma interface_ops_keep:
  "whole.keeps (reattach env d)" "whole.keeps (remove_interface env i)" "whole.keeps (rename_interface env i name)"
  by (rule view_keeps, simp add: reattach_view remove_interface_def rename_interface_def
      split: sum.split prod.split bool.split)+

lemma plain_views:
  "iface_view (c\<lparr>c_clock := n\<rparr>) = iface_view c" by (simp add: iface_view_def)

lemma plain_ops_keep:
  "whole.keeps (announce_now_ctl env)" "whole.keeps (trace_path env r h)"
  "whole.keeps (wait_for_udp_bind env p n)" "whole.keeps (on_host m)"
proof -
  show "whole.keeps (announce_now_ctl env)" by (rule view_keeps) (simp add: announce_now_ctl_def)
  show "whole.keeps (trace_path env r h)" by (rule view_keeps) (simp add: trace_path_def Let_def split: sum.split)
  show "whole.keeps (wait_for_udp_bind env p n)"
    by (rule view_keeps) (simp add: wait_for_udp_bind_def plain_views split: prod.split)
  show "whole.keeps (on_host m)" by (rule view_keeps) (simp add: on_host_def split: prod.split)
qed

lemma restart_keeps: "whole.keeps (restart_bridge_server env)" "whole.keeps (restart_client env)"
proof -
  have "whole.keeps (io_bind (stop_bridge_server env) (\<lambda>_. start_bridge_server env a))"
    "whole.keeps (io_bind (stop_client env) (\<lambda>_. start_client_session env b))" for a b
    by (intro whole.keeps_bind session_ops_keep)+
  then show "whole.keeps (restart_bridge_server env)" "whole.keeps (restart_client env)"
    unfolding whole.keeps_def restart_bridge_server_def restart_client_def by (auto split: option.split)
qed

text \<open>A method of the manager, run to its end, is a sequence of its steps.\<close>

lemma mgr_finish_inv: "ds_inv s \<Longrightarrow> ds_inv (mgr_finish k s)"
  using mgr_finish_run [of _ _ s k] ds_run_invariant [of _ _ s _ "mgr_finish k s" ds_inv] ds_step_inv by metis

lemma method_inv:
  assumes "ds_inv s" and "dm_mgr s = MgrIdle"
  shows "ds_inv (snd (ds_start a s))" "ds_inv (ds_stop s)" "ds_inv (snd (ds_status_of e s))"
    "ds_inv (snd (send_command w1 w2 m s))" "ds_inv (snd (set_cheats w1 w2 b s))" "ds_inv (snd (ds_list_maps env s))"
  using ds_step_inv [OF _ assms(1), of undefined undefined "AStart a"]
    ds_step_inv [OF _ assms(1), of undefined undefined AStop]
    ds_step_inv [OF _ assms(1), of undefined undefined "AStatus e"]
    ds_step_inv [OF _ assms(1), of undefined undefined "ACommand m w1 w2"]
    ds_step_inv [OF _ assms(1), of undefined undefined "ACheats b w1 w2"]
    ds_step_inv [OF _ assms(1), of env undefined AMaps]
  by (simp_all add: if_idle_def assms(2))

lemma ctl_inv_ds:
  "ctl_inv (upd_settings env (\<lambda>s. s\<lparr>set_ds := a, set_ds_running := b\<rparr>) c) = ctl_inv c"
  "ctl_inv (upd_settings env (\<lambda>s. s\<lparr>set_ds_running := b\<rparr>) c) = ctl_inv c"
  "ctl_inv (upd_settings env (upd_saved_ds g) c) = ctl_inv c"
  "ctl_inv (tick c) = ctl_inv c"
  by (simp_all add: ctl_inv_def slot_defs upd_saved_ds_def)

lemma ctl_inv_set_ds: "ctl_inv c \<Longrightarrow> ds_inv d \<Longrightarrow> dm_mgr d = MgrIdle \<Longrightarrow> ctl_inv (c\<lparr>c_ds := d\<rparr>)"
  by (simp add: ctl_inv_def slot_defs)

lemma ctl_inv_of_ds: "ctl_inv c \<Longrightarrow> ds_inv (c_ds c) \<and> dm_mgr (c_ds c) = MgrIdle"
  by (simp add: ctl_inv_def)

lemma method_idle:
  "dm_mgr (snd (ds_status_of e s)) = dm_mgr s" "dm_mgr (snd (send_command w1 w2 m s)) = dm_mgr s"
  "dm_mgr (snd (set_cheats w1 w2 b s)) = dm_mgr s" "dm_mgr (snd (ds_list_maps env s)) = dm_mgr s"
  "ds_start a s = (Inl e', t) \<Longrightarrow> t = s"
  by (auto simp: ds_status_of_def Let_def send_command_def set_cheats_def ds_list_maps_def upd_live_def ds_start_def
      split: option.splits sum.splits prod.splits)

lemma ds_ops_keep:
  "whole.keeps (ds_start_ctl env a)" "whole.keeps (ds_stop_ctl env)"
  "whole.keeps (ds_changelevel env m)" "whole.keeps (ds_set_cheats env b)"
proof -
  have start: "ctl_inv (snd (ds_start_ctl env a c))" if "ctl_inv c" for c
  proof -
    note d = ctl_inv_of_ds [OF that]
    obtain r t where t: "ds_start a (c_ds c) = (r, t)" by fastforce
    then have "ds_inv (mgr_finish 4 t)" using mgr_finish_inv method_inv(1) [of "c_ds c" a] d by simp
    then have "ctl_inv (c\<lparr>c_ds := mgr_finish 4 t\<rparr>)" using ctl_inv_set_ds that by simp
    then show ?thesis using that t method_idle(5) [of a "c_ds c"]
      by (cases r) (auto simp: ds_start_ctl_def ctl_inv_ds)
  qed
  have stop: "ctl_inv (snd (ds_stop_ctl env c))" if "ctl_inv c" for c
    using ctl_inv_set_ds [OF that, of "mgr_finish 4 (ds_stop (c_ds c))"] ctl_inv_of_ds [OF that]
    by (simp add: ds_stop_ctl_def ctl_inv_ds mgr_finish_inv method_inv(2))
  have level: "ctl_inv (snd (ds_changelevel env m c))" if "ctl_inv c" for c
  proof -
    note d = ctl_inv_of_ds [OF that]
    obtain w1 w2 where w: "ce_console env (c_clock c) = (w1, w2)" by fastforce
    obtain r t where t: "send_command w1 w2 (''changelevel '' @ m) (c_ds c) = (r, t)" by fastforce
    have "ctl_inv ((tick c)\<lparr>c_ds := t\<rparr>)"
      using ctl_inv_set_ds [of "tick c" t] that method_inv(4) [of "c_ds c" w1 w2 "''changelevel '' @ m"]
        method_idle(2) [of w1 w2 "''changelevel '' @ m" "c_ds c"] t d by (simp add: ctl_inv_ds)
    then show ?thesis using w t by (cases r) (auto simp: ds_changelevel_def ctl_inv_ds)
  qed
  have cheats: "ctl_inv (snd (ds_set_cheats env b c))" if "ctl_inv c" for c
  proof -
    note d = ctl_inv_of_ds [OF that]
    obtain w1 w2 where w: "ce_console env (c_clock c) = (w1, w2)" by fastforce
    obtain r t where t: "set_cheats w1 w2 b (c_ds c) = (r, t)" by fastforce
    have "ctl_inv ((tick c)\<lparr>c_ds := t\<rparr>)"
      using ctl_inv_set_ds [of "tick c" t] that method_inv(5) [of "c_ds c" w1 w2 b]
        method_idle(3) [of w1 w2 b "c_ds c"] t d by (simp add: ctl_inv_ds)
    then show ?thesis using w t by (cases r) (auto simp: ds_set_cheats_def ctl_inv_ds)
  qed
  show "whole.keeps (ds_start_ctl env a)" "whole.keeps (ds_stop_ctl env)"
    "whole.keeps (ds_changelevel env m)" "whole.keeps (ds_set_cheats env b)"
    using start stop level cheats by (simp_all add: whole.keeps_def)
qed

lemma status_inv: "ctl_inv c \<Longrightarrow> ctl_inv (snd (ds_status_ctl env c))"
  using ctl_inv_set_ds [of "tick c" "snd (ds_status_of (ce_try_wait_err env (c_clock c)) (c_ds c))"]
    method_inv(3) [of "c_ds c" "ce_try_wait_err env (c_clock c)"] method_idle(1) [of "ce_try_wait_err env (c_clock c)" "c_ds c"]
    ctl_inv_of_ds [of c]
  by (simp add: ds_status_ctl_def ctl_inv_ds case_prod_beta)

lemma showing_ops_keep:
  "whole.keeps (shows_state f (ds_status_ctl env))" "whole.keeps (shows_state g (state_of env))"
  "whole.keeps (ds_query env)" "whole.keeps (shows_state k (ds_list_maps_ctl env))"
proof -
  show "whole.keeps (shows_state f (ds_status_ctl env))" "whole.keeps (shows_state g (state_of env))"
    using status_inv [of _ env]
    by (auto simp: whole.keeps_def shows_state_def state_of_def Let_def split: prod.splits) (metis snd_conv)+
  show "whole.keeps (ds_query env)"
    using status_inv [of _ env]
    by (auto simp: whole.keeps_def ds_query_def ctl_inv_ds split: prod.splits option.splits) (metis snd_conv)+
  have "ctl_inv (snd (ds_list_maps_ctl env c))" if "ctl_inv c" for c
    using ctl_inv_set_ds [OF that, of "snd (ds_list_maps (ce_host env) (c_ds c))"] ctl_inv_of_ds [OF that]
      method_inv(6) [of "c_ds c" "ce_host env"] method_idle(4) [of "ce_host env" "c_ds c"]
    by (simp add: ds_list_maps_ctl_def case_prod_beta)
  then show "whole.keeps (shows_state k (ds_list_maps_ctl env))"
    by (auto simp: whole.keeps_def shows_state_def split: prod.splits) (metis snd_conv)+
qed

lemma connect_keeps: "whole.keeps (connect_and_launch env h)"
proof -
  have "whole.keeps (io_bind (io_of (validate_hex_hash env h)) (\<lambda>_.
      let args = args\<lparr>server_hash := Some h\<rparr> in
      io_bind (stop_client env) (\<lambda>_.
      io_bind (start_client_session env args) (\<lambda>_.
      io_bind (wait_for_udp_bind env (listen_port args) 8000) (\<lambda>_.
        on_host (launch (ce_host env) (ce_os env) (listen_port args)))))))" for args
    unfolding Let_def by (intro whole.keeps_bind session_ops_keep plain_ops_keep whole.keeps_ret)
  then show ?thesis unfolding whole.keeps_def connect_and_launch_def by (auto split: option.split)
qed

lemma invoke_keeps: "whole.keeps (invoke env dir t)"
proof -
  have ret: "whole.keeps m \<Longrightarrow> whole.keeps (returns f m)" for f and m :: "('a, controller) st"
    unfolding returns_def by (intro whole.keeps_bind whole.keeps_ret)
  have still: "whole.keeps (shows_state f (\<lambda>c. (g c, c)))" for f and g :: "controller \<Rightarrow> 'a"
    by (simp add: whole.keeps_def shows_state_def)
  show ?thesis
    by (cases t) (simp_all add: ret still session_ops_keep restart_keeps plain_ops_keep add_is_reattach interface_ops_keep
        ds_ops_keep showing_ops_keep connect_keeps)
qed

lemma ctl_inv_errors: "ctl_inv (c\<lparr>c_resume_errors := e\<rparr>) = ctl_inv c"
  by (simp add: ctl_inv_def slot_defs)

lemma attempt_keeps:
  assumes "whole.keeps m" and "ctl_inv c"
  shows "ctl_inv (attempt what m c)"
proof -
  obtain r d where d: "m c = (r, d)" by fastforce
  then have "ctl_inv d" using whole.keepsD [OF assms(1) d] assms(2) by simp
  then show ?thesis by (cases r) (simp_all add: attempt_def d ctl_inv_errors)
qed

lemma attempt_if_keeps: "(\<And>a. whole.keeps (f a)) \<Longrightarrow> ctl_inv c \<Longrightarrow> ctl_inv (attempt_if w args what f c)"
  by (auto simp: attempt_if_def attempt_keeps split: option.split)

lemma resume_keeps: "ctl_inv c \<Longrightarrow> ctl_inv (resume env c)"
proof -
  assume c: "ctl_inv c"
  have fold: "ctl_inv d \<Longrightarrow> ctl_inv (fold (resume_interface env) l d)" for l d
    by (induction l arbitrary: d) (simp_all add: resume_interface_def attempt_keeps interface_ops_keep)
  have "ctl_inv (c\<lparr>c_resume_errors := []\<rparr>)" using c by (simp add: ctl_inv_def slot_defs)
  moreover have "iface_view (resume_dedup env d) = iface_view d" for d
    by (auto simp: resume_dedup_def iface_view_def split: prod.split)
  ultimately have "ctl_inv (resume_dedup env (c\<lparr>c_resume_errors := []\<rparr>))" using ctl_inv_view by blast
  then show ?thesis
    unfolding resume_def resume_bridge_def resume_rest_def Let_def
    by (intro attempt_if_keeps fold session_ops_keep ds_ops_keep)
qed

lemma thread_ok:
  "thread_select e b = Some d \<Longrightarrow> session_inv b \<and> bs_done b \<and> bs_role b = r \<Longrightarrow> session_inv d \<and> bs_done d \<and> bs_role d = r"
  "thread_drop_runtime b = Some d \<Longrightarrow> session_inv b \<and> bs_done b \<and> bs_role b = r \<Longrightarrow> session_inv d \<and> bs_done d \<and> bs_role d = r"
  "thread_signal_done b = Some d \<Longrightarrow> session_inv b \<and> bs_done b \<and> bs_role b = r \<Longrightarrow> session_inv d \<and> bs_done d \<and> bs_role d = r"
  by (auto simp: thread_defs session_inv_def split: if_splits)

lemma upd_session_keeps:
  assumes "upd_session r f c = Some d" and "ctl_inv c"
    and "\<And>s t x. f s = Some t \<Longrightarrow> slot_ok x (Some s) \<Longrightarrow> slot_ok x (Some t)"
  shows "ctl_inv d"
  using assms by (auto simp: upd_session_def ctl_inv_def slot_defs split: if_splits bind_splits)

lemma ctl_step_keeps:
  assumes "ctl_step env ar dir c e = Some d" and "ctl_inv c"
  shows "ctl_inv d"
proof (cases e)
  case (Call t)
  then show ?thesis using assms invoke_keeps [of env dir t] by (auto simp: whole.keeps_def)
next
  case Resume
  then have "d = resume env c" using assms(1) by simp
  then show ?thesis using resume_keeps [OF assms(2), of env] by simp
next
  case (NodeTables r l ds cs)
  then have "upd_session r (\<lambda>s. Some (s\<lparr>ls_ifaces := l, ls_discovered := ds, ls_clients := cs\<rparr>)) c = Some d"
    using assms(1) by simp
  then show ?thesis using assms(2) by (rule upd_session_keeps) (auto simp: slot_ok_def)
next
  case (NodeSelect r ended)
  then have "upd_session r (upd_node (thread_select ended)) c = Some d" using assms(1) by simp
  then show ?thesis using assms(2)
    by (rule upd_session_keeps) (auto simp: slot_ok_def upd_node_def dest: thread_ok(1))
next
  case (NodeDrop r)
  then have "upd_session r (upd_node thread_drop_runtime) c = Some d" using assms(1) by simp
  then show ?thesis using assms(2)
    by (rule upd_session_keeps) (auto simp: slot_ok_def upd_node_def dest: thread_ok(2))
next
  case (NodeSignal r)
  then have "upd_session r (upd_node thread_signal_done) c = Some d" using assms(1) by simp
  then show ?thesis using assms(2)
    by (rule upd_session_keeps) (auto simp: slot_ok_def upd_node_def dest: thread_ok(3))
next
  case (Background a)
  then obtain t where t: "background a" "ds_step (ce_host env) ar (c_ds c) a = Some t" "d = c\<lparr>c_ds := t\<rparr>"
    using assms(1) by (auto split: if_splits)
  moreover have "dm_mgr t = dm_mgr (c_ds c)"
    using t(1,2) task_step_frame by (cases a) (auto simp: with_task_def split: option.splits if_splits)
  ultimately show ?thesis using assms(2) ds_step_inv [OF t(2)] ctl_inv_of_ds [OF assms(2)] ctl_inv_set_ds by simp
qed

lemma controller_new_inv: "ctl_inv (controller_new env dir h)"
proof -
  have "dm_mgr (ds_new b os k) = MgrIdle" for b os k by (simp add: ds_new_def)
  then show ?thesis
    by (auto simp: controller_new_def ctl_inv_def slot_defs slot_ok_def ds_new_inv Let_def split: prod.split)
qed

lemma reached_inv: "ctl_run env ar home (controller_new env dir h) es c \<Longrightarrow> ctl_inv c"
  by (erule ctl_run_invariant [where P = ctl_inv, OF _ controller_new_inv]) (rule ctl_step_keeps)

text \<open>
  C13: whatever the shells call, whatever the nodes and the background task do in between,
  the arguments in memory are the saved ones, a side with a session is marked to run at the
  next boot, each session has the role of its slot, every session that was stopped has let go of its
  sockets, every server process is in the shared slot or with a task about to put it there, and
  no method of the manager is left half done.
\<close>

theorem controller_consistent:
  assumes "ctl_run env ar dir (controller_new env dir h) es c"
  shows "c_last_server c = set_bridge (c_settings c) \<and> c_last_client c = set_client (c_settings c)
     \<and> (c_server c \<noteq> None \<longrightarrow> set_bridge_running (c_settings c) \<and> set_bridge (c_settings c) \<noteq> None)
     \<and> (c_client c \<noteq> None \<longrightarrow> set_client_running (c_settings c) \<and> set_client (c_settings c) \<noteq> None)
     \<and> (\<forall>s. c_server c = Some s \<longrightarrow> bs_role (ls_session s) = Server)
     \<and> (\<forall>s. c_client c = Some s \<longrightarrow> bs_role (ls_session s) = Client)
     \<and> (\<forall>b\<in>set (c_ended c). bs_thread b = NodeDone \<and> \<not> bs_sockets_held b)
     \<and> (\<forall>p\<in>set (dm_alive (c_ds c)). dm_child (c_ds c) = Some p
          \<or> (\<exists>i t d. dm_tasks (c_ds c) i = Some t \<and> t_pc t = Spawned p d))
     \<and> dm_mgr (c_ds c) = MgrIdle"
proof -
  have "ctl_inv c" by (rule reached_inv [OF assms])
  then show ?thesis
    by (auto simp: ctl_inv_def slot_defs slot_ok_def released_def list_all_iff ds_inv_def procs_ok_def held_def)
qed

text \<open>
  Fact: when the node of a server session ends by itself, its sockets are released, but the
  controller goes on showing the server as running and refuses to start it again.
\<close>

theorem node_end_unnoticed:
  assumes "c_server c = Some s" and "bs_thread (ls_session s) = NodeRunning"
  shows "\<exists>d s'. ctl_run env ar dir c [NodeSelect ''server'' True, NodeDrop ''server'', NodeSignal ''server''] d
     \<and> c_server d = Some s' \<and> \<not> bs_sockets_held (ls_session s') \<and> bs_thread (ls_session s') = NodeDone
     \<and> is_running d \<and> cs_server_running (fst (state_of env d))
     \<and> start_bridge_server env a d = (Inl ''a bridge server session is already running; stop it first'', d)"
proof -
  let ?b = "(ls_session s)\<lparr>bs_thread := TearingDown\<rparr>"
  let ?r = "?b\<lparr>bs_thread := RuntimeDropped, bs_sockets_held := False\<rparr>"
  let ?e = "?r\<lparr>bs_thread := NodeDone, bs_done_sent := True\<rparr>"
  let ?c = "c\<lparr>c_server := Some (s\<lparr>ls_session := ?b\<rparr>)\<rparr>"
  let ?k = "?c\<lparr>c_server := Some (s\<lparr>ls_session := ?r\<rparr>)\<rparr>"
  let ?d = "?k\<lparr>c_server := Some (s\<lparr>ls_session := ?e\<rparr>)\<rparr>"
  have one: "ctl_step env ar dir c (NodeSelect ''server'' True) = Some ?c"
    using assms by (simp add: upd_session_def upd_node_def thread_select_def)
  have two: "ctl_step env ar dir ?c (NodeDrop ''server'') = Some ?k"
    by (simp add: upd_session_def upd_node_def thread_drop_runtime_def)
  have three: "ctl_step env ar dir ?k (NodeSignal ''server'') = Some ?d"
    by (simp add: upd_session_def upd_node_def thread_signal_done_def)
  have "ctl_run env ar dir c [NodeSelect ''server'' True, NodeDrop ''server'', NodeSignal ''server''] ?d"
    using one two three by (simp add: ctl_run_simps)
  moreover have "is_running ?d" "cs_server_running (fst (state_of env ?d))"
    "start_bridge_server env a ?d = (Inl ''a bridge server session is already running; stop it first'', ?d)"
    by (simp_all add: is_running_def state_of_def Let_def start_bridge_server_def split: prod.split)
  ultimately show ?thesis by (intro exI [of _ ?d] exI [of _ "s\<lparr>ls_session := ?e\<rparr>"]) simp
qed

end
