(* ===== verification/Persistence.thy ===== *)
theory Persistence
  imports Controller_Runs
begin

text \<open>
  What survives a crash: the settings file against the settings in memory, over any sequence of
  calls.  The background task of the dedicated server is left out here, because what it
  downloads may be written anywhere (see \<open>zip_entry_written_at_its_name\<close>).
\<close>

subsection \<open>Reading changes no file\<close>

interpretation same_files: io_frame "\<lambda>a b. h_files b = h_files a"
  by unfold_locales auto

lemma syscall_same_files: "(\<And>fs. snd (f fs) = fs) \<Longrightarrow> same_files.keeps (syscall env f)"
  unfolding same_files.keeps_def syscall_def Let_def by (auto split: option.split prod.splits) (metis snd_conv)

lemma reads_same_files [simp]:
  "same_files.keeps (fs_metadata env p)" "same_files.keeps (fs_read_to_string env p)"
  "same_files.keeps (fs_read env p)" "same_files.keeps (fs_read_dir env p)" "same_files.keeps (next_entry env)"
  unfolding fs_metadata_def fs_read_to_string_def fs_read_def fs_read_dir_def next_entry_def
  by (rule syscall_same_files, simp)+

lemma search_same_files [simp]:
  "same_files.keeps (first_executable env os ds)" "same_files.keeps (find_svends_inner env b os)"
proof -
  show first: "same_files.keeps (first_executable env os ds)" for ds
    by (induction ds)
      (simp_all add: is_executable_def same_files.keeps_bind same_files.keeps_try)
  show "same_files.keeps (find_svends_inner env b os)"
    unfolding find_svends_inner_def by (intro same_files.keeps_bind same_files.keeps_try first) (auto intro!: same_files.keeps_bind same_files.keeps_try first)
qed

lemma maps_same_files [simp]: "same_files.keeps (list_maps_inner env d)"
proof -
  have dir: "same_files.keeps (dir_maps env ns)" for ns
    by (induction ns) (auto intro!: same_files.keeps_bind same_files.keeps_try split: sum.split)
  have game: "same_files.keeps (game_maps env d gs)" for gs
    by (induction gs) (auto intro!: same_files.keeps_bind same_files.keeps_try dir split: sum.split)
  show ?thesis unfolding list_maps_inner_def by (intro same_files.keeps_bind game same_files.keeps_ret)
qed

subsection \<open>The file follows the settings\<close>

text \<open>A bundle directory in which the settings file can be written.\<close>

definition ready :: "controller \<Rightarrow> bool" where
  "ready c \<longleftrightarrow> c_bundle c \<noteq> [] \<and> last (c_bundle c) \<noteq> CHR ''/'' \<and> dir_ok (h_files (c_host c)) (c_bundle c)
     \<and> node_at (h_files (c_host c)) (settings_path c) \<noteq> Some Dir"

definition disk_has :: "ctrl_env \<Rightarrow> controller \<Rightarrow> bool" where
  "disk_has env c \<longleftrightarrow> (\<exists>json x. to_string_pretty (ce_serde env) (c_settings c) = Inr json
     \<and> node_at (h_files (c_host c)) (settings_path c) = Some (File (bytes_of json) x))"

text \<open>Nothing has been changed, or the file holds the new settings.\<close>

definition saves :: "ctrl_env \<Rightarrow> controller \<Rightarrow> controller \<Rightarrow> bool" where
  "saves env a b \<longleftrightarrow> (ready a \<longrightarrow> ready b \<and> c_bundle b = c_bundle a
     \<and> (c_settings b = c_settings a \<and> h_files (c_host b) = h_files (c_host a) \<or> disk_has env b))"

lemma saves_trans: "saves env a b \<Longrightarrow> saves env b c \<Longrightarrow> saves env a c"
  by (auto simp: saves_def disk_has_def settings_path_def)

interpretation disk: io_frame "saves env"
proof
  show "saves env h h" for h by (simp add: saves_def)
qed (rule saves_trans)

definition serializes :: "ctrl_env \<Rightarrow> bool" where
  "serializes env \<longleftrightarrow> (\<forall>s. is_ok (to_string_pretty (ce_serde env) s))"

lemma settings_path_parts:
  assumes "ready c"
  shows "settings_path c = c_bundle c @ ''/'' @ ''settings.json''"
    and "path_parent (settings_path c) = Some (c_bundle c)" and "settings_path c \<noteq> ''/''"
    and "settings_path c \<noteq> c_bundle c"
proof -
  show p: "settings_path c = c_bundle c @ ''/'' @ ''settings.json''"
    using assms path_join_plain [of "c_bundle c" "''settings.json''"] by (simp add: ready_def settings_path_def)
  show "path_parent (settings_path c) = Some (c_bundle c)"
    unfolding p using assms by (intro path_parent_join) (auto simp: ready_def)
  show "settings_path c \<noteq> ''/''" "settings_path c \<noteq> c_bundle c" by (simp_all add: p)
qed

lemma upd_settings_saves:
  assumes "no_faults (ce_host env)" and "serializes env"
    and "c_bundle c = c_bundle a" and "h_files (c_host c) = h_files (c_host a)"
  shows "saves env a (upd_settings env f c)"
proof (cases "ready a")
  case False
  then show ?thesis by (simp add: saves_def)
next
  case True
  let ?c = "c\<lparr>c_settings := f (c_settings c)\<rparr>"
  have same: "settings_path ?c = settings_path a" using assms(3) by (simp add: settings_path_def)
  note path = settings_path_parts [OF True]
  obtain json where json: "to_string_pretty (ce_serde env) (f (c_settings c)) = Inr json"
    using assms(2) by (auto simp: serializes_def is_ok_iff)
  have host: "c_host ?c = c_host c" by (simp add: c_host_def)
  have no: "he_fault (ce_host env) n = None" for n using assms(1) by (simp add: no_faults_def)
  have "node_at (h_files (c_host c)) (settings_path a) \<noteq> Some Dir" "dir_ok (h_files (c_host c)) (c_bundle a)"
    using True assms(4) by (simp_all add: ready_def)
  then obtain g where g: "fs_write (ce_host env) (settings_path a) (bytes_of json) (c_host c) = (Inr (), g)"
    "h_files g = put_file (settings_path a) (bytes_of json) (h_files (c_host c))"
    by (auto simp: fs_write_def parent_there_def syscall_def Let_def no path(2))
  have d: "upd_settings env f c = set_host g ?c"
    using g(1) json by (simp add: upd_settings_def save_settings_def write_settings_def io_bind_try same host)
  obtain x where x: "node_at (h_files g) (settings_path a) = Some (File (bytes_of json) x)"
    using node_at_put_file [OF path(3)] g(2) by metis
  have "dir_ok (h_files g) (c_bundle a)"
    using True node_at_put_file_other [OF path(4) [symmetric]] assms(4) by (auto simp: g(2) dir_ok_def ready_def)
  then have "ready (upd_settings env f c)" using True x same assms(3) by (simp add: d ready_def settings_path_def)
  moreover have "disk_has env (upd_settings env f c)"
    using x json assms(3) by (simp add: d disk_has_def settings_path_def)
  ultimately show ?thesis using assms(3) by (simp add: saves_def)
qed

lemma saves_same:
  "c_bundle b = c_bundle a \<Longrightarrow> c_settings b = c_settings a \<Longrightarrow> h_files (c_host b) = h_files (c_host a) \<Longrightarrow> saves env a b"
  by (simp add: saves_def ready_def settings_path_def)

text \<open>Operations of the controller that save nothing.\<close>

lemma disk_sameI:
  "(\<And>c. c_bundle (snd (m c)) = c_bundle c \<and> c_settings (snd (m c)) = c_settings c
      \<and> h_files (c_host (snd (m c))) = h_files (c_host c)) \<Longrightarrow> disk.keeps env m"
  by (simp add: disk.keeps_def saves_same)

lemma c_host_sel [simp]:
  "c_host (c\<lparr>c_ds := d\<rparr>) = dm_host d" "c_host (set_ifaces r l c) = c_host c"
  by (simp_all add: c_host_def set_ifaces_def)

lemma set_ifaces_bundle: "c_bundle (set_ifaces r l c) = c_bundle c" by simp

definition sound :: "ctrl_env \<Rightarrow> bool" where
  "sound env \<longleftrightarrow> no_faults (ce_host env) \<and> serializes env"

lemma upd_saves:
  "sound env \<Longrightarrow> c_bundle c = c_bundle a \<Longrightarrow> h_files (c_host c) = h_files (c_host a) \<Longrightarrow>
   saves env a (upd_settings env f c)"
  by (simp add: sound_def upd_settings_saves)

lemma saves_refl: "saves env c c" "saves env c (tick c)"
  by (simp_all add: saves_same)

lemma methods_same_host:
  "dm_host (snd (ds_start a s)) = dm_host s" "dm_host (ds_stop s) = dm_host s"
  "dm_host (snd (ds_status_of e s)) = dm_host s" "dm_host (snd (send_command w1 w2 m s)) = dm_host s"
  "dm_host (snd (set_cheats w1 w2 b s)) = dm_host s"
  by (auto simp: ds_start_def ds_stop_def ds_status_of_def Let_def send_command_def set_cheats_def upd_live_def
      split: option.splits sum.splits prod.splits)

lemma mgr_step_host: "mgr_step pc s = Some t \<Longrightarrow> dm_host t = dm_host s"
  by (cases pc) (auto simp: Let_def upd_live_def abort_handle_def split: option.splits)

lemma mgr_finish_host [simp]: "dm_host (mgr_finish k s) = dm_host s"
  by (induction k arbitrary: s) (auto split: option.split dest: mgr_step_host)

lemma list_maps_files: "h_files (dm_host (snd (ds_list_maps env s))) = h_files (dm_host s)"
proof -
  obtain r h where f: "find_svends_inner env (dm_bundle s) (dm_os s) (dm_host s) = (r, h)" by fastforce
  have h: "h_files h = h_files (dm_host s)" using same_files.keepsD [OF search_same_files(2) f] .
  have k: "h_files (snd (list_maps_inner env d g)) = h_files g" for d g
    using same_files.keepsD [OF maps_same_files] by (metis prod.collapse)
  show ?thesis using h k by (simp add: ds_list_maps_def f case_prod_beta split: sum.split option.split)
qed

lemma session_ops_save:
  assumes "sound env"
  shows "disk.keeps env (start_bridge_server env a)" "disk.keeps env (stop_bridge_server env)"
    "disk.keeps env (start_client_session env b)" "disk.keeps env (stop_client env)"
  by (auto simp: disk.keeps_def start_bridge_server_def stop_bridge_server_def start_client_session_def stop_client_def
      saves_refl intro!: upd_saves [OF assms] split: sum.split option.split)

lemma restart_saves:
  assumes "sound env"
  shows "disk.keeps env (restart_bridge_server env)" "disk.keeps env (restart_client env)"
proof -
  have "disk.keeps env (io_bind (stop_bridge_server env) (\<lambda>_. start_bridge_server env a))"
    "disk.keeps env (io_bind (stop_client env) (\<lambda>_. start_client_session env b))" for a b
    by (intro disk.keeps_bind session_ops_save assms)+
  then show "disk.keeps env (restart_bridge_server env)" "disk.keeps env (restart_client env)"
    unfolding disk.keeps_def restart_bridge_server_def restart_client_def
    by (auto simp: saves_refl split: option.split)
qed

lemma interface_ops_save:
  assumes "sound env"
  shows "disk.keeps env (reattach env d)" "disk.keeps env (remove_interface env i)" "disk.keeps env (rename_interface env i name)"
proof -
  have attach: "saves env c (attach_and_record env s req name d c)" for s req name d c
    unfolding attach_and_record_def record_interface_def Let_def by (rule upd_saves [OF assms]) simp_all
  have unknown: "disk.keeps env (io_of (Inl e) :: (unit, controller) st)" for e by (rule disk.keeps_ret)
  show "disk.keeps env (reattach env d)"
    unfolding disk.keeps_def reattach_def Let_def
    by (auto simp: add_interface_tcp_def add_interface_auto_def add_interface_udp_def add_interface_websocket_def
        saves_refl intro: attach split: sum.split)
  show "disk.keeps env (remove_interface env i)"
    unfolding disk.keeps_def remove_interface_def
    by (auto simp: saves_refl intro!: upd_saves [OF assms] split: sum.split)
  show "disk.keeps env (rename_interface env i name)"
    by (rule disk_sameI) (auto simp: rename_interface_def split: sum.split prod.split bool.split)
qed

lemma saves_ds:
  "dm_host d = dm_host (c_ds c) \<Longrightarrow> saves env c (c\<lparr>c_ds := d\<rparr>)"
  "dm_host d = dm_host (c_ds c) \<Longrightarrow> saves env c ((tick c)\<lparr>c_ds := d\<rparr>)"
  by (simp_all add: saves_same c_host_def)

lemma ds_ops_save:
  assumes "sound env"
  shows "disk.keeps env (ds_start_ctl env a)" "disk.keeps env (ds_stop_ctl env)"
    "disk.keeps env (ds_changelevel env m)" "disk.keeps env (ds_set_cheats env b)"
proof -
  have start: "dm_host t = dm_host s" if "ds_start a s = (r, t)" for s r t
    using methods_same_host(1) [of a s] that by simp
  have send: "dm_host t = dm_host s" if "send_command w1 w2 k s = (r, t)" for w1 w2 k s r t
    using methods_same_host(4) [of w1 w2 k s] that by simp
  have cheat: "dm_host t = dm_host s" if "set_cheats w1 w2 b s = (r, t)" for w1 w2 s r t
    using methods_same_host(5) [of w1 w2 b s] that by simp
  show "disk.keeps env (ds_start_ctl env a)" "disk.keeps env (ds_stop_ctl env)"
    "disk.keeps env (ds_changelevel env m)" "disk.keeps env (ds_set_cheats env b)"
    unfolding disk.keeps_def ds_start_ctl_def ds_stop_ctl_def ds_changelevel_def ds_set_cheats_def
    by (auto intro!: upd_saves [OF assms] saves_ds dest!: start send cheat
        simp: methods_same_host c_host_def split: prod.split sum.split)
qed

lemma plain_ops_save:
  "disk.keeps env (announce_now_ctl env)" "disk.keeps env (trace_path env r h)" "disk.keeps env (wait_for_udp_bind env p n)"
  "disk.keeps env (on_host (launch he os p))" "disk.keeps env (ds_query env)"
  "disk.keeps env (shows_state f (ds_status_ctl env))" "disk.keeps env (shows_state g (state_of env))"
  "disk.keeps env (shows_state k (ds_list_maps_ctl env))"
proof -
  show "disk.keeps env (announce_now_ctl env)" by (rule disk_sameI) (simp add: announce_now_ctl_def)
  show "disk.keeps env (trace_path env r h)" by (rule disk_sameI) (simp add: trace_path_def Let_def split: sum.split)
  show "disk.keeps env (wait_for_udp_bind env p n)"
    by (rule disk_sameI) (simp add: wait_for_udp_bind_def split: prod.split)
  have "h_files (snd (launch he os p h)) = h_files h" for h
    using launch_outcome [of he os p h "fst (launch he os p h)" "snd (launch he os p h)"] by simp
  then show "disk.keeps env (on_host (launch he os p))"
    by (intro disk_sameI) (simp add: on_host_def case_prod_beta)
  have st: "c_bundle d = c_bundle c \<and> c_settings d = c_settings c \<and> h_files (c_host d) = h_files (c_host c)"
    if "ds_status_ctl env c = (x, d)" for c x d
    using that methods_same_host(3) [of "ce_try_wait_err env (c_clock c)" "c_ds c"]
    by (auto simp: ds_status_ctl_def c_host_def split: prod.splits)
  show "disk.keeps env (ds_query env)"
    by (rule disk_sameI) (auto simp: ds_query_def dest: st split: prod.split option.split)
  show "disk.keeps env (shows_state f (ds_status_ctl env))" "disk.keeps env (shows_state g (state_of env))"
    by (rule disk_sameI, auto simp: shows_state_def state_of_def Let_def dest: st split: prod.split)+
  show "disk.keeps env (shows_state k (ds_list_maps_ctl env))"
    by (rule disk_sameI) (use list_maps_files in \<open>auto simp: shows_state_def ds_list_maps_ctl_def c_host_def case_prod_beta\<close>)
qed


lemma connect_saves:
  assumes "sound env"
  shows "disk.keeps env (connect_and_launch env h)"
proof -
  have "disk.keeps env (io_bind (io_of (validate_hex_hash env h)) (\<lambda>_.
      let args = args\<lparr>server_hash := Some h\<rparr> in
      io_bind (stop_client env) (\<lambda>_.
      io_bind (start_client_session env args) (\<lambda>_.
      io_bind (wait_for_udp_bind env (listen_port args) 8000) (\<lambda>_.
        on_host (launch (ce_host env) (ce_os env) (listen_port args)))))))" for args
    unfolding Let_def by (intro disk.keeps_bind session_ops_save plain_ops_save disk.keeps_ret assms)
  then show ?thesis unfolding disk.keeps_def connect_and_launch_def by (auto simp: saves_refl split: option.split)
qed

lemma invoke_saves:
  assumes "sound env"
  shows "disk.keeps env (invoke env dir t)"
proof -
  have ret: "disk.keeps env m \<Longrightarrow> disk.keeps env (returns f m)" for f and m :: "('a, controller) st"
    unfolding returns_def by (intro disk.keeps_bind disk.keeps_ret)
  have still: "disk.keeps env (shows_state f (\<lambda>c. (g c, c)))" for f and g :: "controller \<Rightarrow> 'a"
    by (simp add: disk.keeps_def shows_state_def saves_refl)
  note ops = session_ops_save [OF assms] restart_saves [OF assms] interface_ops_save [OF assms] ds_ops_save [OF assms]
    connect_saves [OF assms]
  show ?thesis by (cases t) (simp_all add: ret still ops plain_ops_save add_is_reattach)
qed

lemma attempt_saves:
  assumes "disk.keeps env m"
  shows "saves env c (attempt what m c)"
proof -
  obtain r d where d: "m c = (r, d)" by fastforce
  have "saves env c d" using disk.keepsD [OF assms d] .
  moreover have "saves env d (d\<lparr>c_resume_errors := e\<rparr>)" for e by (rule saves_same) simp_all
  ultimately show ?thesis using saves_trans by (cases r) (auto simp: attempt_def d)
qed

lemma attempt_if_saves: "(\<And>a. disk.keeps env (f a)) \<Longrightarrow> saves env c (attempt_if w args what f c)"
  by (auto simp: attempt_if_def attempt_saves saves_refl split: option.split)

lemma dedup_saves:
  assumes "sound env"
  shows "saves env c (resume_dedup env c)"
proof (cases "distinct (map endpoint (set_interfaces (c_settings c)))")
  case True
  then have "dedup_interfaces (set_interfaces (c_settings c)) = (False, set_interfaces (c_settings c))"
    using ifaces.put_all_distinct [of "[]" "set_interfaces (c_settings c)"] by (simp add: dedup_eq)
  then show ?thesis by (simp add: resume_dedup_def saves_refl)
next
  case False
  then have "fst (dedup_interfaces (set_interfaces (c_settings c)))" by (simp add: dedup_eq ifaces.length_put_all_eq)
  then show ?thesis by (auto simp: resume_dedup_def intro: upd_saves [OF assms] split: prod.split)
qed

lemma resume_saves:
  assumes "sound env"
  shows "saves env c (resume env c)"
proof -
  have fold: "saves env d (fold (resume_interface env) l d)" for l d
  proof (induction l arbitrary: d)
    case (Cons i l)
    have "saves env d (resume_interface env i d)"
      unfolding resume_interface_def by (intro attempt_saves interface_ops_save assms)
    then show ?case using Cons saves_trans by fastforce
  qed (simp add: saves_refl)
  have bridge: "saves env d (resume_bridge env d)" for d
    unfolding resume_bridge_def Let_def
    by (rule saves_trans [OF attempt_if_saves attempt_if_saves]) (intro session_ops_save assms)+
  have rest: "saves env d (resume_rest env s d)" for d s
    unfolding resume_rest_def by (rule saves_trans [OF fold attempt_if_saves]) (intro ds_ops_save assms)
  have "saves env c (c\<lparr>c_resume_errors := []\<rparr>)" by (rule saves_same) simp_all
  then show ?thesis
    unfolding resume_def Let_def using dedup_saves [OF assms] bridge rest saves_trans by meson
qed

text \<open>Everything but the background task, whose downloads may be written anywhere.\<close>

definition foreground :: "ctl_event \<Rightarrow> bool" where
  "foreground e \<longleftrightarrow> (case e of Background _ \<Rightarrow> False | _ \<Rightarrow> True)"

lemma step_saves:
  assumes "sound env" and "ctl_step env ar home c e = Some d" and "foreground e"
  shows "saves env c d"
proof -
  have node: "saves env c d" if "upd_session r f c = Some d" for r f
    using that by (auto simp: upd_session_def intro!: saves_same split: if_splits)
  show ?thesis
  proof (cases e)
    case (Call t)
    then show ?thesis using assms(2) invoke_saves [OF assms(1), of home t] by (auto simp: disk.keeps_def)
  next
    case Resume
    then show ?thesis using assms(2) resume_saves [OF assms(1)] by auto
  qed (use assms(2,3) node in \<open>auto simp: foreground_def\<close>)
qed

lemma run_saves:
  assumes "ctl_run env ar home c es d" and "sound env" and "list_all foreground es"
  shows "saves env c d"
  using assms
proof (induction rule: ctl_run.induct)
  case (ctl_run_Cons c e d es f)
  then have "saves env c d" "saves env d f" using step_saves by auto
  then show ?case by (rule saves_trans)
qed (simp add: saves_refl)

subsection \<open>Loading again\<close>

definition stored :: "serde_env \<Rightarrow> files \<Rightarrow> path \<Rightarrow> settings option" where
  "stored se fs p = (case node_at fs p of Some (File bs _) \<Rightarrow> ok_opt (from_slice se bs) | _ \<Rightarrow> None)"

lemma load_is_stored:
  assumes "no_faults env"
  shows "\<exists>g. load_settings env se p h = (Inr (stored se (h_files h) p), g) \<and> h_files g = h_files h"
  using assms by (auto simp: load_settings_def io_bind_try fs_read_def syscall_def Let_def no_faults_def stored_def
      split: option.split node.split)

lemma controller_new_stored:
  assumes "no_faults (ce_host env)"
  shows "c_settings (controller_new env dir h) =
      (case stored (ce_serde env) (h_files h) (path_join dir ''settings.json'') of Some s \<Rightarrow> s | None \<Rightarrow> settings_new)"
    and "h_files (c_host (controller_new env dir h)) = h_files h" and "c_bundle (controller_new env dir h) = dir"
proof -
  obtain g where g: "load_settings (ce_host env) (ce_serde env) (path_join dir ''settings.json'') h =
      (Inr (stored (ce_serde env) (h_files h) (path_join dir ''settings.json'')), g)" "h_files g = h_files h"
    using load_is_stored [OF assms] by blast
  have "dm_host (ds_new dir os g) = g" for os by (simp add: ds_new_def)
  then show "h_files (c_host (controller_new env dir h)) = h_files h"
    using g by (simp add: controller_new_def Let_def c_host_def)
  show "c_bundle (controller_new env dir h) = dir" by (simp add: controller_new_def Let_def split: prod.split)
  show "c_settings (controller_new env dir h) =
      (case stored (ce_serde env) (h_files h) (path_join dir ''settings.json'') of Some s \<Rightarrow> s | None \<Rightarrow> settings_new)"
    by (auto simp: controller_new_def Let_def g(1) split: option.split)
qed

lemma settings_reload:
  assumes "ctl_run env ar home (controller_new env dir h) es c" and "list_all foreground es"
    and "ready (controller_new env dir h)" and "no_faults (ce_host env)" and "serializes env"
    and "serde_ok (ce_serde env) (c_settings c)"
  shows "c_settings (controller_new env dir (c_host c)) = c_settings c"
proof -
  let ?c = "controller_new env dir h"
  note new = controller_new_stored [OF assms(4)]
  have s: "saves env ?c c" using run_saves [OF assms(1) _ assms(2)] assms(4,5) by (simp add: sound_def)
  then have b: "c_bundle c = dir" using assms(3) new(3) by (simp add: saves_def)
  from s assms(3) consider "c_settings c = c_settings ?c" "h_files (c_host c) = h_files (c_host ?c)" | "disk_has env c"
    by (auto simp: saves_def)
  then show ?thesis
  proof cases
    case 1
    then show ?thesis by (simp add: new)
  next
    case 2
    then obtain json x where j: "to_string_pretty (ce_serde env) (c_settings c) = Inr json"
      "node_at (h_files (c_host c)) (path_join dir ''settings.json'') = Some (File (bytes_of json) x)"
      by (auto simp: disk_has_def settings_path_def b)
    then have "stored (ce_serde env) (h_files (c_host c)) (path_join dir ''settings.json'') = Some (c_settings c)"
      using assms(6) by (auto simp: stored_def serde_ok_def)
    then show ?thesis by (simp add: new(1))
  qed
qed

text \<open>
  C10: as long as files can be written, a controller created over the same directory between any
  two calls has the settings of the running one: whatever was called, and however the calls
  ended, the file is never behind the memory, so a crash between calls loses no setting.
\<close>

theorem settings_survive:
  assumes "ctl_run env ar home (controller_new env dir h) es c" and "list_all foreground es"
    and "ready (controller_new env dir h)" and "no_faults (ce_host env)" and "serializes env"
    and "serde_ok (ce_serde env) (c_settings c)"
  shows "c_settings (controller_new env dir (c_host c)) = c_settings c"
  by (rule settings_reload [OF assms])

subsection \<open>A write that fails half way\<close>

text \<open>\<open>fs::write\<close> empties the file first: what a failed save leaves is an initial part of the text.\<close>

lemma torn_save_node:
  assumes "ready c" and "to_string_pretty (ce_serde env) (c_settings c) = Inr json"
    and "he_fault (ce_host env) (h_calls (c_host c)) = Some e" and "he_torn (ce_host env) (h_calls (c_host c)) = Some k"
  shows "\<exists>x. node_at (h_files (c_host (save_settings env c))) (settings_path c) = Some (File (take k (bytes_of json)) x)"
proof -
  note path = settings_path_parts [OF assms(1)]
  have there: "node_at (h_files (c_host c)) (settings_path c) \<noteq> Some Dir" "parent_there (settings_path c) (h_files (c_host c))"
    using assms(1) by (simp_all add: ready_def parent_there_def path(2))
  let ?r = "fs_write (ce_host env) (settings_path c) (bytes_of json) (c_host c)"
  have w: "h_files (snd ?r) = put_file (settings_path c) (take k (bytes_of json)) (h_files (c_host c))"
    using assms(3,4) there by (simp add: fs_write_def torn_def syscall_def Let_def)
  have "h_files (c_host (save_settings env c)) = h_files (snd ?r)"
    by (cases ?r) (auto simp: save_settings_def write_settings_def io_bind_def io_try_def assms(2) split: sum.split)
  then show ?thesis using node_at_put_file [OF path(3)] w by metis
qed

text \<open>
  C12: the settings file is written in place.  When a save fails half way and what it has left does
  not parse, the running controller still has its settings, but the ones saved before are gone too: the
  next start comes up with the defaults.
\<close>

theorem torn_save_loses_settings:
  assumes "ready c" and "stored (ce_serde env) (h_files (c_host c)) (settings_path c) = Some saved"
    and "to_string_pretty (ce_serde env) (c_settings c) = Inr json"
    and "he_fault (ce_host env) (h_calls (c_host c)) = Some e" and "he_torn (ce_host env) (h_calls (c_host c)) = Some k"
    and "from_slice (ce_serde env) (take k (bytes_of json)) = Inl bad"
    and "no_faults (ce_host later)" and "ce_serde later = ce_serde env"
  shows "c_settings (controller_new later (c_bundle c) (c_host c)) = saved
    \<and> c_settings (save_settings env c) = c_settings c
    \<and> c_settings (controller_new later (c_bundle c) (c_host (save_settings env c))) = settings_new"
proof -
  note new = controller_new_stored(1) [OF assms(7), unfolded assms(8), of "c_bundle c", folded settings_path_def]
  show ?thesis using torn_save_node [OF assms(1,3,4,5)] assms(2,6) by (auto simp: new stored_def)
qed

end
