(* ===== verification/Session_Slots.thy ===== *)
theory Session_Slots
  imports Controller_Runs
begin

text \<open>
  What the controller promises about its two sessions, as a specification of its own: two slots,
  each with a session that is or is not there, the arguments of the last start and
  whether it runs again at the next boot.  The commands of the shells implement it.
\<close>

record 'a slot =
  sl_up :: bool
  sl_args :: "'a option"
  sl_wanted :: bool

datatype 'a slot_op =
  OpNone
| OpStart 'a
| OpStop
| OpRestart
| OpReplace "'a \<Rightarrow> 'a"
| OpResume

text \<open>The flag says whether the start that the operation makes succeeds; a slot in use refuses one.\<close>

fun slot_start :: "'a \<Rightarrow> bool \<Rightarrow> 'a slot \<Rightarrow> 'a slot" where
  "slot_start a ok s = (if ok \<and> \<not> sl_up s then \<lparr>sl_up = True, sl_args = Some a, sl_wanted = True\<rparr> else s)"

definition slot_stop :: "'a slot \<Rightarrow> 'a slot" where
  "slot_stop s = s\<lparr>sl_up := False, sl_wanted := False\<rparr>"

fun slot_next :: "'a slot_op \<Rightarrow> bool \<Rightarrow> 'a slot \<Rightarrow> 'a slot" where
  "slot_next OpNone ok s = s"
| "slot_next (OpStart a) ok s = slot_start a ok s"
| "slot_next OpStop ok s = slot_stop s"
| "slot_next OpRestart ok s = (case sl_args s of None \<Rightarrow> s | Some a \<Rightarrow> slot_start a ok (slot_stop s))"
| "slot_next (OpReplace f) ok s = (case sl_args s of None \<Rightarrow> s | Some a \<Rightarrow> slot_start (f a) ok (slot_stop s))"
| "slot_next OpResume ok s =
     (if sl_wanted s then (case sl_args s of None \<Rightarrow> s | Some a \<Rightarrow> slot_start a ok s) else s)"

subsection \<open>One slot\<close>

context session_slot
begin

definition slot :: "'s \<Rightarrow> 'a slot" where
  "slot c = \<lparr>sl_up = up c, sl_args = last_args c, sl_wanted = wanted c\<rparr>"

lemma start_refines:
  assumes "start a c = (r, d)"
  shows "slot d = slot_start a (is_ok r) (slot c) \<and> (is_ok r \<longrightarrow> \<not> sl_up (slot c))"
  using start_ok [of a c _ d] start_fails [of a c _ d] assms by (cases r) (auto simp: slot_def)

lemma stop_refines: "stop c = (r, d) \<Longrightarrow> r = Inr () \<and> slot d = slot_stop (slot c)"
  using stop_ok [of c] by (auto simp: slot_def slot_stop_def)

lemma replace_refines:
  assumes "io_bind stop (\<lambda>_. start a) c = (r, d)"
  shows "slot d = slot_start a (is_ok r) (slot_stop (slot c))"
proof -
  obtain k where k: "stop c = (Inr (), k)" using stop_ok [of c] by blast
  then have "start a k = (r, d)" using assms by (simp add: io_bind_def)
  then show ?thesis using start_refines stop_refines [OF k] by metis
qed

lemma restart_refines:
  assumes "restart c = (r, d)"
  shows "slot d = slot_next OpRestart (is_ok r) (slot c)"
proof (cases "last_args c")
  case None
  then show ?thesis using restart_first [OF None] assms by (auto simp: slot_def)
next
  case (Some a)
  then show ?thesis using replace_refines [of a c r d] restart_is [OF Some] assms by (simp add: slot_def)
qed

end

definition server_slot :: "controller \<Rightarrow> server_args slot" where
  "server_slot c = \<lparr>sl_up = server_up c, sl_args = c_last_server c, sl_wanted = set_bridge_running (c_settings c)\<rparr>"

definition client_slot :: "controller \<Rightarrow> client_args slot" where
  "client_slot c = \<lparr>sl_up = client_up c, sl_args = c_last_client c, sl_wanted = set_client_running (c_settings c)\<rparr>"

lemma slot_eqs: "srv.slot = server_slot" "cli.slot = client_slot"
  by (simp_all add: fun_eq_iff srv.slot_def cli.slot_def server_slot_def client_slot_def)


subsection \<open>The other slot\<close>

interpretation server_kept: io_frame "\<lambda>a b. server_slot b = server_slot a"
  by unfold_locales auto

interpretation client_kept: io_frame "\<lambda>a b. client_slot b = client_slot a"
  by unfold_locales auto

lemmas slot_views = server_slot_def client_slot_def server_up_def client_up_def

lemma slot_of_view:
  "srv_view k = srv_view c \<Longrightarrow> server_slot k = server_slot c"
  "cli_view k = cli_view c \<Longrightarrow> client_slot k = client_slot c"
proof -
  have srv: "server_slot x = (case srv_view x of (s, a, _, w) \<Rightarrow> \<lparr>sl_up = s \<noteq> None, sl_args = a, sl_wanted = w\<rparr>)" for x
    by (simp add: srv_view_def slot_views)
  have cli: "client_slot x = (case cli_view x of (s, a, _, w) \<Rightarrow> \<lparr>sl_up = s \<noteq> None, sl_args = a, sl_wanted = w\<rparr>)" for x
    by (simp add: cli_view_def slot_views)
  show "srv_view k = srv_view c \<Longrightarrow> server_slot k = server_slot c" "cli_view k = cli_view c \<Longrightarrow> client_slot k = client_slot c"
    by (simp_all add: srv cli)
qed

lemma view_slots:
  assumes "iface_view k = iface_view c"
  shows "server_slot k = server_slot c" "client_slot k = client_slot c"
  using slot_of_view iface_view_views [OF assms] by blast+

lemma view_kept:
  assumes "\<And>c. iface_view (snd (m c)) = iface_view c"
  shows "server_kept.keeps m" "client_kept.keeps m"
  using view_slots [OF assms] by (simp_all add: server_kept.keeps_def client_kept.keeps_def)

lemma slots_sel [simp]:
  "server_slot (c\<lparr>c_ds := d\<rparr>) = server_slot c" "client_slot (c\<lparr>c_ds := d\<rparr>) = client_slot c"
  "server_slot (tick c) = server_slot c" "client_slot (tick c) = client_slot c"
  by (simp_all add: slot_views)

lemma crosswise:
  "client_kept.keeps (start_bridge_server env a)" "client_kept.keeps (stop_bridge_server env)"
  "server_kept.keeps (start_client_session env b)" "server_kept.keeps (stop_client env)"
  unfolding server_kept.keeps_def client_kept.keeps_def
  by (auto simp: slot_views start_bridge_server_def stop_bridge_server_def
      start_client_session_def stop_client_def split: sum.split option.split)

lemma crosswise_restart: "client_kept.keeps (restart_bridge_server env)" "server_kept.keeps (restart_client env)"
proof -
  have "client_kept.keeps (io_bind (stop_bridge_server env) (\<lambda>_. start_bridge_server env a))"
    "server_kept.keeps (io_bind (stop_client env) (\<lambda>_. start_client_session env b))" for a b
    by (intro server_kept.keeps_bind client_kept.keeps_bind crosswise)+
  then show "client_kept.keeps (restart_bridge_server env)" "server_kept.keeps (restart_client env)"
    unfolding server_kept.keeps_def client_kept.keeps_def restart_bridge_server_def restart_client_def
    by (auto split: option.split)
qed

lemma interfaces_apart:
  "server_kept.keeps (reattach env d)" "client_kept.keeps (reattach env d)"
  "server_kept.keeps (remove_interface env i)" "client_kept.keeps (remove_interface env i)"
  "server_kept.keeps (rename_interface env i name)" "client_kept.keeps (rename_interface env i name)"
proof -
  show "server_kept.keeps (reattach env d)" "client_kept.keeps (reattach env d)" by (rule view_kept, rule reattach_view)+
  have "iface_view (snd (remove_interface env i c)) = iface_view c" for c
    by (simp add: remove_interface_def split: sum.split prod.split)
  then show "server_kept.keeps (remove_interface env i)" "client_kept.keeps (remove_interface env i)" by (rule view_kept)+
  have "iface_view (snd (rename_interface env i name c)) = iface_view c" for c
    by (simp add: rename_interface_def split: sum.split prod.split bool.split)
  then show "server_kept.keeps (rename_interface env i name)" "client_kept.keeps (rename_interface env i name)"
    by (rule view_kept)+
qed

lemma plain_apart:
  "server_kept.keeps (announce_now_ctl env)" "client_kept.keeps (announce_now_ctl env)"
  "server_kept.keeps (trace_path env r h)" "client_kept.keeps (trace_path env r h)"
  "server_kept.keeps (wait_for_udp_bind env p n)" "client_kept.keeps (wait_for_udp_bind env p n)"
  "server_kept.keeps (on_host m)" "client_kept.keeps (on_host m)"
proof -
  have "iface_view (snd (announce_now_ctl env c)) = iface_view c" for c by (simp add: announce_now_ctl_def)
  then show "server_kept.keeps (announce_now_ctl env)" "client_kept.keeps (announce_now_ctl env)" by (rule view_kept)+
  have "iface_view (snd (trace_path env r h c)) = iface_view c" for c
    by (simp add: trace_path_def Let_def split: sum.split)
  then show "server_kept.keeps (trace_path env r h)" "client_kept.keeps (trace_path env r h)" by (rule view_kept)+
  have "iface_view (snd (wait_for_udp_bind env p n c)) = iface_view c" for c
    by (simp add: wait_for_udp_bind_def plain_views split: prod.split)
  then show "server_kept.keeps (wait_for_udp_bind env p n)" "client_kept.keeps (wait_for_udp_bind env p n)"
    by (rule view_kept)+
  have "iface_view (snd (on_host m c)) = iface_view c" for c by (simp add: on_host_def split: prod.split)
  then show "server_kept.keeps (on_host m)" "client_kept.keeps (on_host m)" by (rule view_kept)+
qed

lemma ds_apart:
  "server_kept.keeps (ds_start_ctl env a)" "client_kept.keeps (ds_start_ctl env a)"
  "server_kept.keeps (ds_stop_ctl env)" "client_kept.keeps (ds_stop_ctl env)"
  "server_kept.keeps (ds_changelevel env m)" "client_kept.keeps (ds_changelevel env m)"
  "server_kept.keeps (ds_set_cheats env b)" "client_kept.keeps (ds_set_cheats env b)"
  unfolding server_kept.keeps_def client_kept.keeps_def
  by (auto simp: slot_views ds_start_ctl_def ds_stop_ctl_def
      ds_changelevel_def ds_set_cheats_def upd_saved_ds_def split: prod.split sum.split)

lemma showing_apart:
  "server_kept.keeps (shows_state f (ds_status_ctl env))" "client_kept.keeps (shows_state f (ds_status_ctl env))"
  "server_kept.keeps (shows_state g (state_of env))" "client_kept.keeps (shows_state g (state_of env))"
  "server_kept.keeps (shows_state k (ds_list_maps_ctl env))" "client_kept.keeps (shows_state k (ds_list_maps_ctl env))"
  "server_kept.keeps (ds_query env)" "client_kept.keeps (ds_query env)"
proof -
  have s: "server_slot d = server_slot c \<and> client_slot d = client_slot c" if "ds_status_ctl env c = (x, d)" for c x d
    using that by (auto simp: ds_status_ctl_def split: prod.splits)
  show "server_kept.keeps (shows_state f (ds_status_ctl env))" "client_kept.keeps (shows_state f (ds_status_ctl env))"
    "server_kept.keeps (shows_state g (state_of env))" "client_kept.keeps (shows_state g (state_of env))"
    "server_kept.keeps (shows_state k (ds_list_maps_ctl env))" "client_kept.keeps (shows_state k (ds_list_maps_ctl env))"
    unfolding server_kept.keeps_def client_kept.keeps_def
    by (auto simp: shows_state_def state_of_def ds_list_maps_ctl_def Let_def
        dest: s split: prod.split)
  show "server_kept.keeps (ds_query env)" "client_kept.keeps (ds_query env)"
    unfolding server_kept.keeps_def client_kept.keeps_def
    by (auto simp: ds_query_def dest: s split: prod.split option.split)
qed

subsection \<open>Every command is an operation of the two slots\<close>

text \<open>What a command means for the server's slot and for the client's.\<close>

fun server_op :: "path \<Rightarrow> tauri_command \<Rightarrow> server_args slot_op" where
  "server_op bundle (StartBridgeServer host port tcp auto interval name) =
     OpStart (gui_server_args bundle host port tcp auto interval name)"
| "server_op bundle StopBridgeServer = OpStop"
| "server_op bundle RestartBridgeServer = OpRestart"
| "server_op bundle _ = OpNone"

fun client_op :: "ctrl_env \<Rightarrow> path \<Rightarrow> tauri_command \<Rightarrow> client_args slot_op" where
  "client_op env bundle (StartClient port hash tcp auto) = OpStart (gui_client_args bundle port hash tcp auto)"
| "client_op env bundle StopClient = OpStop"
| "client_op env bundle RestartClient = OpRestart"
| "client_op env bundle (ConnectAndLaunch hash) =
     (if validate_hex_hash env hash = Inr () then OpReplace (\<lambda>a. a\<lparr>server_hash := Some hash\<rparr>) else OpNone)"
| "client_op env bundle _ = OpNone"

lemma io_bind_assoc: "io_bind (io_bind m f) g = io_bind m (\<lambda>x. io_bind (f x) g)"
  by (auto simp: fun_eq_iff io_bind_def split: prod.split sum.split)

lemma io_bind_of: "io_bind (io_of (Inr x)) f = f x" "io_bind (io_of (Inl e)) f = io_of (Inl e)"
  by (simp_all add: fun_eq_iff io_bind_def)

text \<open>
  Whether the start within a client command succeeds.  For most commands this is the success of the
  command; what comes after the start of a connect may still fail.
\<close>

definition client_started :: "ctrl_env \<Rightarrow> path \<Rightarrow> tauri_command \<Rightarrow> controller \<Rightarrow> bool" where
  "client_started env bundle t c =
     (case t of
        ConnectAndLaunch hash \<Rightarrow>
          (case c_last_client c of
             None \<Rightarrow> False
           | Some a \<Rightarrow> is_ok (fst (io_bind (stop_client env) (\<lambda>_. start_client_session env (a\<lparr>server_hash := Some hash\<rparr>)) c)))
      | _ \<Rightarrow> is_ok (fst (invoke env bundle t c)))"

lemma connect_refines:
  fixes home :: path
  assumes "connect_and_launch env hash c = (r, d)"
  defines "ok \<equiv> client_started env home (ConnectAndLaunch hash) c"
  shows "server_slot d = server_slot c \<and> (is_ok r \<longrightarrow> ok)
    \<and> client_slot d = slot_next (client_op env home (ConnectAndLaunch hash)) ok (client_slot c)"
proof (cases "c_last_client c")
  case None
  then show ?thesis using assms by (auto simp: connect_and_launch_def client_slot_def is_ok_def)
next
  case (Some args)
  show ?thesis
  proof (cases "validate_hex_hash env hash")
    case (Inl e)
    then have "r = Inl e \<and> d = c" using assms(1) by (simp add: connect_and_launch_def Some io_bind_of)
    then show ?thesis using Inl by (simp add: is_ok_def)
  next
    case valid: (Inr u)
    let ?a = "args\<lparr>server_hash := Some hash\<rparr>"
    let ?wait = "\<lambda>_ :: unit. io_bind (wait_for_udp_bind env (listen_port ?a) 8000) (\<lambda>_.
      on_host (launch (ce_host env) (ce_os env) (listen_port ?a)))"
    let ?m = "io_bind (stop_client env) (\<lambda>_. start_client_session env ?a)"
    obtain q k where k: "?m c = (q, k)" by fastforce
    have kept: "server_kept.keeps (?wait x)" "client_kept.keeps (?wait x)" for x
      by (intro server_kept.keeps_bind client_kept.keeps_bind plain_apart)+
    have "server_kept.keeps (io_bind (stop_client env) (\<lambda>_. start_client_session env ?a))"
      by (intro server_kept.keeps_bind crosswise)
    then have srv: "server_slot k = server_slot c" using server_kept.keepsD k by blast
    have cli: "client_slot k = slot_start ?a (is_ok q) (slot_stop (client_slot c))"
      using cli.replace_refines [OF k] by (simp add: slot_eqs)
    have flag: "ok = is_ok q" using k by (simp add: ok_def client_started_def Some)
    have whole: "io_bind (io_bind (stop_client env) (\<lambda>_. start_client_session env ?a)) ?wait c = (r, d)"
      using assms(1) by (simp add: connect_and_launch_def Some valid Let_def io_bind_assoc io_bind_of)
    have rest: "server_slot d = server_slot k \<and> client_slot d = client_slot k \<and> (is_ok r \<longrightarrow> is_ok q)"
    proof (cases q)
      case (Inl e)
      then show ?thesis using whole io_bind_step(2) [of ?m c e k ?wait] k by (auto simp: is_ok_def)
    next
      case (Inr x)
      then have "?wait x k = (r, d)" using whole io_bind_step(1) [of ?m c x k ?wait] k by simp
      then show ?thesis using server_kept.keepsD [OF kept(1)] client_kept.keepsD [OF kept(2)] Inr by (auto simp: is_ok_def)
    qed
    have "sl_args (client_slot c) = Some args" using Some by (simp add: client_slot_def)
    then have "client_slot d = slot_next (client_op env home (ConnectAndLaunch hash)) (is_ok q) (client_slot c)"
      using rest cli valid by simp
    then show ?thesis using rest srv unfolding flag by simp
  qed
qed


lemma calls_refine:
  assumes "invoke env bundle t c = (r, d)"
  shows "server_slot d = slot_next (server_op bundle t) (is_ok r) (server_slot c)"
    and "client_slot d = slot_next (client_op env bundle t) (client_started env bundle t c) (client_slot c)
      \<and> (is_ok r \<longrightarrow> client_started env bundle t c)"
proof -
  have answered: "\<exists>q. m c = (q, d) \<and> is_ok q = is_ok r" if "returns f m c = (r, d)" for f and m :: "('a, controller) st"
    using that by (auto simp: returns_def io_bind_def is_ok_def split: prod.splits sum.splits)
  have kept: "server_kept.keeps m \<Longrightarrow> server_kept.keeps (returns f m)"
    "client_kept.keeps m \<Longrightarrow> client_kept.keeps (returns f m)" for f and m :: "('a, controller) st"
    unfolding returns_def by (simp_all add: server_kept.keeps_bind client_kept.keeps_bind)
  have still: "server_kept.keeps (shows_state f (\<lambda>c. (g c, c)))" "client_kept.keeps (shows_state f (\<lambda>c. (g c, c)))"
    for f and g :: "controller \<Rightarrow> 'a"
    by (simp_all add: server_kept.keeps_def client_kept.keeps_def shows_state_def)
  note apart = kept still crosswise crosswise_restart interfaces_apart plain_apart ds_apart showing_apart add_is_reattach
  note srv = srv.start_refines [unfolded slot_eqs, THEN conjunct1] srv.stop_refines [unfolded slot_eqs, THEN conjunct2]
    srv.restart_refines [unfolded slot_eqs slot_next.simps]
  note cli = cli.start_refines [unfolded slot_eqs, THEN conjunct1] cli.stop_refines [unfolded slot_eqs, THEN conjunct2]
    cli.restart_refines [unfolded slot_eqs slot_next.simps]
  show "server_slot d = slot_next (server_op bundle t) (is_ok r) (server_slot c)"
  proof (cases "server_op bundle t = OpNone")
    case True
    then have "server_kept.keeps (invoke env bundle t) \<or> (\<exists>hash. t = ConnectAndLaunch hash)"
      by (cases t) (simp_all add: apart)
    then show ?thesis
    proof
      assume "server_kept.keeps (invoke env bundle t)"
      then show ?thesis using server_kept.keepsD assms True by fastforce
    next
      assume "\<exists>hash. t = ConnectAndLaunch hash"
      then obtain hash where t: "t = ConnectAndLaunch hash" by blast
      then obtain q where "connect_and_launch env hash c = (q, d)" using assms answered by fastforce
      then show ?thesis using connect_refines t by fastforce
    qed
  next
    case False
    then show ?thesis using assms by (cases t) (auto dest!: answered dest: srv simp del: slot_start.simps cong: option.case_cong)
  qed
  show "client_slot d = slot_next (client_op env bundle t) (client_started env bundle t c) (client_slot c)
      \<and> (is_ok r \<longrightarrow> client_started env bundle t c)"
  proof (cases "\<exists>hash. t = ConnectAndLaunch hash")
    case True
    then obtain hash q where "t = ConnectAndLaunch hash" "connect_and_launch env hash c = (q, d)" "is_ok q = is_ok r"
      using assms answered by fastforce
    then show ?thesis using connect_refines [of env hash c q d "bundle"] by auto
  next
    case other: False
    then have flag: "client_started env bundle t c = is_ok r" using assms by (cases t) (simp_all add: client_started_def)
    have "client_slot d = slot_next (client_op env bundle t) (is_ok r) (client_slot c)"
    proof (cases "client_op env bundle t = OpNone")
      case True
      then have "client_kept.keeps (invoke env bundle t)" using other by (cases t) (simp_all add: apart)
      then show ?thesis using client_kept.keepsD assms True by fastforce
    next
      case False
      then show ?thesis using assms other by (cases t) (auto dest!: answered dest: cli simp del: slot_start.simps cong: option.case_cong)
    qed
    then show ?thesis using flag by simp
  qed
qed


subsection \<open>A resume\<close>

text \<open>Whether the last resume has recorded that a component could not be started.\<close>

definition reported :: "string \<Rightarrow> controller \<Rightarrow> bool" where
  "reported what c \<longleftrightarrow> (\<exists>e. what @ '': '' @ e \<in> set (c_resume_errors c))"

lemma attempt_reported:
  assumes "c_resume_errors (snd (m c)) = c_resume_errors c"
  shows "reported w (attempt what m c) \<longleftrightarrow>
     reported w c \<or> (\<exists>e x. fst (m c) = Inl e \<and> w @ '': '' @ x = what @ '': '' @ e)"
  using assms by (cases "m c") (auto simp: attempt_def reported_def split: sum.split)

lemma attempt_if_reported:
  assumes "\<And>a. c_resume_errors (snd (f a c)) = c_resume_errors c" and "\<And>e x. w @ '': '' @ x \<noteq> what @ '': '' @ e"
  shows "reported w (attempt_if wanted args what f c) = reported w c"
  using assms attempt_reported [where c = c and w = w and what = what] by (auto simp: attempt_if_def split: option.split)

lemma start_errors:
  "c_resume_errors (snd (start_bridge_server env a c)) = c_resume_errors c"
  "c_resume_errors (snd (start_client_session env b c)) = c_resume_errors c"
  "c_resume_errors (snd (ds_start_ctl env x c)) = c_resume_errors c"
  "c_resume_errors (snd (reattach env i c)) = c_resume_errors c"
  using iface_viewD(4) [OF reattach_view [of env i c]]
  by (auto simp: start_bridge_server_def start_client_session_def ds_start_ctl_def split: prod.split sum.split)

lemma attempt_slot:
  fixes V :: "controller \<Rightarrow> 'a slot" and f :: "'a \<Rightarrow> (unit, controller) st"
  assumes "\<And>a d r. f a c = (r, d) \<Longrightarrow> V d = slot_start a (is_ok r) (V c)"
    and "\<And>c e. V (c\<lparr>c_resume_errors := e\<rparr>) = V c"
    and "\<And>a. c_resume_errors (snd (f a c)) = c_resume_errors c" and "\<not> reported what c"
  defines "d \<equiv> attempt_if (sl_wanted (V c)) (sl_args (V c)) what f c"
  shows "V d = slot_next OpResume (\<not> reported what d) (V c)"
proof (cases "sl_wanted (V c) \<and> sl_args (V c) \<noteq> None")
  case False
  then show ?thesis by (auto simp: d_def attempt_if_def split: option.split)
next
  case True
  then obtain a where a: "sl_wanted (V c)" "sl_args (V c) = Some a" by blast
  then have d: "d = attempt what (f a) c" by (simp add: d_def attempt_if_def)
  obtain r k where k: "f a c = (r, k)" by fastforce
  have "V d = V k" using assms(2) by (simp add: d attempt_def k split: sum.split)
  moreover have "reported what d \<longleftrightarrow> \<not> is_ok r"
    using attempt_reported [where m = "f a" and c = c and w = what and what = what] assms(3) [of a] assms(4) k by (cases r) (simp_all add: d is_ok_def)
  ultimately show ?thesis using assms(1) [OF k] a by simp
qed

lemma attempt_kept:
  assumes "\<And>c e. V (c\<lparr>c_resume_errors := e\<rparr>) = V c" and "\<And>a. V (snd (f a c)) = V c"
  shows "V (attempt_if w args what f c) = V c"
proof -
  have "V (attempt what (f a) c) = V c" for a
    using assms(1) assms(2) [of a] by (auto simp: attempt_def split: prod.split sum.split)
  then show ?thesis by (simp add: attempt_if_def split: option.split)
qed

lemma slots_errors [simp]:
  "server_slot (c\<lparr>c_resume_errors := e\<rparr>) = server_slot c" "client_slot (c\<lparr>c_resume_errors := e\<rparr>) = client_slot c"
  by (simp_all add: slot_views)

lemma resume_refines:
  assumes "c_last_server c = set_bridge (c_settings c)" and "c_last_client c = set_client (c_settings c)"
  shows "server_slot (resume env c) = slot_next OpResume (\<not> reported ''bridge server'' (resume env c)) (server_slot c)"
    and "client_slot (resume env c) = slot_next OpResume (\<not> reported ''bridge client'' (resume env c)) (client_slot c)"
proof -
  let ?b = "resume_dedup env (c\<lparr>c_resume_errors := []\<rparr>)"
  let ?s = "c_settings ?b"
  let ?m = "attempt_if (set_bridge_running ?s) (set_bridge ?s) ''bridge server'' (start_bridge_server env) ?b"
  let ?d = "attempt_if (set_client_running ?s) (set_client ?s) ''bridge client'' (start_client_session env) ?m"
  have res: "resume env c = resume_rest env ?s ?d" by (simp add: resume_def resume_bridge_def Let_def)
  have views: "srv_view ?b = srv_view c" "cli_view ?b = cli_view c"
    using resume_dedup_eq(1,2) by (simp_all add: srv_view_def cli_view_def)
  have b: "server_slot ?b = server_slot c" "client_slot ?b = client_slot c"
    using slot_of_view views by blast+
  have saved: "set_bridge_running ?s = sl_wanted (server_slot ?b)" "set_bridge ?s = sl_args (server_slot ?b)"
      "set_client_running ?s = sl_wanted (client_slot ?b)" "set_client ?s = sl_args (client_slot ?b)"
    using assms views by (auto simp: srv_view_def cli_view_def server_slot_def client_slot_def)
  have iface: "server_slot (resume_interface env i k) = server_slot k \<and> client_slot (resume_interface env i k) = client_slot k" for i k
    using attempt_kept [of server_slot "\<lambda>_ :: unit. reattach env i" k True "Some ()"]
      attempt_kept [of client_slot "\<lambda>_ :: unit. reattach env i" k True "Some ()"] interfaces_apart(1,2) [of env i]
    by (simp add: resume_interface_def attempt_if_def server_kept.keeps_def client_kept.keeps_def)
  have fold: "server_slot (fold (resume_interface env) l k) = server_slot k
      \<and> client_slot (fold (resume_interface env) l k) = client_slot k" for l k
    by (induction l arbitrary: k) (simp_all add: iface)
  have rest: "server_slot (resume_rest env s k) = server_slot k \<and> client_slot (resume_rest env s k) = client_slot k" for s k
  proof -
    let ?k = "fold (resume_interface env) (set_interfaces s) k"
    have "server_slot (resume_rest env s k) = server_slot ?k" "client_slot (resume_rest env s k) = client_slot ?k"
      unfolding resume_rest_def
      by (rule attempt_kept, simp, use ds_apart(1,2) in \<open>simp add: server_kept.keeps_def client_kept.keeps_def\<close>)+
    then show ?thesis using fold by simp
  qed
  have empty: "\<not> reported w ?b" for w by (simp add: reported_def resume_dedup_eq)
  have other: "reported ''bridge server'' ?d = reported ''bridge server'' ?m" "reported ''bridge client'' ?m = reported ''bridge client'' ?b"
    by (intro attempt_if_reported start_errors; simp)+
  have iface_err: "reported w (resume_interface env i k) = reported w k" if "w \<in> {''bridge server'', ''bridge client''}" for w i k
    using that attempt_reported [where m = "reattach env i" and w = w and what = "''interface '' @ show_debug (addr_or_kind i)"]
      start_errors(4)
    by (auto simp: resume_interface_def)
  have fold_err: "reported w (fold (resume_interface env) l k) = reported w k" if "w \<in> {''bridge server'', ''bridge client''}" for w l k
    by (induction l arbitrary: k) (simp_all add: iface_err [OF that])
  have rest_err: "reported w (resume_rest env s k) = reported w k" if "w \<in> {''bridge server'', ''bridge client''}" for w s k
    using attempt_if_reported [where f = "ds_start_ctl env" and c = "fold (resume_interface env) (set_interfaces s) k" and w = w
        and what = "''dedicated server''"] start_errors(3)
      fold_err [OF that] that
    by (auto simp: resume_rest_def)
  have server: "server_slot ?m = slot_next OpResume (\<not> reported ''bridge server'' ?m) (server_slot ?b)"
    unfolding saved(1,2)
    by (rule attempt_slot) (use srv.start_refines [unfolded slot_eqs] start_errors empty in \<open>blast | simp\<close>)+
  have mid: "client_slot ?m = client_slot ?b"
    by (rule attempt_kept) (use crosswise(1) in \<open>simp_all add: client_kept.keeps_def\<close>)
  have client: "client_slot ?d = slot_next OpResume (\<not> reported ''bridge client'' ?d) (client_slot ?m)"
    unfolding saved(3,4) mid [symmetric]
    by (rule attempt_slot) (use cli.start_refines [unfolded slot_eqs] start_errors empty other(2) in \<open>blast | simp\<close>)+
  have "server_slot ?d = server_slot ?m"
    by (rule attempt_kept) (use crosswise(3) in \<open>simp_all add: server_kept.keeps_def\<close>)
  then show "server_slot (resume env c) = slot_next OpResume (\<not> reported ''bridge server'' (resume env c)) (server_slot c)"
    using server rest b(1) rest_err [of "''bridge server''"] other(1) unfolding res by simp
  show "client_slot (resume env c) = slot_next OpResume (\<not> reported ''bridge client'' (resume env c)) (client_slot c)"
    using client rest mid b(2) rest_err [of "''bridge client''"] unfolding res by simp
qed


subsection \<open>The refinement\<close>

fun server_event :: "path \<Rightarrow> ctl_event \<Rightarrow> server_args slot_op" where
  "server_event bundle (Call t) = server_op bundle t"
| "server_event bundle Resume = OpResume"
| "server_event bundle _ = OpNone"

fun client_event :: "ctrl_env \<Rightarrow> path \<Rightarrow> ctl_event \<Rightarrow> client_args slot_op" where
  "client_event env bundle (Call t) = client_op env bundle t"
| "client_event env bundle Resume = OpResume"
| "client_event env bundle _ = OpNone"

lemma upd_session_slots:
  "upd_session r f c = Some d \<Longrightarrow> server_slot d = server_slot c \<and> client_slot d = client_slot c"
  by (auto simp: upd_session_def slot_views bind_eq_Some_conv split: if_splits)

text \<open>
  The success of an operation: of a command for the server or the client, and after a resume, that
  nothing was recorded against the side.
\<close>

fun server_succeeds :: "ctrl_env \<Rightarrow> path \<Rightarrow> ctl_event \<Rightarrow> controller \<Rightarrow> bool" where
  "server_succeeds env bundle (Call t) c = is_ok (fst (invoke env bundle t c))"
| "server_succeeds env bundle Resume c = (\<not> reported ''bridge server'' (resume env c))"
| "server_succeeds env bundle _ c = True"

fun client_succeeds :: "ctrl_env \<Rightarrow> path \<Rightarrow> ctl_event \<Rightarrow> controller \<Rightarrow> bool" where
  "client_succeeds env bundle (Call t) c = client_started env bundle t c"
| "client_succeeds env bundle Resume c = (\<not> reported ''bridge client'' (resume env c))"
| "client_succeeds env bundle _ c = True"

text \<open>
  C6: in every state the controller can reach, each step - a command of a shell, a resume, or
  what the nodes and the background task do - is for each side exactly one operation of its slot, with
  the success of that operation as its flag: the server commands leave the client slot
  alone and the other way round, an operation that succeeds has started the session, and one
  that fails has not.  After a resume a side has failed when its error is recorded; a
  connect that succeeds has started the client, and one that fails after its start has done so too.
\<close>

theorem sessions_refine_slots:
  assumes "ctl_run env ar home (controller_new env dir h) es c" and "ctl_step env ar home c e = Some d"
  shows "server_slot d = slot_next (server_event home e) (server_succeeds env home e c) (server_slot c)
     \<and> client_slot d = slot_next (client_event env home e) (client_succeeds env home e c) (client_slot c)
     \<and> (\<forall>t. e = Call t \<and> is_ok (fst (invoke env home t c)) \<longrightarrow> client_succeeds env home e c)"
proof (cases e)
  case (Call t)
  then obtain r where r: "invoke env home t c = (r, d)" using assms(2) by (cases "invoke env home t c") simp
  show ?thesis using calls_refine [OF r] r Call by simp
next
  case Resume
  then have d: "d = resume env c" using assms(2) by simp
  have "c_last_server c = set_bridge (c_settings c)" "c_last_client c = set_client (c_settings c)"
    using reached_inv [OF assms(1)] by (simp_all add: ctl_inv_def srv.in_step_def cli.in_step_def)
  then show ?thesis using resume_refines [of c env] unfolding d Resume by simp
qed (use assms(2) upd_session_slots in \<open>auto split: if_splits\<close>)

end
