(* ===== verification/Reboot.thy ===== *)
theory Reboot
  imports Persistence Session_Slots
begin

text \<open>A crash and the boot after it: the settings file and the resume together.\<close>

lemma controller_new_fresh: "c_server (controller_new env dir h) = None" "c_client (controller_new env dir h) = None"
  by (simp_all add: controller_new_def Let_def split: prod.split)

lemma node_at_make_dirs: "q \<notin> set ps \<Longrightarrow> node_at (fold make_dir ps fs) q = node_at fs q"
  by (induction ps arbitrary: fs) (auto simp: node_at_make_dir)

lemma node_at_take_dirs: "q \<notin> set ps \<Longrightarrow> node_at (fold make_dir (take n ps) fs) q = node_at fs q"
  by (rule node_at_make_dirs) (auto dest: in_set_takeD)

lemma create_dir_all_keeps:
  "q \<notin> set (dir_prefixes p) \<Longrightarrow> node_at (h_files (snd (fs_create_dir_all env p h))) q = node_at (h_files h) q"
  by (auto simp: fs_create_dir_all_def torn_def syscall_def Let_def node_at_make_dirs node_at_take_dirs split: option.split)

lemma web_boot_settings:
  assumes "no_faults (ce_host env)" and "dir = var_or (ce_host env) ''BUNDLE_DIR'' ''/data''"
    and "ready (controller_new env dir h)"
  shows "\<exists>g. web_boot env k = resume env (controller_new env dir g)
    \<and> c_settings (controller_new env dir g) = c_settings (controller_new env dir k)"
proof -
  let ?g = "snd (fs_create_dir_all (ce_host env) dir k)" and ?p = "path_join dir ''settings.json''"
  have "c_bundle (controller_new env dir h) = dir" by (rule controller_new_stored(3) [OF assms(1)])
  then have "?p = dir @ ''/'' @ ''settings.json''"
    using settings_path_parts(1) [OF assms(3)] by (simp add: settings_path_def)
  then have "?p \<notin> set (dir_prefixes dir)" using dir_prefix_is_prefix [of ?p dir] by (auto simp: prefix_def)
  then have "stored (ce_serde env) (h_files ?g) ?p = stored (ce_serde env) (h_files k) ?p"
    by (simp add: stored_def create_dir_all_keeps)
  then have "c_settings (controller_new env dir ?g) = c_settings (controller_new env dir k)"
    by (simp add: controller_new_stored(1) [OF assms(1)])
  moreover have "web_boot env k = resume env (controller_new env dir ?g)"
    by (simp add: web_boot_def Let_def assms(2) case_prod_beta)
  ultimately show ?thesis by blast
qed

text \<open>
  C11: on a host where no call fails, with a settings format that reads back what it wrote and a
  bundle directory in which the settings can be written: when the controller is killed between
  two events of a run without steps of the background task and the web host boots again over the same directory, each session that was up is started again with the same arguments, or the failure
  is shown to the user; a session that had been stopped stays down.
\<close>

theorem reboot_restores:
  assumes "ctl_run env ar home (controller_new env dir h) es c" and "list_all foreground es"
    and "ready (controller_new env dir h)" and "no_faults (ce_host env)" and "serializes env"
    and "serde_ok (ce_serde env) (c_settings c)" and "dir = var_or (ce_host env) ''BUNDLE_DIR'' ''/data''"
  defines "b \<equiv> web_boot env (c_host c)"
  shows "(c_server c \<noteq> None \<longrightarrow> c_server b \<noteq> None \<and> c_last_server b = c_last_server c
        \<or> c_server b = None \<and> (\<exists>e. ''bridge server: '' @ e \<in> set (c_resume_errors b)))
    \<and> (c_client c \<noteq> None \<longrightarrow> c_client b \<noteq> None \<and> c_last_client b = c_last_client c
        \<or> c_client b = None \<and> (\<exists>e. ''bridge client: '' @ e \<in> set (c_resume_errors b)))
    \<and> (\<not> set_bridge_running (c_settings c) \<longrightarrow> c_server b = None)
    \<and> (\<not> set_client_running (c_settings c) \<longrightarrow> c_client b = None)"
proof -
  obtain g where g: "b = resume env (controller_new env dir g)"
    "c_settings (controller_new env dir g) = c_settings (controller_new env dir (c_host c))"
    using web_boot_settings [OF assms(4,7,3)] unfolding b_def by blast
  have s: "c_settings (controller_new env dir g) = c_settings c"
    using g(2) settings_reload [OF assms(1-6)] by simp
  have inv: "srv.in_step c" "cli.in_step c" using reached_inv [OF assms(1)] by (simp_all add: ctl_inv_def)
  note sides = resume_sides [OF controller_new_fresh, of env dir g env, folded g(1)]
  have str: "''bridge server: '' @ e = ''bridge server'' @ '': '' @ e"
    "''bridge client: '' @ e = ''bridge client'' @ '': '' @ e" for e
    by simp_all
  show ?thesis
    using sides inv unfolding rsrv.resumed_def rcli.resumed_def srv.in_step_def cli.in_step_def s str server_up_def client_up_def
    by (auto split: if_splits option.splits)
qed

end
