(* ===== verification/Controller_Examples.thy ===== *)
theory Controller_Examples
  imports Reboot
begin

text \<open>
  A computer on which everything answers, with an engine that keeps one interface per address,
  and runs of the controller on it.
\<close>

subsection \<open>Hexadecimal text\<close>

definition hex_digit :: "nat \<Rightarrow> char" where
  "hex_digit n = ''0123456789abcdef'' ! n"

definition hex_text :: "bytes \<Rightarrow> string" where
  "hex_text bs = concat (map (\<lambda>b. [hex_digit (unat b div 16), hex_digit (unat b mod 16)]) bs)"

lemma hex_digit_inj: "i < 16 \<Longrightarrow> j < 16 \<Longrightarrow> hex_digit i = hex_digit j \<longleftrightarrow> i = j"
  unfolding hex_digit_def by (rule nth_eq_iff_index_eq) simp_all

lemma hex_digit_lower:
  assumes "i < 16"
  shows "ascii_lower (hex_digit i) = hex_digit i"
proof -
  have "list_all (\<lambda>c. ascii_lower c = c) ''0123456789abcdef''" by code_simp
  then show ?thesis using assms by (simp add: list_all_length hex_digit_def)
qed

lemma unat_halves: "unat (b :: u8) div 16 < 16" "unat b mod 16 < 16"
proof -
  have "unat b < 256" using unsigned_less [of b] by simp
  then show "unat b div 16 < 16" "unat b mod 16 < 16" by simp_all
qed

lemma hex_text_inj: "hex_text a = hex_text b \<longleftrightarrow> a = b"
proof (induction a arbitrary: b)
  case Nil
  show ?case by (cases b) (simp_all add: hex_text_def)
next
  case (Cons x xs)
  show ?case
  proof (cases b)
    case (Cons y ys)
    have "unat x div 16 = unat y div 16 \<and> unat x mod 16 = unat y mod 16 \<longleftrightarrow> x = y"
      by (metis mult_div_mod_eq word_unat_eq_iff)
    then show ?thesis using Cons.IH [of ys] by (simp add: Cons hex_text_def hex_digit_inj unat_halves) blast
  qed (simp add: hex_text_def)
qed

subsection \<open>The computer\<close>

definition request_id :: "iface_request \<Rightarrow> interface_id" where
  "request_id req = (case req of
       TcpServerOn a \<Rightarrow> bytes_of (''s'' @ a)
     | TcpClientTo a \<Rightarrow> bytes_of (''t'' @ a)
     | AutoWifi \<Rightarrow> bytes_of ''a''
     | UdpBetween a b \<Rightarrow> bytes_of (''u'' @ a @ b)
     | WebSocketClientTo a \<Rightarrow> bytes_of (''w'' @ a)
     | WebSocketServerOn a \<Rightarrow> bytes_of (''x'' @ a))"

definition demo_iface :: "interface_id \<Rightarrow> iface" where
  "demo_iface i = \<lparr>if_id = i, if_name = None, if_mode = ''Full'', if_connection = ''Up'',
     if_rx_bytes = 0, if_tx_bytes = 0, if_links = 0\<rparr>"

definition demo_engine :: engine_env where
  "demo_engine = \<lparr>en_bind = (\<lambda>_ _. Inr ()),
     en_attach = (\<lambda>_ req _ _ l. if request_id req \<in> set (map if_id l) then l else l @ [demo_iface (request_id req)]),
     en_remove = (\<lambda>_ i l. filter (\<lambda>x. if_id x \<noteq> i) l), en_rename = (\<lambda>_ i name l. (True, l)),
     en_request_path = (\<lambda>_ _. Inr ()), en_routes = (\<lambda>_. Some []), en_announce = (\<lambda>_ _ _. Inr ())\<rparr>"

definition demo_server :: server_args where
  "demo_server = gui_server_args ''/data'' ''127.0.0.1'' 27015 None False 15 None"

definition demo_client :: client_args where
  "demo_client = gui_client_args ''/data'' 27016 None None False"

text \<open>The settings of the example, and a JSON library that can read these back.\<close>

definition demo_settings :: settings where
  "demo_settings = settings_new\<lparr>set_bridge := Some demo_server,
     set_bridge_running := True\<rparr>"

definition demo_serde :: serde_env where
  "demo_serde = \<lparr>to_string_pretty = (\<lambda>s. Inr (if s = demo_settings then ''S'' else ''{}'')),
     from_slice = (\<lambda>bs. if bs = bytes_of ''S'' then Inr demo_settings else Inl ''missing field'')\<rparr>"

text \<open>The nodes start until the question of the given number is asked.\<close>

definition demo_ctl :: "nat \<Rightarrow> ctrl_env" where
  "demo_ctl limit = \<lparr>ce_host = demo_host_env, ce_os = ''linux'', ce_serde = demo_serde,
     ce_bridge = (\<lambda>n. if n < limit then demo_env else demo_env\<lparr>be_thread_spawn := Inl ''no threads left''\<rparr>),
     ce_engine = demo_engine, ce_hex_encode = hex_text,
     ce_hex_decode = (\<lambda>s. Inr (bytes_of s)),
     ce_now = (\<lambda>n. n), ce_try_wait_err = (\<lambda>_. False), ce_console = (\<lambda>_. (Inr (), Inr ())),
     ce_network = (\<lambda>_ _. (\<lambda>_. Inl ''timed out'', Inr (), Inr ())),
     ce_udp_probe = (\<lambda>_ _. ProbeFailed ''Address already in use (os error 98)''), ce_probe_millis = (\<lambda>_. 0)\<rparr>"

lemma demo_ctl_sel [simp]:
  "ce_host (demo_ctl n) = demo_host_env" "ce_os (demo_ctl n) = ''linux''" "ce_serde (demo_ctl n) = demo_serde"
  "ce_engine (demo_ctl n) = demo_engine" "ce_hex_encode (demo_ctl n) = hex_text"
  "ce_bridge (demo_ctl n) k = (if k < n then demo_env else demo_env\<lparr>be_thread_spawn := Inl ''no threads left''\<rparr>)"
  "ce_console (demo_ctl n) k = (Inr (), Inr ())" "ce_hex_decode (demo_ctl n) h = Inr (bytes_of h)"
  "ce_udp_probe (demo_ctl n) k p = ProbeFailed ''Address already in use (os error 98)''"
  by (simp_all add: demo_ctl_def)

lemma demo_hex_ok: "hex_ok (demo_ctl n)"
proof -
  have "to_ascii_lowercase (hex_text b) = hex_text b" for b
    by (simp add: to_ascii_lowercase_def hex_text_def map_concat comp_def hex_digit_lower unat_halves)
  then show ?thesis by (simp add: hex_ok_def hex_text_inj)
qed

definition demo_disk :: host where
  "demo_disk = demo_host\<lparr>h_files := [(''/data'', Dir)]\<rparr>"

definition demo_new :: "nat \<Rightarrow> controller" where
  "demo_new limit = controller_new (demo_ctl limit) ''/data'' demo_disk"

lemma demo_new_sel:
  "c_server (demo_new n) = None" "c_client (demo_new n) = None" "c_settings (demo_new n) = settings_new"
  "c_clock (demo_new n) = 0" "c_bundle (demo_new n) = ''/data''" "h_files (c_host (demo_new n)) = [(''/data'', Dir)]"
  "c_last_server (demo_new n) = None" "c_last_client (demo_new n) = None"
proof -
  have no: "no_faults (ce_host (demo_ctl n))" by (simp add: no_faults_def demo_host_env_def)
  note new = controller_new_stored [OF no, of "''/data''" demo_disk, folded demo_new_def]
  have "stored (ce_serde (demo_ctl n)) (h_files demo_disk) (path_join ''/data'' ''settings.json'') = None"
    by (simp add: stored_def demo_disk_def node_at_def)
  then show s: "c_settings (demo_new n) = settings_new" using new(1) by simp
  show "c_bundle (demo_new n) = ''/data''" "h_files (c_host (demo_new n)) = [(''/data'', Dir)]"
    using new(2,3) by (simp_all add: demo_disk_def)
  show "c_server (demo_new n) = None" "c_client (demo_new n) = None" "c_clock (demo_new n) = 0"
    by (simp_all add: demo_new_def controller_new_def Let_def split: prod.split)
  have "c_last_server (demo_new n) = set_bridge (c_settings (demo_new n))"
    "c_last_client (demo_new n) = set_client (c_settings (demo_new n))"
    by (simp_all add: demo_new_def controller_new_def Let_def split: prod.split)
  then show "c_last_server (demo_new n) = None" "c_last_client (demo_new n) = None"
    by (simp_all add: s settings_new_def)
qed


subsection \<open>Sessions\<close>

lemma demo_start_server:
  assumes "c_server c = None" and "c_clock c < n"
  shows "\<exists>d s. start_bridge_server (demo_ctl n) demo_server c = (Inr (), d) \<and> c_server d = Some s
     \<and> ls_ifaces s = [] \<and> bs_thread (ls_session s) = NodeRunning \<and> c_client d = c_client c
     \<and> c_last_server d = Some demo_server \<and> c_clock d = Suc (c_clock c)
     \<and> c_settings d = (c_settings c)\<lparr>set_bridge := Some demo_server, set_bridge_running := True\<rparr>"
  using assms
  by (simp add: start_bridge_server_def start_server_def own_destination_def load_identity_def demo_env_def
      with_context_def spawn_bridge_node_def build_server_def demo_server_def gui_server_args_def new_live_def
      attach_interfaces_def)

lemma demo_start_client:
  assumes "c_client c = None" and "c_clock c < n"
  shows "\<exists>d s. start_client_session (demo_ctl n) demo_client c = (Inr (), d) \<and> c_client d = Some s
     \<and> ls_ifaces s = [] \<and> c_server d = c_server c \<and> c_last_client d = Some demo_client
     \<and> c_clock d = Suc (c_clock c) \<and> c_last_server d = c_last_server c
     \<and> c_settings d = (c_settings c)\<lparr>set_client := Some demo_client, set_client_running := True\<rparr>"
  using assms
  by (simp add: start_client_session_def start_client_def own_destination_def load_identity_def demo_env_def
      with_context_def spawn_bridge_node_def build_client_def demo_client_def gui_client_args_def new_live_def
      attach_interfaces_def)

lemma demo_start_refused:
  assumes "c_server c = None" and "n \<le> c_clock c"
  shows "start_bridge_server (demo_ctl n) demo_server c
    = (Inl ''failed to spawn bridge node thread'', tick c)"
  using assms
  by (simp add: start_bridge_server_def start_server_def own_destination_def load_identity_def demo_env_def
      with_context_def spawn_bridge_node_def build_server_def demo_server_def gui_server_args_def)

lemma demo_serving:
  "\<exists>c s. start_bridge_server (demo_ctl (Suc n)) demo_server (demo_new (Suc n)) = (Inr (), c) \<and> c_server c = Some s
     \<and> ls_ifaces s = [] \<and> bs_thread (ls_session s) = NodeRunning \<and> c_client c = None
     \<and> c_last_server c = Some demo_server \<and> c_clock c = 1 \<and> c_settings c = demo_settings"
  using demo_start_server [of "demo_new (Suc n)" "Suc n"] by (simp add: demo_new_sel demo_settings_def)

text \<open>A restart that finds no thread for its node.\<close>

theorem restart_outcome_witness:
  "\<exists>c d. c_server c \<noteq> None \<and> set_bridge_running (c_settings c)
     \<and> restart_bridge_server (demo_ctl 1) c = (Inl ''failed to spawn bridge node thread'', d)
     \<and> c_server d = None \<and> \<not> set_bridge_running (c_settings d)"
proof -
  obtain c :: controller and s :: live_session where c: "c_server c = Some s" "c_last_server c = Some demo_server" "c_clock c = 1"
    "c_settings c = demo_settings"
    using demo_serving [of 0] by blast
  obtain k :: controller where k: "stop_bridge_server (demo_ctl 1) c = (Inr (), k)" "c_server k = None" "c_clock k = 1"
    using c(3) by (auto simp: stop_bridge_server_def split: option.split)
  have r: "restart_bridge_server (demo_ctl 1) c
      = (Inl ''failed to spawn bridge node thread'', tick k)"
    using k demo_start_refused [of k 1] by (simp add: restart_bridge_server_def c(2) io_bind_def)
  have "tick k \<noteq> c" using k(2) c(1) by (auto dest: arg_cong [of _ _ c_server])
  then have "c_server (tick k) = None \<and> \<not> set_bridge_running (c_settings (tick k))"
    using restart_outcome [OF r] by auto
  moreover have "set_bridge_running (c_settings c)" by (simp add: c(4) demo_settings_def)
  ultimately show ?thesis using c(1) r by blast
qed

theorem node_end_unnoticed_witness:
  "\<exists>c d s. c_server c = Some s \<and> ctl_run (demo_ctl 1) demo_archive ''/data'' c
       [NodeSelect ''server'' True, NodeDrop ''server'', NodeSignal ''server''] d
     \<and> is_running d \<and> start_bridge_server (demo_ctl 1) demo_server d
       = (Inl ''a bridge server session is already running; stop it first'', d)"
proof -
  obtain c :: controller and s :: live_session where c: "c_server c = Some s" "bs_thread (ls_session s) = NodeRunning"
    using demo_serving [of 0] by blast
  then show ?thesis using node_end_unnoticed [OF c] by blast
qed


subsection \<open>Runs\<close>

definition start_demo :: tauri_command where
  "start_demo = StartBridgeServer ''127.0.0.1'' 27015 None False 15 None"

lemma demo_run:
  "\<exists>c s. ctl_run (demo_ctl (Suc n)) demo_archive ''/data'' (controller_new (demo_ctl (Suc n)) ''/data'' demo_disk) [Call start_demo] c
     \<and> c_server c = Some s \<and> c_settings c = demo_settings"
proof -
  obtain c :: controller and s :: live_session where c: "c_server c = Some s" "c_settings c = demo_settings"
    "start_bridge_server (demo_ctl (Suc n)) demo_server (demo_new (Suc n)) = (Inr (), c)"
    using demo_serving [of n] by blast
  have "ctl_step (demo_ctl (Suc n)) demo_archive ''/data'' (demo_new (Suc n)) (Call start_demo) = Some c"
    using c(3) by (simp add: start_demo_def returns_def io_bind_def demo_server_def)
  then show ?thesis unfolding demo_new_def [symmetric] using c(1,2) by (simp add: ctl_run_simps)
qed

theorem controller_consistent_witness:
  "\<exists>c s. ctl_run (demo_ctl 1) demo_archive ''/data'' (controller_new (demo_ctl 1) ''/data'' demo_disk) [Call start_demo] c
     \<and> c_server c = Some s \<and> bs_role (ls_session s) = Server \<and> c_last_server c = Some demo_server"
proof -
  obtain c :: controller and s :: live_session where c: "c_server c = Some s" "c_settings c = demo_settings"
    and run: "ctl_run (demo_ctl 1) demo_archive ''/data'' (controller_new (demo_ctl 1) ''/data'' demo_disk) [Call start_demo] c"
    using demo_run [of 0] by auto
  have "set_bridge demo_settings = Some demo_server" by (simp add: demo_settings_def)
  then show ?thesis using controller_consistent [OF run] c run by auto
qed

lemma demo_computer:
  "ready (controller_new (demo_ctl n) ''/data'' demo_disk)" "no_faults (ce_host (demo_ctl n))" "serializes (demo_ctl n)"
proof -
  have "path_join ''/data'' ''settings.json'' = ''/data/settings.json''" by code_simp
  then show "ready (controller_new (demo_ctl n) ''/data'' demo_disk)"
    unfolding demo_new_def [symmetric]
    by (simp add: ready_def demo_new_sel dir_ok_def node_at_def settings_path_def)
  show "no_faults (ce_host (demo_ctl n))" by (simp add: no_faults_def demo_host_env_def)
  show "serializes (demo_ctl n)" by (simp add: serializes_def demo_serde_def is_ok_def)
qed

lemma demo_serde_ok: "serde_ok (ce_serde (demo_ctl n)) demo_settings"
  by (simp add: serde_ok_def demo_serde_def)

theorem settings_survive_witness:
  "\<exists>c. ctl_run (demo_ctl 1) demo_archive ''/data'' (controller_new (demo_ctl 1) ''/data'' demo_disk) [Call start_demo] c
     \<and> c_server c \<noteq> None \<and> set_bridge_running (c_settings (controller_new (demo_ctl 1) ''/data'' (c_host c)))"
proof -
  obtain c :: controller and s :: live_session where c: "c_server c = Some s" "c_settings c = demo_settings"
    and run: "ctl_run (demo_ctl 1) demo_archive ''/data'' (controller_new (demo_ctl 1) ''/data'' demo_disk) [Call start_demo] c"
    using demo_run [of 0] by auto
  have "list_all foreground [Call start_demo]" by (simp add: foreground_def)
  from settings_survive [OF run this demo_computer, unfolded c(2), OF demo_serde_ok]
  have "c_settings (controller_new (demo_ctl 1) ''/data'' (c_host c)) = demo_settings" .
  then show ?thesis using run c(1) by (auto simp: demo_settings_def)
qed

text \<open>A disk that is full: every write empties the file and then fails.\<close>

definition demo_full_disk :: ctrl_env where
  "demo_full_disk = (demo_ctl 1)\<lparr>ce_host := demo_host_env\<lparr>he_fault := (\<lambda>_. Some ''no space left on device''),
     he_torn := (\<lambda>_. Some 0)\<rparr>\<rparr>"

theorem torn_save_loses_settings_witness:
  "\<exists>c. c_settings (controller_new (demo_ctl 1) ''/data'' (c_host c)) = demo_settings
     \<and> c_settings (save_settings demo_full_disk c) = c_settings c \<and> c_settings c = demo_settings
     \<and> c_settings (controller_new (demo_ctl 1) ''/data'' (c_host (save_settings demo_full_disk c))) = settings_new"
proof -
  let ?h = "demo_host\<lparr>h_files := [(''/data'', Dir), (''/data/settings.json'', File (bytes_of ''S'') False)]\<rparr>"
  let ?c = "controller_new (demo_ctl 1) ''/data'' ?h"
  note new = controller_new_stored [OF demo_computer(2), of 1 "''/data''" ?h]
  have path: "path_join ''/data'' ''settings.json'' = ''/data/settings.json''" by code_simp
  have files: "h_files (c_host ?c) = h_files ?h" and b: "c_bundle ?c = ''/data''" by (rule new)+
  have at: "stored demo_serde (h_files ?h) ''/data/settings.json'' = Some demo_settings"
    by (simp add: stored_def demo_serde_def node_at_def)
  then have s: "c_settings ?c = demo_settings" unfolding new(1) path by (simp add: demo_ctl_sel(3) del: One_nat_def)
  have here: "ready ?c" unfolding ready_def settings_path_def b files path by (simp add: dir_ok_def node_at_def)
  have old: "stored (ce_serde demo_full_disk) (h_files (c_host ?c)) (settings_path ?c) = Some demo_settings"
    unfolding settings_path_def b files path using at by (simp add: demo_full_disk_def)
  have json: "to_string_pretty (ce_serde demo_full_disk) (c_settings ?c) = Inr ''S''"
    unfolding s by (simp add: demo_full_disk_def demo_serde_def)
  have bad: "from_slice (ce_serde demo_full_disk) (take 0 (bytes_of ''S'')) = Inl ''missing field''"
    by (simp add: demo_full_disk_def demo_serde_def bytes_of_def)
  have "c_settings (controller_new (demo_ctl 1) (c_bundle ?c) (c_host ?c)) = demo_settings
    \<and> c_settings (save_settings demo_full_disk ?c) = c_settings ?c
    \<and> c_settings (controller_new (demo_ctl 1) (c_bundle ?c) (c_host (save_settings demo_full_disk ?c))) = settings_new"
    using demo_computer(2) [of 1] by (intro torn_save_loses_settings [OF here old json _ _ bad]) (simp_all add: demo_full_disk_def)
  then show ?thesis using s unfolding b by blast
qed

theorem sessions_refine_slots_witness:
  "\<exists>c d. ctl_run (demo_ctl 1) demo_archive ''/data'' (controller_new (demo_ctl 1) ''/data'' demo_disk) [Call start_demo] c
     \<and> ctl_step (demo_ctl 1) demo_archive ''/data'' c (Call StopBridgeServer) = Some d
     \<and> sl_up (server_slot c) \<and> server_slot d = slot_stop (server_slot c) \<and> client_slot d = client_slot c"
proof -
  obtain c :: controller and s :: live_session where c: "c_server c = Some s" "c_settings c = demo_settings"
    and run: "ctl_run (demo_ctl 1) demo_archive ''/data'' (controller_new (demo_ctl 1) ''/data'' demo_disk) [Call start_demo] c"
    using demo_run [of 0] by auto
  obtain d where d: "ctl_step (demo_ctl 1) demo_archive ''/data'' c (Call StopBridgeServer) = Some d" by simp
  have "sl_up (server_slot c)" by (simp add: slot_views c(1))
  then show ?thesis using sessions_refine_slots [OF run d] run d by auto
qed

theorem resume_outcome_witness:
  "\<exists>c. c_server c = None \<and> c_client c = None \<and> set_bridge_running (c_settings c)
     \<and> (c_server (resume (demo_ctl 1) c) \<noteq> None \<or> c_resume_errors (resume (demo_ctl 1) c) \<noteq> [])
     \<and> set_bridge (c_settings (resume (demo_ctl 1) c)) = Some demo_server"
proof -
  let ?c = "(demo_new 1)\<lparr>c_settings := demo_settings\<rparr>"
  have c: "c_server ?c = None" "c_client ?c = None" by (simp_all add: demo_new_sel)
  have "set_bridge_running (c_settings ?c)" "set_bridge (c_settings ?c) = Some demo_server"
    by (simp_all add: demo_settings_def)
  then show ?thesis using resume_outcome [OF c, of "demo_ctl 1"] c by (intro exI [of _ ?c]) auto
qed

theorem changelevel_lines_witness:
  "\<exists>c d p text. ds_changelevel (demo_ctl 1) (''a'' @ LF @ ''quit'') c = (Inr (), d)
     \<and> dm_console (c_ds d) = dm_console (c_ds c) @ [(p, text)] \<and> str_lines text = [''changelevel a'', ''quit'']"
proof -
  let ?c = "(demo_new 1)\<lparr>c_ds := (c_ds (demo_new 1))\<lparr>dm_stdin := Some 7\<rparr>\<rparr>"
  have "\<exists>d. ds_changelevel (demo_ctl 1) (''a'' @ LF @ ''quit'') ?c = (Inr (), d)"
    by (simp add: ds_changelevel_def send_command_def)
  then obtain d where d: "ds_changelevel (demo_ctl 1) (''a'' @ LF @ ''quit'') ?c = (Inr (), d)" by blast
  have "clean_line ''a''" "clean_line ''quit''" by code_simp+
  moreover have "''changelevel '' @ ''a'' = ''changelevel a''" by simp
  ultimately show ?thesis using changelevel_lines [OF d] d by metis
qed


theorem connect_order_witness:
  "\<exists>c d cmd. c_last_client c = Some demo_client \<and> connect_and_launch (demo_ctl 9) ''0123456789abcdef'' c = (Inr (), d)
     \<and> h_commands (c_host d) = h_commands (c_host c) @ [cmd] \<and> last (cmd_args cmd) = connect_uri 27016
     \<and> c_last_client d = Some (demo_client\<lparr>server_hash := Some ''0123456789abcdef''\<rparr>)"
proof -
  let ?h = "''0123456789abcdef''"
  let ?a = "demo_client\<lparr>server_hash := Some ?h\<rparr>"
  let ?c = "(demo_new 9)\<lparr>c_last_client := Some demo_client\<rparr>"
  have hash: "trim ?h = ?h" by code_simp
  have valid: "validate_hex_hash (demo_ctl 9) ?h = Inr ()" by (simp add: validate_hex_hash_def hash bytes_of_def)
  obtain k :: controller where k: "stop_client (demo_ctl 9) ?c = (Inr (), k)" "c_client k = None" "c_clock k = 0"
    using demo_new_sel [of 9] by (simp add: stop_client_def)
  have target: "parse_destination_hash (be_hex_decode demo_env) ?h = Inr (bytes_of ?h)"
    by (simp add: parse_destination_hash_def demo_env_def hash DestinationHash_from_slice_def TRUNCATED_HASH_BYTE_LEN_def bytes_of_def)
  have "\<exists>m. start_client_session (demo_ctl 9) ?a k = (Inr (), m)"
    using k(2,3) target
    by (simp add: start_client_session_def start_client_def own_destination_def load_identity_def
        with_context_def spawn_bridge_node_def build_client_def demo_client_def gui_client_args_def demo_env_def)
  then obtain m where m: "start_client_session (demo_ctl 9) ?a k = (Inr (), m)" by blast
  have "wait_loop (demo_ctl 9) p 8000 0 n = (Inr (), Suc n)" for p n
    by (subst wait_loop.simps) (simp add: port_taken_def in_use_def, code_simp)
  then have "\<exists>d. connect_and_launch (demo_ctl 9) ?h ?c = (Inr (), d)"
    by (simp add: connect_and_launch_def valid io_bind_def k(1) m wait_for_udp_bind_def on_host_def launch_def uri_handler_def
        io_context_eq spawn_detached_def Let_def demo_host_env_def with_context_def)
  then obtain d where d: "connect_and_launch (demo_ctl 9) ?h ?c = (Inr (), d)" by blast
  have c: "c_last_client ?c = Some demo_client" by simp
  have "listen_port demo_client = 27016" by (simp add: demo_client_def gui_client_args_def)
  then have "c_last_client d = Some ?a \<and> (\<exists>cmd. h_commands (c_host d) = h_commands (c_host ?c) @ [cmd]
      \<and> last (cmd_args cmd) = connect_uri 27016)"
    using connect_order [OF d c] by simp
  then show ?thesis using c d by blast
qed

subsection \<open>Interfaces\<close>

definition demo_auto :: interface_descriptor where
  "demo_auto = \<lparr>id_id = None, id_kind = ''auto'', id_role = ''server'', id_addr = None, id_peer_addr = None,
     id_ifac_name = None, id_ifac_passphrase = None\<rparr>"

lemma demo_auto_saved: "as_saved demo_auto = demo_auto" "id_role demo_auto = ''server''"
  by (simp_all add: as_saved_def demo_auto_def)

abbreviation auto_id :: interface_id where
  "auto_id \<equiv> request_id AutoWifi"

lemma demo_reattach:
  assumes "c_server c = Some s"
  shows "\<exists>k. reattach (demo_ctl n) demo_auto c = (Inr (), k) \<and> c_client k = c_client c
     \<and> c_server k = Some (s\<lparr>ls_ifaces := (if auto_id \<in> if_id ` set (ls_ifaces s) then ls_ifaces s
         else ls_ifaces s @ [demo_iface auto_id])\<rparr>)"
  using assms
  by (simp add: reattach_def demo_auto_def add_interface_auto_def session_def attach_and_record_def demo_engine_def
      set_ifaces_def Let_def)

theorem added_interface_is_saved_witness:
  "\<exists>c k i. reattach (demo_ctl 1) demo_auto c = (Inr (), k) \<and> c_settings c = demo_settings
     \<and> by_key endpoint (set_interfaces (c_settings k)) (endpoint demo_auto) = Some (demo_auto\<lparr>id_id := i\<rparr>)"
proof -
  obtain c :: controller and s :: live_session where c: "c_server c = Some s" "c_settings c = demo_settings"
    using demo_serving [of 0] by blast
  obtain k where k: "reattach (demo_ctl 1) demo_auto c = (Inr (), k)" using demo_reattach [OF c(1)] by blast
  obtain i where "by_key endpoint (set_interfaces (c_settings k)) =
      (by_key endpoint (set_interfaces (c_settings c)))(endpoint demo_auto \<mapsto> demo_auto\<lparr>id_id := i\<rparr>)"
    using added_interface_is_saved [OF k] by (auto simp: demo_auto_saved)
  then show ?thesis using c(2) k by (metis fun_upd_same)
qed

text \<open>Two sessions attached to the same target.\<close>

theorem removed_from_server_first_witness:
  "\<exists>c d t. c_client c = Some t \<and> remove_interface (demo_ctl 1) (hex_text [1]) c = (Inr (), d)
     \<and> c_client d = Some t \<and> ls_ifaces t = [demo_iface [1]] \<and> set_interfaces (c_settings d) = []"
proof -
  obtain c :: controller and s :: live_session where c: "c_server c = Some s" "c_settings c = demo_settings"
    using demo_serving [of 0] by blast
  let ?s = "s\<lparr>ls_ifaces := [demo_iface [1]]\<rparr>"
  let ?c = "c\<lparr>c_server := Some ?s, c_client := Some ?s\<rparr>"
  have two: "c_server ?c = Some ?s" "c_client ?c = Some ?s" by simp_all
  have i: "find_interface_by_hex (demo_ctl 1) ?s (hex_text [1]) = Some [1]"
    using find_by_hex [OF demo_hex_ok, of 1 ?s "[1]"] by (simp add: demo_iface_def)
  then obtain d where d: "remove_interface (demo_ctl 1) (hex_text [1]) ?c = (Inr (), d)" "c_client d = Some ?s"
      "\<forall>x\<in>set (set_interfaces (c_settings d)). x \<in> set (set_interfaces (c_settings ?c))"
    using removed_from_server_first [OF two i] by auto
  have "set_interfaces (c_settings ?c) = []" by (simp add: c(2) demo_settings_def settings_new_def)
  then have "set_interfaces (c_settings d) = []" using d(3) by (cases "set_interfaces (c_settings d)") auto
  moreover have "ls_ifaces ?s = [demo_iface [1]]" by simp
  ultimately show ?thesis using d two(2) by blast
qed

lemma demo_remove:
  assumes "c_server k = Some t" and "i \<in> if_id ` set (ls_ifaces t)"
  shows "\<exists>m. remove_interface (demo_ctl n) (hex_text i) k = (Inr (), m)"
  using assms find_by_hex [OF demo_hex_ok, of n t i]
  by (simp add: remove_interface_def owned_interface_def owning_cases)

theorem readded_interface_stays_saved_witness:
  "\<exists>c k m. reattach (demo_ctl 1) demo_auto c = (Inr (), k)
     \<and> remove_interface (demo_ctl 1) (hex_text auto_id) k = (Inr (), m)
     \<and> demo_auto \<in> set (set_interfaces (c_settings m))"
proof -
  obtain b :: controller and u :: live_session where b: "c_server b = Some u" using demo_serving [of 0] by blast
  let ?s = "u\<lparr>ls_ifaces := [demo_iface auto_id]\<rparr>"
  let ?c = "b\<lparr>c_server := Some ?s\<rparr>"
  have s: "session ?c (id_role demo_auto) = Inr ?s" by (simp add: session_def demo_auto_saved)
  obtain k where k: "reattach (demo_ctl 1) demo_auto ?c = (Inr (), k)" "c_server k = Some ?s"
    using demo_reattach [of ?c ?s 1] by (auto simp: demo_iface_def)
  have t: "session k (id_role demo_auto) = Inr ?s" by (simp add: session_def demo_auto_saved k(2))
  obtain m where m: "remove_interface (demo_ctl 1) (hex_text auto_id) k = (Inr (), m)"
    using demo_remove [OF k(2), of auto_id 1] by (auto simp: demo_iface_def)
  show ?thesis using readded_interface_stays_saved [OF k(1) s t _ m] k(1) m by (auto simp: demo_auto_saved)
qed

theorem add_remove_round_trip_witness:
  "\<exists>c k m s. session c ''server'' = Inr s \<and> reattach (demo_ctl 1) demo_auto c = (Inr (), k)
     \<and> remove_interface (demo_ctl 1) (hex_text auto_id) k = (Inr (), m) \<and> session m ''server'' = Inr s
     \<and> set_interfaces (c_settings m) = []"
proof -
  obtain c :: controller and s :: live_session where c: "c_server c = Some s" "ls_ifaces s = []" "c_client c = None"
    "c_settings c = demo_settings"
    using demo_serving [of 0] by blast
  have empty: "set_interfaces (c_settings c) = []" by (simp add: c(4) demo_settings_def settings_new_def)
  let ?t = "s\<lparr>ls_ifaces := [demo_iface auto_id]\<rparr>"
  obtain k where k: "reattach (demo_ctl 1) demo_auto c = (Inr (), k)" "c_server k = Some ?t"
    using demo_reattach [OF c(1), of 1] c(2) by auto
  have s: "session c (id_role demo_auto) = Inr s" and t: "session k (id_role demo_auto) = Inr ?t"
    by (simp_all add: session_def demo_auto_saved c(1) k(2))
  have grown: "if_id ` set (ls_ifaces ?t) = insert auto_id (if_id ` set (ls_ifaces s))" by (simp add: c(2) demo_iface_def)
  have fresh: "\<forall>r u. session c r = Inr u \<longrightarrow> auto_id \<notin> if_id ` set (ls_ifaces u)"
    by (auto simp: session_cases c)
  have gone: "?t\<lparr>ls_ifaces := en_remove (ce_engine (demo_ctl 1)) (c_clock k) auto_id (ls_ifaces ?t)\<rparr> = s"
    using c(2) by (cases s) (simp add: demo_engine_def demo_iface_def)
  obtain m where m: "remove_interface (demo_ctl 1) (hex_text auto_id) k = (Inr (), m)" "session m ''server'' = Inr s"
    "set_interfaces (c_settings m) = []"
    using add_remove_round_trip [OF demo_hex_ok k(1) s t grown fresh] empty gone
    by (auto simp: demo_auto_saved)
  then show ?thesis using k(1) s unfolding demo_auto_saved by blast
qed

theorem reboot_restores_witness:
  "\<exists>c. ctl_run (demo_ctl 1) demo_archive ''/data'' (controller_new (demo_ctl 1) ''/data'' demo_disk) [Call start_demo] c
     \<and> c_server c \<noteq> None
     \<and> (c_server (web_boot (demo_ctl 1) (c_host c)) \<noteq> None \<or> c_resume_errors (web_boot (demo_ctl 1) (c_host c)) \<noteq> [])
     \<and> c_client (web_boot (demo_ctl 1) (c_host c)) = None"
proof -
  obtain c :: controller and s :: live_session where c: "c_server c = Some s" "c_settings c = demo_settings"
    and run: "ctl_run (demo_ctl 1) demo_archive ''/data'' (controller_new (demo_ctl 1) ''/data'' demo_disk) [Call start_demo] c"
    using demo_run [of 0] by auto
  have "list_all foreground [Call start_demo]" by (simp add: foreground_def)
  moreover have "''/data'' = var_or (ce_host (demo_ctl 1)) ''BUNDLE_DIR'' ''/data''"
    by (simp add: var_or_def demo_host_env_def)
  ultimately have boot: "(c_server c \<noteq> None \<longrightarrow> c_server (web_boot (demo_ctl 1) (c_host c)) \<noteq> None
      \<or> c_resume_errors (web_boot (demo_ctl 1) (c_host c)) \<noteq> [])
      \<and> (\<not> set_client_running (c_settings c) \<longrightarrow> c_client (web_boot (demo_ctl 1) (c_host c)) = None)"
    using reboot_restores [OF run _ demo_computer demo_serde_ok [of 1, folded c(2)]] by auto
  have "\<not> set_client_running (c_settings c)" by (simp add: c(2) demo_settings_def settings_new_def)
  then show ?thesis using boot run c(1) by auto
qed

end
