(* ===== verification/Source_Tests.thy ===== *)
theory Source_Tests
  imports Controller_Examples
begin

text \<open>
  The unit tests of the repository, evaluated on the model.  Tests of the operating system (process
  groups, archives written with the libraries) have no counterpart here; the hexadecimal decoder
  that \<open>validate_hex_hash\<close> uses is a parameter, and its test is one of the decoder.
\<close>

subsection \<open>\<open>controller.rs\<close>\<close>

lemma parse_host_port_splits:
  "parse_host_port ''0.0.0.0:4234'' = Inr (''0.0.0.0'', 4234)"
  "parse_host_port ''example.com:4234'' = Inr (''example.com'', 4234)"
  "parse_host_port ''noport'' = Inl ''TCP address noport has no port''"
  "parse_host_port ''host:abc'' = Inl ''TCP address host:abc has a non-numeric port''"
  by (simp_all add: parse_host_port_def parse_u16_def parse_unsigned_def digit_val_def is_ascii_digit_def)

definition desc :: "string \<Rightarrow> string \<Rightarrow> string option \<Rightarrow> string option \<Rightarrow> interface_descriptor" where
  "desc kind side addr peer_addr =
     \<lparr>id_id = None, id_kind = kind, id_role = side, id_addr = addr, id_peer_addr = peer_addr, id_ifac_name = None,
      id_ifac_passphrase = None\<rparr>"

lemma dedup_interfaces_collapses_repeated_endpoints:
  "let tcp = desc ''tcp'' ''server'' (Some ''192.168.223.20:4966'') None;
       udp = desc ''udp'' ''server'' (Some ''0.0.0.0:4966'') (Some ''192.168.1.217:4966'')
   in dedup_interfaces [tcp, tcp, udp, tcp, udp] = (True, [tcp, udp]) \<and> dedup_interfaces [tcp, udp] = (False, [tcp, udp])"
  by code_simp

lemma dedup_interfaces_keeps_distinct_endpoints:
  "let is = [desc ''tcp'' ''server'' (Some ''192.168.223.20:4966'') None, desc ''tcp'' ''client'' (Some ''192.168.223.20:4966'') None,
             desc ''tcp'' ''server'' (Some ''192.168.223.21:4966'') None]
   in dedup_interfaces is = (False, is)"
  by code_simp

lemma dedup_interfaces_keeps_last_occurrence_ifac_fields:
  "let d = desc ''tcp'' ''server'' (Some ''192.168.223.20:4966'') None;
       stale = d\<lparr>id_ifac_passphrase := Some ''old-typo''\<rparr>; fresh = d\<lparr>id_ifac_passphrase := Some ''corrected''\<rparr>
   in dedup_interfaces [stale, fresh] = (True, [fresh])"
  by code_simp

subsection \<open>\<open>game.rs\<close>\<close>

lemma uri_has_appid_and_connect:
  "connect_uri 27016 = ''steam://run/225840//+connect%20127.0.0.1:27016''"
  by (simp add: connect_uri_def SC_GAME_APPID_def show_nat.simps digit_chars(2) [unfolded One_nat_def])

subsection \<open>\<open>relay.rs\<close>\<close>

lemma server_announce_name_bytes_uses_default_when_unset:
  "server_announce_name_bytes None = DEFAULT_SERVER_ANNOUNCE_NAME"
  "server_announce_name_bytes (Some ''   '') = DEFAULT_SERVER_ANNOUNCE_NAME"
  by code_simp+

lemma server_announce_name_bytes_trims_and_uses_configured_name:
  "server_announce_name_bytes (Some ''  My Server  '') = bytes_of ''My Server''"
  by code_simp

lemma server_announce_app_data_decodes:
  "announce_app_data_to_name (server_announce_app_data (Some ''Idan's Server'')) = Some ''Idan's Server''"
  by code_simp

lemma announce_app_data_to_name_rejects_empty_and_non_utf8:
  "announce_app_data_to_name [] = None" "announce_app_data_to_name [0xff, 0xfe] = None"
  by code_simp+

subsection \<open>\<open>steamcmd.rs\<close>\<close>

lemma archive_name_per_os:
  "map steamcmd_archive [Linux, Windows, Macos, Other]
   = [Some ''steamcmd_linux.tar.gz'', Some ''steamcmd.zip'', Some ''steamcmd_osx.tar.gz'', None]"
  "map supports_dedicated_server [Linux, Windows, Macos, Other] = [True, True, False, False]"
  by code_simp+

lemma strip_ansi_removes_colour_codes:
  "strip_ansi ''hello'' = ''hello''"
  "strip_ansi (ESC # ''[0m'') = ''''"
  "strip_ansi (ESC # ''[0mWaiting for user info...'' @ ESC # ''[0m'') = ''Waiting for user info...''"
  "strip_ansi (ESC # ''[32mOK'' @ ESC # ''[0m '' @ ESC # ''[1mdone'' @ ESC # ''[0m'') = ''OK done''"
  by code_simp+

lemma parse_progress_rejects_other_lines:
  "parse_progress ''Logging in user anonymous'' = None" "parse_progress [] = None"
  by code_simp+

subsection \<open>\<open>ds.rs\<close>\<close>

lemma default_install_dir_is_bundle_relative:
  "default_install_dir (ds_new ''/bundle'' Linux h) = ''/bundle/svends''"
  by (simp add: default_install_dir_def ds_new_def path_join_def starts_with_def)

lemma ds_status_reports_phase:
  "l_phase (dm_live (ds_new ''/bundle'' Linux h)) = Idle \<and> \<not> ds_is_running (ds_new ''/bundle'' Linux h)"
  by (simp add: ds_is_running_def ds_new_def live_default_def)

end
