(* ===== verification/Spec2Isabelle.thy ===== *)
theory Spec2Isabelle
  imports Bridge_Delivery Conversation Source_Tests
begin

text \<open>
  The Sven Co-op over Reticulum bridge: a verification development of its Rust code.

  The program carries the UDP traffic of the game Sven Co-op over links of the Reticulum network
  engine, and runs and controls everything around that: the bridge sessions, the dedicated
  server with its installation by steamcmd, a server browser, live network interfaces, and
  a user interface on the desktop (Tauri) or in a browser (a web host).

  \<^bold>\<open>The parts, their theories and their sources.\<close>

  The bridge crate, \<open>src/src/\<close>:
  \<^item> \<open>Framing\<close>: \<open>framing.rs\<close>, a datagram as chunks with a header byte, and the reassembler.
  \<^item> \<open>Wire_Limits\<close>: the few constants and functions of the vendored engine
    (\<open>src/vendor/prns-core\<close>) on which the bounds of the bridge rest.
  \<^item> \<open>Bridge_Config\<close>: \<open>config.rs\<close>, \<open>main.rs\<close>, \<open>lib.rs\<close>.
  \<^item> \<open>Announce\<close>: in \<open>relay.rs\<close> the event funnel, names in announces, the table of servers heard,
    and which interfaces a session attaches.
  \<^item> \<open>Relay_Common\<close>, \<open>Server_Relay\<close>, \<open>Client_Relay\<close>: \<open>start_server\<close> and \<open>start_client\<close> of
    \<open>relay.rs\<close>.  Each task is split at its await points; a state holds the shared tables, one
    record per relay and the logs of effects, and \<open>server_step\<close> and \<open>client_step\<close>
    run one task up to its next await point.  \<open>Downlink\<close> follows a reply back, and
    \<open>Uplink_Progress\<close> shows that the packets a game sends do get through.
  \<^item> \<open>Link_Channel\<close>, \<open>Node_Steps\<close>, \<open>Bridge_World\<close>: client machines, the server and the engine
    between them as one system, with channels that may lose and reorder;
    \<open>Bridge_Delivery\<close> has what it delivers in every reachable state, \<open>Conversation\<close> a run that works.
  \<^item> \<open>Bridge_Session\<close>: start, stop and end of a node thread in \<open>relay.rs\<close>; dropping the runtime and
    signalling \<open>done\<close> are two steps, so that their order counts.

  The controller crate, \<open>src/controller/src/\<close>:
  \<^item> \<open>A2s_Query\<close>: \<open>a2s.rs\<close>, the query client and its binary parsers.
  \<^item> \<open>F64\<close>, \<open>Steamcmd_Output\<close>, \<open>Steamcmd_Runner\<close>: \<open>steamcmd.rs\<close>, its progress lines (with the
    IEEE rounding they need), download, extraction and the pull loop.
  \<^item> \<open>Host\<close>: the file system, child processes and downloads as the standard library gives them;
    every call can fail, and one that writes can fail with a part of its work done.
  \<^item> \<open>Ds_Files\<close>, \<open>Ds_Manager\<close>: \<open>ds.rs\<close>, the install search, map list, sound cache and map cycle, and
    the manager with its background task as a step relation over every interleaving.
  \<^item> \<open>Game_Launcher\<close>: \<open>game.rs\<close>.
  \<^item> \<open>Settings\<close>, \<open>Controller\<close>, \<open>Interfaces\<close>, \<open>Resume\<close>: \<open>controller.rs\<close>, the saved state, the sessions,
    the live interfaces, and what happens at boot.
  \<^item> \<open>Gui_Shell\<close> (\<open>src/gui/src-tauri/src/lib.rs\<close>) and \<open>Web_Panel\<close> (\<open>bin/web.rs\<close>): the two shells, each
    a command handler over one controller behind a mutex.
  \<^item> \<open>Controller_Runs\<close>, \<open>Session_Slots\<close>, \<open>Persistence\<close>: the controller over time, with calls, resumes,
    nodes and the background task as events; \<open>Reboot\<close>, a stop of the panel and the boot after
    it; \<open>Controller_Examples\<close> has concrete runs.
  \<^item> \<open>Source_Tests\<close>: the unit tests of the repository, evaluated on the model.

  \<open>Bridge_Prelude\<close>, \<open>Rust_Str\<close>, \<open>Utf8\<close> and \<open>Keyed_List\<close> hold what all of them share: results as a sum
  type, the string methods of Rust that occur, UTF-8, and lists keyed by a function.

  \<^bold>\<open>How the parts rest on each other.\<close>  A result is \<open>string + 'a\<close>, the left side the text of the error.
  Operations that use the host are functions from a state to a result and a state; the locale
  \<open>io_frame\<close> gives the composition rule for every relation such operations keep, and is
  interpreted once per relation.  The locale \<open>datagram_codec\<close> is what the relays need of the
  framing, \<open>wire_codec\<close> what the query parsers promise, \<open>keyed_store\<close> what a table
  with one row per key promises (the browser and the saved interfaces), and \<open>session_slot\<close> what the
  two session halves of the controller promise; all are interpreted on the code's model.

  \<^bold>\<open>What is shown.\<close>  In every reachable state of the whole bridge packets pass in both directions
  unaltered and in order as long as the link has no gap, and whatever the link loses or
  reorders, packets of one chunk are never merged or torn; with an engine that delivers, any
  conversation of non-empty packets within the read buffers succeeds.  Each relay, taken alone, delivers in order.  The controller
  refines two independent session slots, never lets the settings file fall behind while
  writes succeed (one that fails half way can lose all of it), and keeps its
  parts consistent over every history.  A stop of the dedicated server is final when its
  task is suspended, and the race in which it is not is shown as well.  Parsers are proved by
  round trips against writers, routines that search or repair by what they leave.  Where
  the code does not do what it means to, a theorem shows the case (lost final chunks, two
  deadlocks, relays that outlive their link, legacy server replies that are misread, a failed
  restart that is never retried).

  \<^bold>\<open>Bounds and fuel.\<close>  Machine integers are words of their width.  Loops are recursive
  functions with a termination measure; the wait for a port decreases the time left.
  A method of the dedicated-server manager has at most four steps left after its first, which is
  the fuel of \<open>mgr_finish\<close> (\<open>mgr_finish_4\<close>).  Endless tasks are not loops but
  steps that may be taken again.

  \<^bold>\<open>Not modelled.\<close>  The vendored engine (a parameter: what it attaches, delivers and answers), the
  libraries for JSON, HTTP, archives, hexadecimal text and command lines (parameters, with what their
  documentation promises as named hypotheses), logging, the web frontend (HTML and
  JavaScript), tests, examples and build scripts.  Paths are Unix paths and, like all text, lists
  of bytes; only the names in a zip archive, which is used on Windows alone, are joined by the
  rules of Windows.  Some simplifications inside the modelled parts:
  \<^item> A process of the dedicated server is the one that was spawned (\<open>svends_run\<close>).  The game binary it
    starts in turn is not in the model: a replaced \<open>Child\<close> is killed by its number alone and may leave that
    binary behind, while \<open>stop\<close> kills the whole process group.
  \<^item> A child process that is waited for runs at once, before its output is read, and the values of the
    cancel flag seen by the pull loop come with its events: the runs of \<open>pull_ds\<close> include those of the code.
  \<^item> \<open>load_or_create\<close> of the engine's identity file is a parameter: its answers do not show in the
    files, and two loads may differ unless a hypothesis says otherwise.
  \<^item> The legacy layout of an A2S info reply is written by its documentation (\<open>legacy_reply\<close>); the
    parser does not agree with it.
\<close>

subsection \<open>From the game client to the game server\<close>

text \<open>
  C4: if the chunks a server relay has accepted are an initial part of the
  payloads a client relay has issued (the link has delivered them in order and without a gap
  so far), then what the server has sent to the Sven Co-op server is an initial part of a
  sequence of packets the client received from one game client, in the order received and
  beginning with the packet that opened the link: packets are neither altered nor merged.
\<close>

theorem end_to_end_uplink:
  assumes "client_run (client_init target) as c" and "crelays c i = Some r"
    and "server_run server_init bs s"
    and "prefix (nonempty (of_id j (accepted s))) (payloads (of_id i (c_commands c)))"
  shows "\<exists>ds. subseq (cr_pkt r # ds) (of_id (cr_src r) (heard c))
     \<and> prefix (of_id j (sc_sent s)) (cr_pkt r # ds)"
proof -
  obtain ds where ds: "subseq (cr_pkt r # ds) (of_id (cr_src r) (heard c))"
    "prefix (payloads (of_id i (c_commands c))) (concat (map frame (cr_pkt r # ds)))"
    using client_uplink [OF assms(1,2)] by blast
  have "\<forall>d\<in>set (cr_pkt r # ds). length d \<le> 65535"
    using client_heard_short [OF assms(1)] list_emb_set [OF ds(1)] by metis
  then have "prefix (of_id j (sc_sent s)) (cr_pkt r # ds)"
    using pump_stream [OF sent_of_accepted [OF assms(3)]] assms(4) ds(2)
    by (meson prefix_order.trans)
  then show ?thesis using ds(1) by blast
qed

theorem end_to_end_uplink_witness:
  "\<exists>c r s. client_run (client_init (Some [1])) client_demo_run c \<and> crelays c 0 = Some r
     \<and> server_run server_init
          [Route 0 (LinkEstablished client_demo_link), RelayBind 0 True, RelayConnect 0 True,
           Route 1 (LinkData client_demo_link [1, 104]), ToSc 0 True] s
     \<and> of_id 0 (sc_sent s) = [[104]]
     \<and> (\<exists>ds. prefix [[104]] (cr_pkt r # ds) \<and> subseq (cr_pkt r # ds) (of_id (cr_src r) (heard c)))"
proof -
  obtain c r where c: "client_run (client_init (Some [1])) client_demo_run c" "crelays c 0 = Some r"
    "c_commands c = [(0, SendToLink client_demo_link [1, 104]), (0, SendToLink client_demo_link [1, 105])]"
    using client_demo_result by blast
  have "\<exists>s. server_exec server_init
          [Route 0 (LinkEstablished client_demo_link), RelayBind 0 True, RelayConnect 0 True,
           Route 1 (LinkData client_demo_link [1, 104]), ToSc 0 True] = Some s
     \<and> accepted s = [(0, [1, 104])] \<and> sc_sent s = [(0, [104])]"
    by (simp add: server_defs Let_def push_def FLAG_FINAL_def reassembler_default_def)
  then obtain s where s: "server_run server_init
          [Route 0 (LinkEstablished client_demo_link), RelayBind 0 True, RelayConnect 0 True,
           Route 1 (LinkData client_demo_link [1, 104]), ToSc 0 True] s"
    "accepted s = [(0, [1, 104])]" "sc_sent s = [(0, [104])]"
    using server_exec_run by blast
  have "prefix (nonempty (of_id 0 (accepted s))) (payloads (of_id 0 (c_commands c)))"
    by (simp add: s(2) c(3) nonempty_def)
  then obtain ds where "subseq (cr_pkt r # ds) (of_id (cr_src r) (heard c))"
    "prefix (of_id 0 (sc_sent s)) (cr_pkt r # ds)"
    using end_to_end_uplink [OF c(1,2) s(1)] by blast
  moreover have "of_id 0 (sc_sent s) = [[104]]" by (simp add: s(3))
  ultimately show ?thesis using c(1,2) s(1) by metis
qed

subsection \<open>From the game server to the game client\<close>

text \<open>
  C5: if a link has one relay on the server, and what a client relay has taken from its link
  is an initial part of what that relay has issued on it (the link has delivered the chunks in
  order and without a gap so far), then what the game client has got is an initial part of the
  datagrams the relay read from the Sven Co-op server: neither altered nor merged.
\<close>

theorem end_to_end_downlink:
  assumes "server_run server_init bs s" and "relays s j = Some q" and "only_relay (r_link q) j s"
    and "client_run (client_init target) as c" and "crelays c i = Some r"
    and "prefix (nonempty (of_id i (taken_down c))) (sends_to (r_link q) (commands s))"
  shows "prefix (of_id i (udp_out c)) (replies j bs)"
proof -
  have "prefix (nonempty (of_id i (taken_down c))) (concat (map frame (replies j bs)))"
    using assms(6) downlink_issued [OF assms(1-3)] by (rule prefix_order.trans)
  then show ?thesis using pump_stream [OF client_sent_of_taken [OF assms(4,5)]] replies_short by blast
qed

theorem end_to_end_downlink_witness:
  "\<exists>s c r. server_run server_init
       [Route 0 (LinkEstablished client_demo_link), RelayBind 0 True, RelayConnect 0 True,
        FromSc 0 (UdpOk [65]) 5, FromSc 0 (UdpOk [66]) 5] s
     \<and> client_run (client_init (Some [1])) client_demo_run c \<and> crelays c 0 = Some r
     \<and> of_id 0 (udp_out c) = [[65]] \<and> prefix (of_id 0 (udp_out c)) [[65], [66]]"
proof -
  let ?bs = "[Route 0 (LinkEstablished client_demo_link), RelayBind 0 True, RelayConnect 0 True,
    FromSc 0 (UdpOk [65]) 5, FromSc 0 (UdpOk [66]) 5]"
  have "\<exists>s q. server_exec server_init ?bs = Some s \<and> relays s 0 = Some q \<and> r_link q = client_demo_link
     \<and> only_relay client_demo_link 0 s
     \<and> commands s = [SendToLink client_demo_link [1, 65], SendToLink client_demo_link [1, 66]]"
    by (simp add: server_defs Let_def issue_one_byte only_relay_def)
  then obtain s q where s: "server_run server_init ?bs s" "relays s 0 = Some q" "r_link q = client_demo_link"
    "only_relay (r_link q) 0 s"
    "commands s = [SendToLink client_demo_link [1, 65], SendToLink client_demo_link [1, 66]]"
    using server_exec_run by metis
  obtain c r where c: "client_run (client_init (Some [1])) client_demo_run c" "crelays c 0 = Some r"
    "taken_down c = [(0, [1, 65])]" "udp_out c = [(0, [65])]"
    using client_demo_result by blast
  have "prefix (nonempty (of_id 0 (taken_down c))) (sends_to (r_link q) (commands s))"
    by (simp add: s(3,5) c(3) nonempty_def sends_to_def)
  then have "prefix (of_id 0 (udp_out c)) (replies 0 ?bs)"
    using end_to_end_downlink [OF s(1,2,4) c(1,2)] by blast
  then have "prefix (of_id 0 (udp_out c)) [[65], [66]]" by (simp add: UDP_READ_BUF_def)
  then show ?thesis using s(1) c by auto
qed

end
